(* ===== verification/Prelude.thy ===== *)
theory Prelude
  imports Main "HOL-Library.Word" "HOL-Library.Code_Target_Nat"
begin

text \<open>
  Shared vocabulary of the development: the types of Go values, the error values of the
  program, the exception discipline of \<^verbatim>\<open>src/throw.go\<close> as a result type and a
  state-and-exception action type, and the generic list lemmas the components use.

  \<^verbatim>\<open>throw.go\<close> turns errors into panics that carry an \<^verbatim>\<open>*Exception\<close>;
  \<^verbatim>\<open>Try\<close> recovers exactly those and lets every other panic through. A Go call can
  therefore end in three ways, and \<open>res\<close> has one constructor for each: it returns a value,
  it unwinds with an exception, or it unwinds with a run-time panic.
\<close>

named_theorems res_simps \<open>evaluation of results and actions\<close>
named_theorems list_cut \<open>splitting and rejoining lists at an index\<close>

type_synonym byte = "8 word"
type_synonym bytes = "byte list"
type_synonym u16 = "16 word"

section \<open>Errors\<close>

text \<open>
  \<open>Fmt f as\<close> is \<^verbatim>\<open>fmt.Errorf(f, as...)\<close> or \<^verbatim>\<open>errors.New(f)\<close>, the
  arguments as plain text, before the quoting a verb such as \<^verbatim>\<open>%q\<close> adds; \<open>Wrapped\<close> is the same with a \<^verbatim>\<open>%w\<close> argument;
  \<open>Joined\<close> is \<^verbatim>\<open>errors.Join\<close>. \<open>Foreign\<close> is an error made by the
  operating system or the network, with the answer of its \<^verbatim>\<open>Timeout()\<close> method.
\<close>

datatype wait_status = Exited int | Signaled nat

datatype err =
    Fmt string "string list"
  | Wrapped string "string list" err
  | Joined "err list"
  | EOF
  | UnexpectedEOF
  | ShortWrite
  | ErrClosed
  | DeadlineExceeded
  | ErrUnsupported
  | TUNRefused
  | ExitErr wait_status
  | Foreign string bool

text \<open>
  \<^verbatim>\<open>errors.As(err, &terr)\<close> for the interface \<^verbatim>\<open>timeoutError\<close>: the answer of
  \<^verbatim>\<open>Timeout()\<close> of the first error of the tree that has the method.
\<close>

fun as_timeout :: "err \<Rightarrow> bool option" and as_timeout_list :: "err list \<Rightarrow> bool option" where
  "as_timeout (Wrapped _ _ e) = as_timeout e"
| "as_timeout (Joined es) = as_timeout_list es"
| "as_timeout ErrClosed = Some False"
| "as_timeout DeadlineExceeded = Some True"
| "as_timeout (Foreign _ t) = Some t"
| "as_timeout _ = None"
| "as_timeout_list [] = None"
| "as_timeout_list (e # es) = (case as_timeout e of Some t \<Rightarrow> Some t | None \<Rightarrow> as_timeout_list es)"

text \<open>\<^verbatim>\<open>errors.As(e, &exitError)\<close> for \<^verbatim>\<open>*exec.ExitError\<close>.\<close>

fun as_exit :: "err \<Rightarrow> wait_status option" and as_exit_list :: "err list \<Rightarrow> wait_status option" where
  "as_exit (Wrapped _ _ e) = as_exit e"
| "as_exit (Joined es) = as_exit_list es"
| "as_exit (ExitErr s) = Some s"
| "as_exit _ = None"
| "as_exit_list [] = None"
| "as_exit_list (e # es) = (case as_exit e of Some t \<Rightarrow> Some t | None \<Rightarrow> as_exit_list es)"

section \<open>Results: return, throw, panic\<close>

datatype 'a res = Ret 'a | Exc err | Pan string

primrec res_bind :: "'a res \<Rightarrow> ('a \<Rightarrow> 'b res) \<Rightarrow> 'b res" where
  "res_bind (Ret a) f = f a"
| "res_bind (Exc e) f = Exc e"
| "res_bind (Pan p) f = Pan p"

text \<open>The functions of \<^verbatim>\<open>throw.go\<close>. A Go result \<^verbatim>\<open>(T, error)\<close> is \<open>err + 'a\<close>.\<close>

primrec Throw :: "err option \<Rightarrow> unit res" where
  "Throw None = Ret ()"
| "Throw (Some e) = Exc e"

primrec Throw2 :: "err + 'a \<Rightarrow> 'a res" where
  "Throw2 (Inl e) = Exc e"
| "Throw2 (Inr v) = Ret v"

primrec Throw3 :: "err + 'a \<times> 'b \<Rightarrow> ('a \<times> 'b) res" where
  "Throw3 (Inl e) = Exc e"
| "Throw3 (Inr v) = Ret v"

definition ThrowFmt :: "string \<Rightarrow> string list \<Rightarrow> 'a res" where
  "ThrowFmt f as = Exc (Fmt f as)"

primrec Try :: "'a res \<Rightarrow> (err + 'a) res" where
  "Try (Ret a) = Ret (Inr a)"
| "Try (Exc e) = Ret (Inl e)"
| "Try (Pan p) = Pan p"

section \<open>Actions: results over a state\<close>

text \<open>
  An effect on a state \<open>'s\<close> that may throw: the state survives the throw, as the heap
  survives a Go panic that is recovered further up.
\<close>

type_synonym ('s, 'a) act = "'s \<Rightarrow> 'a res \<times> 's"

definition act_ret :: "'a \<Rightarrow> ('s, 'a) act" where
  "act_ret a s = (Ret a, s)"

definition act_lift :: "'a res \<Rightarrow> ('s, 'a) act" where
  "act_lift r s = (r, s)"

definition act_bind :: "('s, 'a) act \<Rightarrow> ('a \<Rightarrow> ('s, 'b) act) \<Rightarrow> ('s, 'b) act" where
  "act_bind m f s =
     (case m s of
        (Ret a, s') \<Rightarrow> f a s'
      | (Exc e, s') \<Rightarrow> (Exc e, s')
      | (Pan p, s') \<Rightarrow> (Pan p, s'))"

definition act_try :: "('s, 'a) act \<Rightarrow> ('s, err + 'a) act" where
  "act_try m s = (case m s of (r, s') \<Rightarrow> (Try r, s'))"

text \<open>
  \<^verbatim>\<open>defer CloseOnThrow(c)\<close>: run the closer when the body unwinds, by a throw or by a
  panic, and let the unwinding continue.
\<close>

definition CloseOnThrow :: "('s \<Rightarrow> 's) \<Rightarrow> ('s, 'a) act \<Rightarrow> ('s, 'a) act" where
  "CloseOnThrow close m s =
     (case m s of
        (Ret a, s') \<Rightarrow> (Ret a, s')
      | (Exc e, s') \<Rightarrow> (Exc e, close s')
      | (Pan p, s') \<Rightarrow> (Pan p, close s'))"

text \<open>\<^verbatim>\<open>defer c.Close()\<close>: run the closer however the body ends.\<close>

definition act_finally :: "('s \<Rightarrow> 's) \<Rightarrow> ('s, 'a) act \<Rightarrow> ('s, 'a) act" where
  "act_finally close m s = (case m s of (r, s') \<Rightarrow> (r, close s'))"

section \<open>Rules for results\<close>

lemma res_bind_Ret_iff [res_simps]:
  "res_bind m f = Ret b \<longleftrightarrow> (\<exists>a. m = Ret a \<and> f a = Ret b)"
  by (cases m) auto

lemma res_bind_Exc_iff [res_simps]:
  "res_bind m f = Exc e \<longleftrightarrow> m = Exc e \<or> (\<exists>a. m = Ret a \<and> f a = Exc e)"
  by (cases m) auto

lemma res_bind_Pan_iff [res_simps]:
  "res_bind m f = Pan p \<longleftrightarrow> m = Pan p \<or> (\<exists>a. m = Ret a \<and> f a = Pan p)"
  by (cases m) auto

lemma res_bind_assoc: "res_bind (res_bind m f) g = res_bind m (\<lambda>a. res_bind (f a) g)"
  by (cases m) auto

lemma Throw_iff [res_simps]:
  "Throw x = Ret u \<longleftrightarrow> x = None" "Throw x = Exc e \<longleftrightarrow> x = Some e" "Throw x \<noteq> Pan p"
  by (cases x; simp)+

lemma Throw2_iff [res_simps]:
  "Throw2 x = Ret a \<longleftrightarrow> x = Inr a" "Throw2 x = Exc e \<longleftrightarrow> x = Inl e" "Throw2 x \<noteq> Pan p"
  by (cases x; simp)+

lemma Throw3_iff [res_simps]:
  "Throw3 y = Ret ab \<longleftrightarrow> y = Inr ab" "Throw3 y = Exc e \<longleftrightarrow> y = Inl e" "Throw3 y \<noteq> Pan p"
  by (cases y; auto)+

lemma ThrowFmt_iff [res_simps]:
  "ThrowFmt f as \<noteq> Ret a" "ThrowFmt f as = Exc e \<longleftrightarrow> e = Fmt f as" "ThrowFmt f as \<noteq> Pan p"
  by (auto simp: ThrowFmt_def)

lemma Try_iff [res_simps]:
  "Try m = Ret (Inr a) \<longleftrightarrow> m = Ret a" "Try m = Ret (Inl e) \<longleftrightarrow> m = Exc e"
  "Try m \<noteq> Exc e" "Try m = Pan p \<longleftrightarrow> m = Pan p"
  by (cases m; simp)+

lemma act_bind_simps [simp]:
  "m s = (Ret a, s') \<Longrightarrow> act_bind m f s = f a s'"
  "m s = (Exc e, s') \<Longrightarrow> act_bind m f s = (Exc e, s')"
  "m s = (Pan p, s') \<Longrightarrow> act_bind m f s = (Pan p, s')"
  by (simp_all add: act_bind_def)

lemma act_bind_Ret_iff [res_simps]:
  "act_bind m f s = (Ret b, t) \<longleftrightarrow> (\<exists>a s'. m s = (Ret a, s') \<and> f a s' = (Ret b, t))"
  by (auto simp: act_bind_def split: prod.splits res.splits)

lemma act_bind_Exc_iff [res_simps]:
  "act_bind m f s = (Exc e, t) \<longleftrightarrow>
     m s = (Exc e, t) \<or> (\<exists>a s'. m s = (Ret a, s') \<and> f a s' = (Exc e, t))"
  by (auto simp: act_bind_def split: prod.splits res.splits)

lemma act_bind_Pan_iff [res_simps]:
  "act_bind m f s = (Pan p, t) \<longleftrightarrow>
     m s = (Pan p, t) \<or> (\<exists>a s'. m s = (Ret a, s') \<and> f a s' = (Pan p, t))"
  by (auto simp: act_bind_def split: prod.splits res.splits)

lemma act_ret_eq [simp]: "act_ret a s = (Ret a, s)"
  by (simp add: act_ret_def)

lemma act_lift_eq [simp]: "act_lift r s = (r, s)"
  by (simp add: act_lift_def)

lemma act_try_iff [res_simps]:
  "act_try m s = (Ret (Inr a), t) \<longleftrightarrow> m s = (Ret a, t)"
  "act_try m s = (Ret (Inl e), t) \<longleftrightarrow> m s = (Exc e, t)"
  "act_try m s \<noteq> (Exc e, t)"
  "act_try m s = (Pan p, t) \<longleftrightarrow> m s = (Pan p, t)"
  by (auto simp: act_try_def res_simps split: prod.splits)

lemma CloseOnThrow_iff [res_simps]:
  "CloseOnThrow c m s = (Ret a, t) \<longleftrightarrow> m s = (Ret a, t)"
  "CloseOnThrow c m s = (Exc e, t) \<longleftrightarrow> (\<exists>s'. m s = (Exc e, s') \<and> t = c s')"
  "CloseOnThrow c m s = (Pan p, t) \<longleftrightarrow> (\<exists>s'. m s = (Pan p, s') \<and> t = c s')"
  by (auto simp: CloseOnThrow_def split: prod.splits res.splits)

section \<open>Actions that keep a property\<close>

text \<open>
  \<open>act_keeps P m\<close>: from a state with \<open>P\<close> the action does not panic, and \<open>P\<close> holds however it ends.
  The rules follow the program's own composition, so a whole protocol exchange is one \<open>intro\<close>.
\<close>

named_theorems keeps \<open>introduction rules for act_keeps\<close>

definition act_keeps :: "('s \<Rightarrow> bool) \<Rightarrow> ('s, 'a) act \<Rightarrow> bool" where
  "act_keeps P m \<longleftrightarrow> (\<forall>s x s'. P s \<longrightarrow> m s = (x, s') \<longrightarrow> P s' \<and> (\<forall>p. x \<noteq> Pan p))"

lemma act_keepsI:
  "(\<And>s x s'. P s \<Longrightarrow> m s = (x, s') \<Longrightarrow> P s' \<and> (\<forall>p. x \<noteq> Pan p)) \<Longrightarrow> act_keeps P m"
  by (auto simp: act_keeps_def)

lemma act_keepsD: "act_keeps P m \<Longrightarrow> P s \<Longrightarrow> m s = (x, s') \<Longrightarrow> P s' \<and> (\<forall>p. x \<noteq> Pan p)"
  by (auto simp: act_keeps_def)

lemma act_keeps_bind [keeps]:
  assumes "act_keeps P m" "\<And>a. act_keeps P (f a)"
  shows "act_keeps P (act_bind m f)"
proof (rule act_keepsI)
  fix s x s' assume "P s" "act_bind m f s = (x, s')"
  with act_keepsD [OF assms(1) \<open>P s\<close>] act_keepsD [OF assms(2)]
  show "P s' \<and> (\<forall>p. x \<noteq> Pan p)"
    unfolding act_bind_def by (auto split: prod.split_asm res.split_asm)
qed

lemma act_keeps_ret [keeps]: "act_keeps P (act_ret a)"
  by (simp add: act_keeps_def)

lemma act_keeps_fmt [keeps]: "act_keeps P (act_lift (ThrowFmt f as))"
  by (simp add: act_keeps_def ThrowFmt_def)

lemma act_keeps_if [keeps]:
  "(c \<Longrightarrow> act_keeps P m) \<Longrightarrow> (\<not> c \<Longrightarrow> act_keeps P n) \<Longrightarrow> act_keeps P (if c then m else n)"
  by simp

lemma act_keeps_option [keeps]:
  "(x = None \<Longrightarrow> act_keeps P m) \<Longrightarrow> (\<And>a. x = Some a \<Longrightarrow> act_keeps P (f a)) \<Longrightarrow>
     act_keeps P (case x of None \<Rightarrow> m | Some a \<Rightarrow> f a)"
  by (cases x) auto

lemma act_keeps_prod [keeps]:
  "(\<And>a b. x = (a, b) \<Longrightarrow> act_keeps P (f a b)) \<Longrightarrow> act_keeps P (case x of (a, b) \<Rightarrow> f a b)"
  by (cases x) auto

lemma act_keeps_try [keeps]: "act_keeps P m \<Longrightarrow> act_keeps P (act_try m)"
  by (fastforce simp: act_keeps_def act_try_def res_simps split: prod.splits)

section \<open>Lists\<close>

lemma take_drop_eq_append [list_cut]:
  "n = length xs \<Longrightarrow> take n (xs @ ys) = xs" "n = length xs \<Longrightarrow> drop n (xs @ ys) = ys"
  by auto

lemma takeWhile_append_stop [list_cut]:
  "\<forall>x \<in> set xs. P x \<Longrightarrow> \<not> P y \<Longrightarrow> takeWhile P (xs @ y # ys) = xs"
  "\<forall>x \<in> set xs. P x \<Longrightarrow> \<not> P y \<Longrightarrow> dropWhile P (xs @ y # ys) = y # ys"
  by (induction xs) auto

lemma takeWhile_all [list_cut]:
  "\<forall>x \<in> set xs. P x \<Longrightarrow> takeWhile P xs = xs" "\<forall>x \<in> set xs. P x \<Longrightarrow> dropWhile P xs = []"
  by (induction xs) auto

lemma butlast_snoc_cases: "xs = [] \<or> (\<exists>ys y. xs = ys @ [y])"
  by (cases xs rule: rev_cases) auto

end
