(* ===== verification/GoLib.thy ===== *)
theory GoLib
  imports Prelude
begin

text \<open>
  What the program uses of the Go packages \<^verbatim>\<open>strings\<close>, \<^verbatim>\<open>strconv\<close> and
  \<^verbatim>\<open>encoding/binary\<close>. A Go string is a byte sequence, which \<open>string\<close> is as well
  (a \<open>char\<close> has eight bits); an index of \<open>-1\<close> is \<open>None\<close>.
\<close>

section \<open>Bytes and strings\<close>

definition byte_of_char :: "char \<Rightarrow> byte" where
  "byte_of_char c = of_nat (of_char c)"

definition char_of_byte :: "byte \<Rightarrow> char" where
  "char_of_byte b = char_of (unat b)"

definition bytes_of_string :: "string \<Rightarrow> bytes" where
  "bytes_of_string = map byte_of_char"

definition string_of_bytes :: "bytes \<Rightarrow> string" where
  "string_of_bytes = map char_of_byte"

section \<open>Slices\<close>

text \<open>\<^verbatim>\<open>xs[lo:hi]\<close>, which panics when the bounds do not fit.\<close>

definition slice :: "nat \<Rightarrow> nat \<Rightarrow> 'a list \<Rightarrow> 'a list res" where
  "slice lo hi xs =
     (if lo \<le> hi \<and> hi \<le> length xs then Ret (drop lo (take hi xs)) else Pan ''slice bounds out of range'')"

text \<open>\<^verbatim>\<open>xs[i]\<close>, which panics out of range.\<close>

definition index :: "nat \<Rightarrow> 'a list \<Rightarrow> 'a res" where
  "index i xs = (if i < length xs then Ret (xs ! i) else Pan ''index out of range'')"

section \<open>strings\<close>

definition index_byte :: "char \<Rightarrow> string \<Rightarrow> nat option" where
  "index_byte c s = (if c \<in> set s then Some (length (takeWhile (\<lambda>x. x \<noteq> c) s)) else None)"

definition last_index_byte :: "char \<Rightarrow> string \<Rightarrow> nat option" where
  "last_index_byte c s =
     (if c \<in> set s then Some (length s - Suc (length (takeWhile (\<lambda>x. x \<noteq> c) (rev s)))) else None)"

text \<open>\<^verbatim>\<open>strings.Split\<close> with a separator of one byte.\<close>

fun split_on :: "char \<Rightarrow> string \<Rightarrow> string list" where
  "split_on c [] = [[]]"
| "split_on c (x # xs) =
     (if x = c then [] # split_on c xs
      else case split_on c xs of [] \<Rightarrow> [[x]] | p # ps \<Rightarrow> (x # p) # ps)"

text \<open>\<^verbatim>\<open>strings.SplitN(s, c, n)\<close>: at most \<open>n\<close> parts, the last one unsplit.\<close>

fun split_n :: "char \<Rightarrow> nat \<Rightarrow> string \<Rightarrow> string list" where
  "split_n c 0 s = []"
| "split_n c (Suc 0) s = [s]"
| "split_n c (Suc (Suc n)) s =
     (case index_byte c s of
        None \<Rightarrow> [s]
      | Some i \<Rightarrow> take i s # split_n c (Suc n) (drop (Suc i) s))"

text \<open>\<^verbatim>\<open>strings.Cut\<close> at one byte: before, after, found.\<close>

definition cut_byte :: "char \<Rightarrow> string \<Rightarrow> string \<times> string \<times> bool" where
  "cut_byte c s =
     (case index_byte c s of None \<Rightarrow> (s, [], False) | Some i \<Rightarrow> (take i s, drop (Suc i) s, True))"

fun join_with :: "string \<Rightarrow> string list \<Rightarrow> string" where
  "join_with sep [] = []"
| "join_with sep [x] = x"
| "join_with sep (x # y # ys) = x @ sep @ join_with sep (y # ys)"

definition has_prefix :: "string \<Rightarrow> string \<Rightarrow> bool" where
  "has_prefix s p \<longleftrightarrow> take (length p) s = p"

definition trim_prefix :: "string \<Rightarrow> string \<Rightarrow> string" where
  "trim_prefix s p = (if has_prefix s p then drop (length p) s else s)"

fun contains_str :: "string \<Rightarrow> string \<Rightarrow> bool" where
  "contains_str [] p \<longleftrightarrow> p = []"
| "contains_str (x # xs) p \<longleftrightarrow> has_prefix (x # xs) p \<or> contains_str xs p"

definition trim_right :: "char \<Rightarrow> string \<Rightarrow> string" where
  "trim_right c s = rev (dropWhile (\<lambda>x. x = c) (rev s))"

definition trim_both :: "char \<Rightarrow> string \<Rightarrow> string" where
  "trim_both c s = trim_right c (dropWhile (\<lambda>x. x = c) s)"

text \<open>
  \<^verbatim>\<open>strings.Fields\<close>. \<open>space_len\<close> is the length in bytes of the white space rune at the head of a string, zero when there is none: the
  ASCII white space, U+0085, U+00A0, U+1680, U+2000 to U+200A, U+2028, U+2029, U+202F, U+205F and U+3000. The lead byte of none of these
  can be a continuation byte, so matching the bytes is matching the runes.
\<close>

fun space_len :: "string \<Rightarrow> nat" where
  "space_len [] = 0"
| "space_len (c # cs) =
     (let n = (of_char c :: nat) in
      if n = 32 \<or> 9 \<le> n \<and> n \<le> 13 then 1
      else case cs of
          [] \<Rightarrow> 0
        | d # ds \<Rightarrow>
            let m = (of_char d :: nat) in
            if n = 194 \<and> (m = 133 \<or> m = 160) then 2
            else case ds of
                [] \<Rightarrow> 0
              | e # _ \<Rightarrow>
                  let k = (of_char e :: nat) in
                  if n = 225 \<and> m = 154 \<and> k = 128 \<or>
                     n = 226 \<and> m = 128 \<and> (128 \<le> k \<and> k \<le> 138 \<or> k = 168 \<or> k = 169 \<or> k = 175) \<or>
                     n = 226 \<and> m = 129 \<and> k = 159 \<or>
                     n = 227 \<and> m = 128 \<and> k = 128
                  then 3 else 0)"

fun fields_loop :: "nat \<Rightarrow> string \<Rightarrow> string \<Rightarrow> string list" where
  "fields_loop skip cur [] = (if cur = [] then [] else [cur])"
| "fields_loop (Suc skip) cur (c # cs) = fields_loop skip cur cs"
| "fields_loop 0 cur (c # cs) =
     (case space_len (c # cs) of
        0 \<Rightarrow> fields_loop 0 (cur @ [c]) cs
      | Suc k \<Rightarrow> (if cur = [] then [] else [cur]) @ fields_loop k [] cs)"

definition string_fields :: "string \<Rightarrow> string list" where
  "string_fields s = fields_loop 0 [] s"

section \<open>strconv\<close>

definition is_digit :: "char \<Rightarrow> bool" where
  "is_digit c \<longleftrightarrow> 48 \<le> (of_char c :: nat) \<and> (of_char c :: nat) \<le> 57"

definition digit_val :: "char \<Rightarrow> nat" where
  "digit_val c = of_char c - 48"

definition digit_char :: "nat \<Rightarrow> char" where
  "digit_char n = char_of (48 + n)"

text \<open>\<^verbatim>\<open>strconv.Itoa\<close> on a non-negative number.\<close>

fun itoa :: "nat \<Rightarrow> string" where
  "itoa n = (if n < 10 then [digit_char n] else itoa (n div 10) @ [digit_char (n mod 10)])"

declare itoa.simps [simp del]

text \<open>\<^verbatim>\<open>strconv.ParseUint(s, 10, bits)\<close>.\<close>

fun parse_uint_loop :: "nat \<Rightarrow> string \<Rightarrow> nat \<Rightarrow> string \<Rightarrow> err + nat" where
  "parse_uint_loop bits s0 n [] = Inr n"
| "parse_uint_loop bits s0 n (c # cs) =
     (if is_digit c then
        (if 2 ^ bits \<le> n * 10 + digit_val c
         then Inl (Fmt ''strconv.ParseUint: parsing %q: value out of range'' [s0])
         else parse_uint_loop bits s0 (n * 10 + digit_val c) cs)
      else Inl (Fmt ''strconv.ParseUint: parsing %q: invalid syntax'' [s0]))"

definition parse_uint :: "string \<Rightarrow> nat \<Rightarrow> err + nat" where
  "parse_uint s bits =
     (if s = [] then Inl (Fmt ''strconv.ParseUint: parsing %q: invalid syntax'' [s])
      else parse_uint_loop bits s 0 s)"

section \<open>encoding/binary: big-endian 16-bit numbers\<close>

definition be16 :: "u16 \<Rightarrow> bytes" where
  "be16 w = [ucast (drop_bit 8 w), ucast w]"

definition be16_get :: "byte \<Rightarrow> byte \<Rightarrow> u16" where
  "be16_get hi lo = or (push_bit 8 (ucast hi)) (ucast lo)"

section \<open>Lemmas\<close>

lemma byte_char_inverse [simp]:
  "char_of_byte (byte_of_char c) = c" "byte_of_char (char_of_byte b) = b"
proof -
  have "(of_char c :: nat) < 256"
    by (metis of_char_mod_256 mod_less_divisor zero_less_numeral)
  then show "char_of_byte (byte_of_char c) = c"
    by (simp add: char_of_byte_def byte_of_char_def unat_of_nat)
  have "unat b < 256"
    using unsigned_less [of b, where ?'a = nat] by simp
  then show "byte_of_char (char_of_byte b) = b"
    by (simp add: char_of_byte_def byte_of_char_def)
qed

lemma bytes_string_inverse [simp]:
  "string_of_bytes (bytes_of_string s) = s" "bytes_of_string (string_of_bytes b) = b"
  by (simp_all add: string_of_bytes_def bytes_of_string_def comp_def)

lemma length_bytes_of_string [simp]:
  "length (bytes_of_string s) = length s" "length (string_of_bytes b) = length b"
  by (simp_all add: string_of_bytes_def bytes_of_string_def)

lemma slice_iff [res_simps]:
  "slice lo hi xs = Ret ys \<longleftrightarrow> lo \<le> hi \<and> hi \<le> length xs \<and> ys = drop lo (take hi xs)"
  "slice lo hi xs \<noteq> Exc e" "slice lo hi xs = Pan p \<longleftrightarrow> \<not> (lo \<le> hi \<and> hi \<le> length xs) \<and> p = ''slice bounds out of range''"
  by (auto simp: slice_def)

lemma index_iff [res_simps]:
  "index i xs = Ret x \<longleftrightarrow> i < length xs \<and> x = xs ! i"
  "index i xs \<noteq> Exc e" "index i xs = Pan p \<longleftrightarrow> \<not> i < length xs \<and> p = ''index out of range''"
  by (auto simp: index_def)

lemma index_byte_None_iff [simp]: "index_byte c s = None \<longleftrightarrow> c \<notin> set s"
  by (simp add: index_byte_def)

lemma index_byte_none [simp]: "c \<notin> set s \<Longrightarrow> index_byte c s = None"
  by (simp add: index_byte_def)

lemma last_index_byte_none [simp]: "c \<notin> set s \<Longrightarrow> last_index_byte c s = None"
  by (simp add: last_index_byte_def)

lemma last_index_byte_None_iff [simp]: "last_index_byte c s = None \<longleftrightarrow> c \<notin> set s"
  by (simp add: last_index_byte_def)

lemma index_byte_first: "c \<notin> set xs \<Longrightarrow> index_byte c (xs @ c # ys) = Some (length xs)"
  unfolding index_byte_def by (subst takeWhile_append_stop) auto

lemma last_index_byte_last: "c \<notin> set ys \<Longrightarrow> last_index_byte c (xs @ c # ys) = Some (length xs)"
proof -
  assume "c \<notin> set ys"
  then have "takeWhile (\<lambda>x. x \<noteq> c) (rev ys @ c # rev xs) = rev ys"
    by (intro takeWhile_append_stop) auto
  then show ?thesis
    by (simp add: last_index_byte_def)
qed

lemma last_index_byte_SomeE:
  assumes "last_index_byte c s = Some i"
  obtains xs ys where "s = xs @ c # ys" "c \<notin> set ys" "i = length xs"
proof -
  have "c \<in> set s"
    using assms by (metis last_index_byte_None_iff option.distinct(1))
  then obtain xs ys where s: "s = xs @ c # ys" and ys: "c \<notin> set ys"
    by (meson split_list_last)
  with assms have "i = length xs"
    by (simp add: last_index_byte_last)
  with s ys that show thesis by blast
qed

lemma index_byte_SomeE:
  assumes "index_byte c s = Some i"
  obtains xs ys where "s = xs @ c # ys" "c \<notin> set xs" "i = length xs"
proof -
  have "c \<in> set s"
    using assms by (metis index_byte_None_iff option.distinct(1))
  then obtain xs ys where s: "s = xs @ c # ys" and ys: "c \<notin> set xs"
    by (meson split_list_first)
  with assms have "i = length xs"
    by (simp add: index_byte_first)
  with s ys that show thesis by blast
qed

lemma split_on_nonempty [simp]: "split_on c s \<noteq> []"
  by (cases s) (auto split: list.splits)

lemma split_on_none: "c \<notin> set s \<Longrightarrow> split_on c s = [s]"
  by (induction s) auto

lemma split_on_first: "c \<notin> set xs \<Longrightarrow> split_on c (xs @ c # ys) = xs # split_on c ys"
  by (induction xs) auto

lemma join_split: "join_with [c] (split_on c s) = s"
proof (induction s)
  case Nil
  then show ?case by simp
next
  case (Cons x xs)
  then show ?case
    by (cases "split_on c xs"; cases "tl (split_on c xs)") (auto split: list.splits)
qed

lemma split_on_parts_free: "p \<in> set (split_on c s) \<Longrightarrow> c \<notin> set p"
  by (induction s arbitrary: p) (auto split: if_splits list.splits)

lemma digit_char_props [simp]:
  "n < 10 \<Longrightarrow> is_digit (digit_char n)" "n < 10 \<Longrightarrow> digit_val (digit_char n) = n"
  by (simp_all add: is_digit_def digit_val_def digit_char_def)

lemma digit_val_bound: "is_digit c \<Longrightarrow> digit_val c < 10"
  by (auto simp: is_digit_def digit_val_def)

lemma digit_char_val: "is_digit c \<Longrightarrow> digit_char (digit_val c) = c"
proof -
  assume "is_digit c"
  then have "48 + digit_val c = of_char c"
    by (simp add: is_digit_def digit_val_def)
  then show ?thesis
    by (simp add: digit_char_def)
qed

lemma itoa_nonempty [simp]: "itoa n \<noteq> []"
  by (subst itoa.simps) simp

lemma itoa_digits: "c \<in> set (itoa n) \<Longrightarrow> is_digit c"
proof (induction n rule: itoa.induct)
  case (1 n)
  then show ?case
    by (cases "n < 10") (auto simp: itoa.simps [of n])
qed

lemma is_digit_not_special:
  "is_digit c \<Longrightarrow> c \<noteq> CHR '':''" "is_digit c \<Longrightarrow> c \<noteq> CHR ''.''" "is_digit c \<Longrightarrow> c \<noteq> CHR ''[''"
  "is_digit c \<Longrightarrow> c \<noteq> CHR '']''" "is_digit c \<Longrightarrow> c \<noteq> CHR ''/''" "is_digit c \<Longrightarrow> c \<noteq> CHR ''%''"
  by (auto simp: is_digit_def)

lemma digits_no_special:
  assumes "\<forall>c \<in> set p. is_digit c"
  shows "CHR '':'' \<notin> set p" "CHR ''/'' \<notin> set p" "CHR ''['' \<notin> set p" "CHR '']'' \<notin> set p"
  using assms is_digit_not_special by (metis (full_types))+

lemma itoa_no_special [simp]:
  "CHR '':'' \<notin> set (itoa n)" "CHR ''.'' \<notin> set (itoa n)" "CHR ''['' \<notin> set (itoa n)"
  "CHR '']'' \<notin> set (itoa n)" "CHR ''/'' \<notin> set (itoa n)" "CHR ''%'' \<notin> set (itoa n)"
  using itoa_digits is_digit_not_special by blast+

lemma parse_uint_loop_digit:
  "m < 10 \<Longrightarrow> n * 10 + m < 2 ^ bits \<Longrightarrow>
     parse_uint_loop bits s n (digit_char m # cs) = parse_uint_loop bits s (n * 10 + m) cs"
  by simp

lemma parse_uint_loop_itoa:
  "n < 2 ^ bits \<Longrightarrow> parse_uint_loop bits s 0 (itoa n @ cs) = parse_uint_loop bits s n cs"
proof (induction n arbitrary: cs rule: itoa.induct)
  case (1 n)
  show ?case
  proof (cases "n < 10")
    case True
    with "1.prems" show ?thesis by (simp add: itoa.simps [of n])
  next
    case False
    have "n div 10 < 2 ^ bits"
      using "1.prems" by (meson div_le_dividend le_less_trans)
    then have "parse_uint_loop bits s 0 (itoa n @ cs)
               = parse_uint_loop bits s (n div 10) (digit_char (n mod 10) # cs)"
      using False "1.IH" by (simp add: itoa.simps [of n])
    also have "\<dots> = parse_uint_loop bits s n cs"
      using "1.prems" by (subst parse_uint_loop_digit) simp_all
    finally show ?thesis .
  qed
qed

lemma parse_uint_itoa: "n < 2 ^ bits \<Longrightarrow> parse_uint (itoa n) bits = Inr n"
  using parse_uint_loop_itoa [of n bits "itoa n" "[]"] by (simp add: parse_uint_def)

lemma parse_uint_loop_bound:
  "n < 2 ^ bits \<Longrightarrow> parse_uint_loop bits s n cs = Inr m \<Longrightarrow> m < 2 ^ bits"
  by (induction bits s n cs rule: parse_uint_loop.induct) (auto split: if_splits)

lemma parse_uint_bound: "parse_uint s bits = Inr m \<Longrightarrow> m < 2 ^ bits"
  using parse_uint_loop_bound [of 0 bits s s m] by (auto simp: parse_uint_def split: if_splits)

lemma parse_uint_loop_digits:
  "parse_uint_loop bits s n cs = Inr m \<Longrightarrow> c \<in> set cs \<Longrightarrow> is_digit c"
  by (induction bits s n cs rule: parse_uint_loop.induct) (auto split: if_splits)

lemma parse_uint_digits: "parse_uint s bits = Inr m \<Longrightarrow> s \<noteq> [] \<and> (\<forall>c \<in> set s. is_digit c)"
  by (auto simp: parse_uint_def intro: parse_uint_loop_digits split: if_splits)

lemma itoa_inj: "itoa m = itoa n \<Longrightarrow> m = n"
proof -
  assume eq: "itoa m = itoa n"
  obtain bits where "m < 2 ^ bits" "n < 2 ^ bits"
    by (metis add_lessD1 add.commute less_exp)
  then show "m = n"
    by (metis eq parse_uint_itoa sum.inject(2))
qed

lemma be16_length [simp]: "length (be16 w) = 2"
  by (simp add: be16_def)

lemma be16_roundtrip: "be16_get (ucast (drop_bit 8 w)) (ucast w) = w"
  unfolding be16_get_def
  by (rule bit_word_eqI)
    (auto simp: bit_simps)

lemma be16_get_inverse: "be16 (be16_get hi lo) = [hi, lo]"
proof -
  have hi: "ucast (drop_bit 8 (be16_get hi lo)) = hi"
    unfolding be16_get_def by (rule bit_word_eqI) (auto simp: bit_simps dest: bit_imp_le_length)
  have lo: "ucast (be16_get hi lo) = lo"
    unfolding be16_get_def by (rule bit_word_eqI) (auto simp: bit_simps)
  from hi lo show ?thesis by (simp add: be16_def)
qed

end
