(* ===== verification/NetAddr.thy ===== *)
theory NetAddr
  imports GoLib
begin

text \<open>
  What the program uses of the Go packages \<^verbatim>\<open>net\<close> and \<^verbatim>\<open>net/netip\<close>: addresses as
  byte slices of length 4 or 16 (\<open>[]\<close> is the nil IP), their textual forms, host:port strings
  and CIDR networks. The parsers and printers follow the library's loops; the lemmas give the
  round trips that the string-passing code of the program rests on.
\<close>

section \<open>Addresses\<close>

definition v4InV6Prefix :: bytes where
  "v4InV6Prefix = [0, 0, 0, 0, 0, 0, 0, 0, 0, 0, 255, 255]"

text \<open>\<^verbatim>\<open>IP.To4\<close> and \<^verbatim>\<open>IP.To16\<close>; \<open>[]\<close> is nil.\<close>

definition To4 :: "bytes \<Rightarrow> bytes" where
  "To4 ip =
     (if length ip = 4 then ip
      else if length ip = 16 \<and> take 12 ip = v4InV6Prefix then drop 12 ip
      else [])"

definition To16 :: "bytes \<Rightarrow> bytes" where
  "To16 ip =
     (if length ip = 4 then v4InV6Prefix @ ip else if length ip = 16 then ip else [])"

definition IsUnspecified :: "bytes \<Rightarrow> bool" where
  "IsUnspecified ip \<longleftrightarrow> To4 ip = [0, 0, 0, 0] \<or> ip = replicate 16 0"

section \<open>Printing\<close>

definition hex_char :: "nat \<Rightarrow> char" where
  "hex_char n = (if n < 10 then char_of (48 + n) else char_of (87 + n))"

fun hex_string :: "nat \<Rightarrow> string" where
  "hex_string n = (if n < 16 then [hex_char n] else hex_string (n div 16) @ [hex_char (n mod 16)])"

declare hex_string.simps [simp del]

fun ip_groups :: "bytes \<Rightarrow> nat list" where
  "ip_groups (hi # lo # r) = (unat hi * 256 + unat lo) # ip_groups r"
| "ip_groups _ = []"

definition string4 :: "bytes \<Rightarrow> string" where
  "string4 b = join_with ''.'' (map (\<lambda>x. itoa (unat x)) b)"

text \<open>The first longest run of at least two zero groups, as a half-open interval.\<close>

definition zero_run_step :: "nat list \<Rightarrow> nat \<times> nat \<Rightarrow> nat \<Rightarrow> nat \<times> nat" where
  "zero_run_step gs z i =
     (let l = length (takeWhile (\<lambda>g. g = 0) (drop i gs))
      in if 2 \<le> l \<and> snd z - fst z < l then (i, i + l) else z)"

definition zero_run :: "nat list \<Rightarrow> nat \<times> nat" where
  "zero_run gs = foldl (zero_run_step gs) (255, 255) [0..<8]"

function string6_loop :: "nat list \<Rightarrow> nat \<Rightarrow> nat \<Rightarrow> nat list \<Rightarrow> string" where
  "string6_loop gs zs ze [] = []"
| "string6_loop gs zs ze (i # is) =
     (if i = zs then
        ''::'' @ (if 8 \<le> ze then []
                  else hex_string (gs ! ze) @ string6_loop gs zs ze (dropWhile (\<lambda>j. j \<le> ze) is))
      else (if 0 < i then '':'' else []) @ hex_string (gs ! i) @ string6_loop gs zs ze is)"
  by pat_completeness auto

termination string6_loop
  by (relation "measure (\<lambda>(_, _, _, is). length is)") (auto simp: le_imp_less_Suc length_dropWhile_le)

definition string6 :: "bytes \<Rightarrow> string" where
  "string6 b =
     (let gs = ip_groups b; z = zero_run gs in string6_loop gs (fst z) (snd z) [0..<8])"

text \<open>\<^verbatim>\<open>IP.String\<close>; a slice of another length prints as \<^verbatim>\<open>?\<close> and its bytes.\<close>

definition ip_string :: "bytes \<Rightarrow> string" where
  "ip_string ip =
     (if ip = [] then ''<nil>''
      else if length ip \<noteq> 4 \<and> length ip \<noteq> 16
      then ''?'' @ concat (map (\<lambda>b. [hex_char (unat b div 16), hex_char (unat b mod 16)]) ip)
      else if To4 ip \<noteq> [] then string4 (To4 ip)
      else string6 ip)"

section \<open>Parsing\<close>

fun parse4_loop :: "nat \<Rightarrow> nat \<Rightarrow> bytes \<Rightarrow> string \<Rightarrow> bytes option" where
  "parse4_loop val digLen fs [] = (if length fs < 3 then None else Some (fs @ [of_nat val]))"
| "parse4_loop val digLen fs (c # cs) =
     (if is_digit c then
        (if digLen = 1 \<and> val = 0 then None
         else if 255 < val * 10 + digit_val c then None
         else parse4_loop (val * 10 + digit_val c) (Suc digLen) fs cs)
      else if c = CHR ''.'' then
        (if digLen = 0 \<or> cs = [] then None
         else if length fs = 3 then None
         else parse4_loop 0 0 (fs @ [of_nat val]) cs)
      else None)"

definition parseIPv4 :: "string \<Rightarrow> bytes option" where
  "parseIPv4 s = parse4_loop 0 0 [] s"

definition is_hex :: "char \<Rightarrow> bool" where
  "is_hex c \<longleftrightarrow> is_digit c \<or> 97 \<le> (of_char c::nat) \<and> (of_char c::nat) \<le> 102 \<or>
                65 \<le> (of_char c::nat) \<and> (of_char c::nat) \<le> 70"

definition hex_val :: "char \<Rightarrow> nat" where
  "hex_val c =
     (if is_digit c then of_char c - 48 else if 97 \<le> (of_char c::nat) then of_char c - 87
      else of_char c - 55)"

definition hex_num :: "string \<Rightarrow> nat" where
  "hex_num s = foldl (\<lambda>a c. a * 16 + hex_val c) 0 s"

definition group_bytes :: "nat \<Rightarrow> bytes" where
  "group_bytes v = [of_nat (v div 256), of_nat v]"

text \<open>
  The loop of \<^verbatim>\<open>parseIPv6\<close>: the bytes read so far, the position of the ellipsis, and the
  text that is left; the result is these three when the loop ends.
\<close>

function parse6_loop ::
    "bytes \<Rightarrow> nat option \<Rightarrow> string \<Rightarrow> (bytes \<times> nat option \<times> string) option" where
  "parse6_loop ip ell s =
     (if 16 \<le> length ip then Some (ip, ell, s)
      else
        let ds = takeWhile is_hex s; rest = dropWhile is_hex s in
        if ds = [] \<or> 4 < length ds then None
        else
          case rest of
            [] \<Rightarrow> Some (ip @ group_bytes (hex_num ds), ell, [])
          | c # r \<Rightarrow>
              if c = CHR ''.'' then
                (if ell = None \<and> length ip \<noteq> 12 then None
                 else if 16 < length ip + 4 then None
                 else case parseIPv4 s of None \<Rightarrow> None | Some f \<Rightarrow> Some (ip @ f, ell, []))
              else if c \<noteq> CHR '':'' then None
              else
                case r of
                  [] \<Rightarrow> None
                | d # r2 \<Rightarrow>
                    if d = CHR '':'' then
                      (if ell \<noteq> None then None
                       else if r2 = []
                       then Some (ip @ group_bytes (hex_num ds), Some (length ip + 2), [])
                       else parse6_loop (ip @ group_bytes (hex_num ds)) (Some (length ip + 2)) r2)
                    else parse6_loop (ip @ group_bytes (hex_num ds)) ell r)"
  by pat_completeness auto

termination parse6_loop
  by (relation "measure (\<lambda>(ip, _, _). 16 - length ip)") (auto simp: group_bytes_def)

declare parse6_loop.simps [simp del]

text \<open>What follows the loop: no text may be left, and the ellipsis is expanded.\<close>

definition parse6_finish :: "bytes \<times> nat option \<times> string \<Rightarrow> bytes option" where
  "parse6_finish st =
     (case st of (ip, ell, s) \<Rightarrow>
        if s \<noteq> [] then None
        else if length ip < 16 then
          (case ell of
             None \<Rightarrow> None
           | Some k \<Rightarrow> Some (take k ip @ replicate (16 - length ip) 0 @ drop k ip))
        else if ell \<noteq> None then None
        else Some ip)"

text \<open>An address with a zone parses, but \<^verbatim>\<open>ParseIP\<close> and \<^verbatim>\<open>ParseCIDR\<close> reject it.\<close>

definition parseIPv6 :: "string \<Rightarrow> bytes option" where
  "parseIPv6 s =
     (if CHR ''%'' \<in> set s then None
      else if has_prefix s ''::'' then
        (if drop 2 s = [] then Some (replicate 16 0)
         else Option.bind (parse6_loop [] (Some 0) (drop 2 s)) parse6_finish)
      else Option.bind (parse6_loop [] None s) parse6_finish)"

text \<open>\<^verbatim>\<open>netip.ParseAddr\<close>: the first dot, colon or percent sign decides.\<close>

datatype addr_text = Text4 bytes | Text6 bytes

fun parseAddr_scan :: "string \<Rightarrow> string \<Rightarrow> addr_text option" where
  "parseAddr_scan s [] = None"
| "parseAddr_scan s (c # cs) =
     (if c = CHR ''.'' then map_option Text4 (parseIPv4 s)
      else if c = CHR '':'' then map_option Text6 (parseIPv6 s)
      else if c = CHR ''%'' then None
      else parseAddr_scan s cs)"

definition parseAddr :: "string \<Rightarrow> addr_text option" where
  "parseAddr s = parseAddr_scan s s"

primrec as16 :: "addr_text \<Rightarrow> bytes" where
  "as16 (Text4 b) = v4InV6Prefix @ b"
| "as16 (Text6 b) = b"

primrec bit_len :: "addr_text \<Rightarrow> nat" where
  "bit_len (Text4 b) = 32"
| "bit_len (Text6 b) = 128"

text \<open>\<^verbatim>\<open>net.ParseIP\<close>: the 16-byte form, or nil.\<close>

definition ParseIP :: "string \<Rightarrow> bytes" where
  "ParseIP s = (case parseAddr s of None \<Rightarrow> [] | Some a \<Rightarrow> as16 a)"

section \<open>Host and port\<close>

definition SplitHostPort :: "string \<Rightarrow> err + string \<times> string" where
  "SplitHostPort hp =
     (case last_index_byte CHR '':'' hp of
        None \<Rightarrow> Inl (Fmt ''address %s: missing port in address'' [hp])
      | Some i \<Rightarrow>
          if hd hp = CHR ''['' then
            (case index_byte CHR '']'' hp of
               None \<Rightarrow> Inl (Fmt ''address %s: missing ']' in address'' [hp])
             | Some e \<Rightarrow>
                 if e + 1 = length hp then Inl (Fmt ''address %s: missing port in address'' [hp])
                 else if e + 1 \<noteq> i then
                   (if hp ! (e + 1) = CHR '':''
                    then Inl (Fmt ''address %s: too many colons in address'' [hp])
                    else Inl (Fmt ''address %s: missing port in address'' [hp]))
                 else if CHR ''['' \<in> set (drop 1 hp)
                 then Inl (Fmt ''address %s: unexpected '[' in address'' [hp])
                 else if CHR '']'' \<in> set (drop (e + 1) hp)
                 then Inl (Fmt ''address %s: unexpected ']' in address'' [hp])
                 else Inr (drop 1 (take e hp), drop (i + 1) hp))
          else if CHR '':'' \<in> set (take i hp)
          then Inl (Fmt ''address %s: too many colons in address'' [hp])
          else if CHR ''['' \<in> set hp then Inl (Fmt ''address %s: unexpected '[' in address'' [hp])
          else if CHR '']'' \<in> set hp then Inl (Fmt ''address %s: unexpected ']' in address'' [hp])
          else Inr (take i hp, drop (i + 1) hp))"

definition JoinHostPort :: "string \<Rightarrow> string \<Rightarrow> string" where
  "JoinHostPort host port =
     (if CHR '':'' \<in> set host then ''['' @ host @ '']:'' @ port else host @ '':'' @ port)"

section \<open>CIDR networks\<close>

record ipnet =
  net_IP :: bytes
  net_Mask :: bytes

text \<open>\<^verbatim>\<open>net.CIDRMask\<close>: one byte per step, full bytes first.\<close>

fun mask_bytes :: "nat \<Rightarrow> nat \<Rightarrow> bytes" where
  "mask_bytes ones 0 = []"
| "mask_bytes ones (Suc n) =
     (if 8 \<le> ones then 255 # mask_bytes (ones - 8) n
      else of_nat (256 - 2 ^ (8 - ones)) # mask_bytes 0 n)"

definition CIDRMask :: "nat \<Rightarrow> nat \<Rightarrow> bytes" where
  "CIDRMask ones bits = mask_bytes ones (bits div 8)"

text \<open>\<^verbatim>\<open>IPMask.Size\<close> on a mask of one-bits followed by zero-bits; \<open>(0, 0)\<close> otherwise.\<close>

definition mask_size :: "bytes \<Rightarrow> nat \<times> nat" where
  "mask_size m =
     (case find (\<lambda>n. mask_bytes n (length m) = m) [0..<8 * length m + 1] of
        None \<Rightarrow> (0, 0)
      | Some n \<Rightarrow> (n, 8 * length m))"

definition ip_mask :: "bytes \<Rightarrow> bytes \<Rightarrow> bytes" where
  "ip_mask ip m =
     (let m' = (if length m = 16 \<and> length ip = 4 \<and> (\<forall>b \<in> set (take 12 m). b = 255) then drop 12 m else m);
          ip' = (if length m' = 4 \<and> length ip = 16 \<and> take 12 ip = v4InV6Prefix then drop 12 ip else ip)
      in if length ip' \<noteq> length m' then [] else map2 (\<lambda>a b. and a b) ip' m')"

text \<open>The decimal reader \<^verbatim>\<open>dtoi\<close>, which must consume the whole text here.\<close>

fun dtoi_loop :: "nat \<Rightarrow> string \<Rightarrow> nat option" where
  "dtoi_loop n [] = Some n"
| "dtoi_loop n (c # cs) =
     (if is_digit c \<and> n * 10 + digit_val c < 16777215 then dtoi_loop (n * 10 + digit_val c) cs else None)"

definition ParseCIDR :: "string \<Rightarrow> err + bytes \<times> ipnet" where
  "ParseCIDR s =
     (case cut_byte CHR ''/'' s of (addr, m, found) \<Rightarrow>
        case (if found then parseAddr addr else None) of
          None \<Rightarrow> Inl (Fmt ''invalid CIDR address: %s'' [s])
        | Some a \<Rightarrow>
            case (if m = [] then None else dtoi_loop 0 m) of
              None \<Rightarrow> Inl (Fmt ''invalid CIDR address: %s'' [s])
            | Some n \<Rightarrow>
                if bit_len a < n then Inl (Fmt ''invalid CIDR address: %s'' [s])
                else Inr (as16 a,
                       \<lparr>net_IP = ip_mask (as16 a) (CIDRMask n (bit_len a)),
                        net_Mask = CIDRMask n (bit_len a)\<rparr>))"

definition network_number_and_mask :: "ipnet \<Rightarrow> bytes \<times> bytes" where
  "network_number_and_mask n =
     (let ip = (if To4 (net_IP n) \<noteq> [] then To4 (net_IP n) else net_IP n) in
      if length ip \<noteq> 4 \<and> length ip \<noteq> 16 then ([], [])
      else if length (net_Mask n) = 4 then (if length ip \<noteq> 4 then ([], []) else (ip, net_Mask n))
      else if length (net_Mask n) = 16
      then (ip, if length ip = 4 then drop 12 (net_Mask n) else net_Mask n)
      else ([], []))"

text \<open>\<^verbatim>\<open>IPNet.Contains\<close>.\<close>

definition Contains :: "ipnet \<Rightarrow> bytes \<Rightarrow> bool" where
  "Contains n ip =
     (let (nn, m) = network_number_and_mask n; x = (if To4 ip \<noteq> [] then To4 ip else ip) in
      length x = length nn \<and>
      (\<forall>i \<in> set [0..<length x]. and (nn ! i) (m ! i) = and (x ! i) (m ! i)))"

section \<open>Lemmas: shapes and lengths\<close>

lemma v4prefix_length [simp]: "length v4InV6Prefix = 12"
  by (simp add: v4InV6Prefix_def)

lemma To4_length: "length (To4 ip) = 4 \<or> To4 ip = []"
  by (auto simp: To4_def)

lemma To4_v4 [simp]: "length b = 4 \<Longrightarrow> To4 b = b" "length b = 4 \<Longrightarrow> To4 (v4InV6Prefix @ b) = b"
  by (auto simp: To4_def)

lemma To4_16_E:
  assumes "length ip = 16" "To4 ip \<noteq> []"
  shows "ip = v4InV6Prefix @ To4 ip" "length (To4 ip) = 4"
  using assms by (auto simp: To4_def split: if_splits) (metis append_take_drop_id)+

lemma To16_length: "length ip = 4 \<or> length ip = 16 \<Longrightarrow> length (To16 ip) = 16"
  by (auto simp: To16_def)

lemma parse4_loop_length: "parse4_loop v d fs s = Some b \<Longrightarrow> length fs \<le> 3 \<Longrightarrow> length b = 4"
  by (induction v d fs s rule: parse4_loop.induct) (auto split: if_splits)

lemma parseIPv4_length: "parseIPv4 s = Some b \<Longrightarrow> length b = 4"
  by (auto simp: parseIPv4_def intro: parse4_loop_length)

lemma group_bytes_length [simp]: "length (group_bytes v) = 2"
  by (simp add: group_bytes_def)

lemma parse6_loop_SomeD:
  assumes "parse6_loop ip ell s = Some r" "length ip < 16"
  shows "(\<exists>v. r = (ip @ group_bytes v, ell, [])) \<or>
    (\<exists>f. length ip + 4 \<le> 16 \<and> length f = 4 \<and> r = (ip @ f, ell, [])) \<or>
    (\<exists>v. r = (ip @ group_bytes v, Some (length ip + 2), [])) \<or>
    (\<exists>v t. parse6_loop (ip @ group_bytes v) (Some (length ip + 2)) t = Some r) \<or>
    (\<exists>v t. parse6_loop (ip @ group_bytes v) ell t = Some r)"
  using assms
  by (subst (asm) parse6_loop.simps)
    (auto simp: Let_def dest!: parseIPv4_length split: if_splits list.splits option.splits)

lemma parse6_loop_length:
  "parse6_loop ip ell s = Some (ip', ell', s') \<Longrightarrow> even (length ip) \<Longrightarrow> length ip \<le> 16 \<Longrightarrow>
     pred_option (\<lambda>k. k \<le> length ip) ell \<Longrightarrow>
     length ip' \<le> 16 \<and> pred_option (\<lambda>k. k \<le> length ip') ell'"
proof (induction "16 - length ip" arbitrary: ip ell s rule: less_induct)
  case less
  show ?case
  proof (cases "length ip < 16")
    case False
    with less.prems show ?thesis by (simp add: parse6_loop.simps [of ip ell s])
  next
    case True
    with less.prems(2) have le: "length ip + 2 \<le> 16" by presburger
    have mono: "pred_option (\<lambda>k. k \<le> length ip + m) ell" for m
      using less.prems(4) by (cases ell) auto
    have IH: "length ip' \<le> 16 \<and> pred_option (\<lambda>k. k \<le> length ip') ell'"
      if "parse6_loop (ip @ group_bytes v) e t = Some (ip', ell', s')"
        "pred_option (\<lambda>k. k \<le> length ip + 2) e" for v e t
      using that le less.prems(2) True
      by (intro less.hyps [of "ip @ group_bytes v" e t]) auto
    from parse6_loop_SomeD [OF less.prems(1) True] show ?thesis
      using le mono [of 2] mono [of 4] IH by auto
  qed
qed

lemma parse6_finish_length:
  assumes "parse6_finish (ip, ell, s) = Some b" "length ip \<le> 16" "pred_option (\<lambda>k. k \<le> length ip) ell"
  shows "length b = 16"
  using assms by (auto simp: parse6_finish_def split: if_splits option.splits)

lemma parseIPv6_length:
  assumes "parseIPv6 s = Some b"
  shows "length b = 16"
proof -
  have "length b = 16" if "parse6_loop [] ell t = Some st" "parse6_finish st = Some b"
    "pred_option (\<lambda>k. k = 0) ell" for ell t st
    using that parse6_loop_length [of "[]" ell t] parse6_finish_length by (cases st; cases ell) fastforce+
  with assms show ?thesis
    by (auto simp: parseIPv6_def Option.bind_eq_Some_conv split: if_splits)
qed

lemma parseAddr_scan_as16: "parseAddr_scan s cs = Some a \<Longrightarrow> length (as16 a) = 16"
  by (induction cs) (auto dest: parseIPv4_length parseIPv6_length split: if_splits)

lemma ParseIP_length: "ParseIP s = [] \<or> length (ParseIP s) = 16"
  by (auto simp: ParseIP_def parseAddr_def dest: parseAddr_scan_as16 split: option.splits)

section \<open>Lemmas: host and port round trip\<close>

lemma SplitHostPort_JoinHostPort:
  assumes "CHR ''['' \<notin> set h" "CHR '']'' \<notin> set h"
    and "CHR '':'' \<notin> set p" "CHR ''['' \<notin> set p" "CHR '']'' \<notin> set p"
  shows "SplitHostPort (JoinHostPort h p) = Inr (h, p)"
proof (cases "CHR '':'' \<in> set h")
  case True
  have hp: "JoinHostPort h p = (CHR ''['' # h @ [CHR '']'']) @ CHR '':'' # p"
    using True by (simp add: JoinHostPort_def)
  have li: "last_index_byte CHR '':'' (JoinHostPort h p) = Some (length h + 2)"
    unfolding hp using assms by (subst last_index_byte_last) auto
  have "JoinHostPort h p = (CHR ''['' # h) @ CHR '']'' # CHR '':'' # p"
    using True by (simp add: JoinHostPort_def)
  then have ix: "index_byte CHR '']'' (JoinHostPort h p) = Some (length h + 1)"
    using assms index_byte_first [of "CHR '']''" "CHR ''['' # h" "CHR '':'' # p"] by simp
  show ?thesis
    unfolding SplitHostPort_def li ix option.case using assms True
    by (auto simp: JoinHostPort_def)
next
  case False
  have hp: "JoinHostPort h p = h @ CHR '':'' # p"
    using False by (simp add: JoinHostPort_def)
  have li: "last_index_byte CHR '':'' (JoinHostPort h p) = Some (length h)"
    unfolding hp using assms by (subst last_index_byte_last) auto
  have hd: "hd (JoinHostPort h p) \<noteq> CHR ''[''"
    using assms unfolding hp by (cases h) auto
  show ?thesis
    unfolding SplitHostPort_def li option.case using assms hd False
    by (auto simp: hp)
qed

section \<open>Lemmas: printing and parsing IPv4\<close>

lemma itoa_byte_cases:
  assumes "n < 256"
  shows "(n < 10 \<and> itoa n = [digit_char n]) \<or>
    (10 \<le> n \<and> n < 100 \<and> itoa n = [digit_char (n div 10), digit_char (n mod 10)]) \<or>
    (100 \<le> n \<and> itoa n = [digit_char (n div 10 div 10), digit_char (n div 10 mod 10), digit_char (n mod 10)])"
proof -
  consider "n < 10" | "10 \<le> n" "n < 100" | "100 \<le> n" by linarith
  then show ?thesis
  proof cases
    case 1
    then show ?thesis by (simp add: itoa.simps)
  next
    case 2
    then have "n div 10 < 10" by simp
    with 2 show ?thesis by (simp add: itoa.simps [of n] itoa.simps [of "n div 10"])
  next
    case 3
    with assms have "n div 10 div 10 < 10" "\<not> n div 10 < 10" "\<not> n < 10" by auto
    then have "itoa n = [digit_char (n div 10 div 10), digit_char (n div 10 mod 10), digit_char (n mod 10)]"
      by (simp add: itoa.simps [of n] itoa.simps [of "n div 10"] itoa.simps [of "n div 10 div 10"])
    with 3 show ?thesis by blast
  qed
qed

lemma parse4_loop_itoa:
  assumes "n < 256"
  shows "\<exists>d > 0. parse4_loop 0 0 fs (itoa n @ cs) = parse4_loop n d fs cs"
  using itoa_byte_cases [OF assms]
proof (elim disjE conjE)
  assume n: "100 \<le> n"
    and eq: "itoa n = [digit_char (n div 10 div 10), digit_char (n div 10 mod 10), digit_char (n mod 10)]"
  have "n div 10 div 10 * 10 + n div 10 mod 10 = n div 10" by simp
  moreover have "n div 10 div 10 < 10" "n div 10 div 10 \<noteq> 0" "n div 10 \<le> 255"
    using n assms by auto
  ultimately show ?thesis
    using n assms by (intro exI [of _ "Suc (Suc (Suc 0))"]) (simp add: eq)
next
  assume n: "10 \<le> n" "n < 100" and eq: "itoa n = [digit_char (n div 10), digit_char (n mod 10)]"
  then have "n div 10 < 10" "n div 10 \<noteq> 0" by auto
  then show ?thesis
    using n assms by (intro exI [of _ "Suc (Suc 0)"]) (simp add: eq)
next
  assume n: "n < 10" and eq: "itoa n = [digit_char n]"
  then show ?thesis by (intro exI [of _ 1]) (simp add: eq)
qed

lemma parse4_loop_field:
  assumes "n < 256" "length fs < 3" "cs \<noteq> []"
  shows "parse4_loop 0 0 fs (itoa n @ CHR ''.'' # cs) = parse4_loop 0 0 (fs @ [of_nat n]) cs"
proof -
  obtain d where "d > 0" "parse4_loop 0 0 fs (itoa n @ CHR ''.'' # cs) = parse4_loop n d fs (CHR ''.'' # cs)"
    using parse4_loop_itoa [OF assms(1)] by blast
  with assms show ?thesis by (simp add: is_digit_def)
qed

lemma parse4_loop_last:
  assumes "n < 256" "length fs = 3"
  shows "parse4_loop 0 0 fs (itoa n) = Some (fs @ [of_nat n])"
  using parse4_loop_itoa [OF assms(1), of fs "[]"] assms(2) by auto

lemma unat_byte_bound [simp]: "unat (b :: byte) < 256"
  using unsigned_less [of b, where ?'a = nat] by simp

lemma length_4E:
  assumes "length b = 4"
  obtains x y z w where "b = [x, y, z, w]"
  using assms by (auto simp: eval_nat_numeral length_Suc_conv)

lemma parseIPv4_string4: "length b = 4 \<Longrightarrow> parseIPv4 (string4 b) = Some b"
  by (erule length_4E) (simp add: parseIPv4_def string4_def parse4_loop_field parse4_loop_last)

lemma set_join_with: "set (join_with sep xs) \<subseteq> set sep \<union> (\<Union>x \<in> set xs. set x)"
  by (induction sep xs rule: join_with.induct) auto

lemma string4_chars: "c \<in> set (string4 b) \<Longrightarrow> is_digit c \<or> c = CHR ''.''"
  unfolding string4_def using set_join_with [of "''.''" "map (\<lambda>x. itoa (unat x)) b"] itoa_digits
  by fastforce

lemma parseAddr_scan_skip:
  "\<forall>c \<in> set xs. c \<noteq> CHR ''.'' \<and> c \<noteq> CHR '':'' \<and> c \<noteq> CHR ''%'' \<Longrightarrow>
     parseAddr_scan s (xs @ ys) = parseAddr_scan s ys"
  by (induction xs) auto

lemma parseAddr_string4:
  assumes "length b = 4"
  shows "parseAddr (string4 b) = Some (Text4 b)"
proof -
  from assms obtain x y z w where b: "b = [x, y, z, w]" by (rule length_4E)
  define t where "t = itoa (unat y) @ ''.'' @ itoa (unat z) @ ''.'' @ itoa (unat w)"
  have s: "string4 b = itoa (unat x) @ CHR ''.'' # t"
    by (simp add: b string4_def t_def)
  have "parseAddr_scan (string4 b) (itoa (unat x) @ CHR ''.'' # t)
        = parseAddr_scan (string4 b) (CHR ''.'' # t)"
    by (rule parseAddr_scan_skip) (use itoa_digits is_digit_not_special in blast)
  then show ?thesis
    unfolding parseAddr_def using parseIPv4_string4 [OF assms] by (subst (2) s) simp
qed

section \<open>Lemmas: printing and parsing IPv6\<close>

abbreviation colon_join :: "string list \<Rightarrow> string" where
  "colon_join \<equiv> join_with '':''"

definition groups_bytes :: "nat list \<Rightarrow> bytes" where
  "groups_bytes gs = concat (map group_bytes gs)"

lemma hex_char_props:
  "n < 16 \<Longrightarrow> is_hex (hex_char n)" "n < 16 \<Longrightarrow> hex_val (hex_char n) = n"
  by (auto simp: is_hex_def hex_char_def hex_val_def is_digit_def)

lemma is_hex_not_special:
  "is_hex c \<Longrightarrow> c \<noteq> CHR '':''" "is_hex c \<Longrightarrow> c \<noteq> CHR ''.''" "is_hex c \<Longrightarrow> c \<noteq> CHR ''%''"
  "is_hex c \<Longrightarrow> c \<noteq> CHR ''[''" "is_hex c \<Longrightarrow> c \<noteq> CHR '']''" "is_hex c \<Longrightarrow> c \<noteq> CHR ''/''"
  by (auto simp: is_hex_def is_digit_def)

lemma hex_string_nonempty [simp]: "hex_string n \<noteq> []"
  by (subst hex_string.simps) simp

lemma hex_string_hex: "c \<in> set (hex_string n) \<Longrightarrow> is_hex c"
proof (induction n rule: hex_string.induct)
  case (1 n)
  then show ?case
    by (cases "n < 16") (auto simp: hex_string.simps [of n] hex_char_props)
qed

lemma hex_string_num: "hex_num (hex_string n) = n"
proof (induction n rule: hex_string.induct)
  case (1 n)
  then show ?case
    by (cases "n < 16") (auto simp: hex_string.simps [of n] hex_num_def hex_char_props)
qed

lemma hex_string_length: "n < 16 ^ k \<Longrightarrow> 0 < k \<Longrightarrow> length (hex_string n) \<le> k"
proof (induction k arbitrary: n)
  case (Suc k)
  show ?case
  proof (cases "n < 16")
    case False
    with Suc.prems have "0 < k" "n div 16 < 16 ^ k"
      by (cases k; auto)+
    with Suc.IH False show ?thesis by (simp add: hex_string.simps [of n])
  qed (simp add: hex_string.simps)
qed simp

lemma hex_string_token:
  assumes "v < 65536" "rest = [] \<or> \<not> is_hex (hd rest)"
  shows "takeWhile is_hex (hex_string v @ rest) = hex_string v"
    "dropWhile is_hex (hex_string v @ rest) = rest" "length (hex_string v) \<le> 4"
proof -
  show "length (hex_string v) \<le> 4"
    using hex_string_length [of v 4] assms(1) by simp
  show "takeWhile is_hex (hex_string v @ rest) = hex_string v"
    "dropWhile is_hex (hex_string v @ rest) = rest"
    using assms(2) by (cases rest; simp add: list_cut hex_string_hex)+
qed

lemma colon_join_Cons: "gs \<noteq> [] \<Longrightarrow> colon_join (g # gs) = g @ CHR '':'' # colon_join gs"
  by (cases gs) auto

lemma colon_join_hex_Cons:
  assumes "gs \<noteq> []"
  obtains c cs where "colon_join (map hex_string gs) = c # cs" "is_hex c"
proof -
  from assms obtain g gs' where gs: "gs = g # gs'" by (cases gs) auto
  obtain c cs where c: "hex_string g = c # cs"
    by (metis hex_string_nonempty list.exhaust)
  then have "is_hex c" by (metis hex_string_hex list.set_intros(1))
  with c that show thesis by (cases gs'; auto simp: gs)
qed

lemma not_hex_colon [simp]: "\<not> is_hex CHR '':''"
  by (simp add: is_hex_def is_digit_def)

lemma parse6_loop_group_end:
  assumes "v < 65536" "length ip < 16"
  shows "parse6_loop ip ell (hex_string v) = Some (ip @ group_bytes v, ell, [])"
proof -
  have tok: "takeWhile is_hex (hex_string v) = hex_string v" "dropWhile is_hex (hex_string v) = []"
    "length (hex_string v) \<le> 4"
    using hex_string_token [OF assms(1), of "[]"] by (simp_all only: append_Nil2 simp_thms)
  show ?thesis
    unfolding parse6_loop.simps [of ip ell "hex_string v"] Let_def tok(1,2)
    using assms tok(3) by (simp add: hex_string_num)
qed

lemma parse6_loop_group_next:
  assumes "v < 65536" "length ip < 16" "c \<noteq> CHR '':''"
  shows "parse6_loop ip ell (hex_string v @ CHR '':'' # c # cs) = parse6_loop (ip @ group_bytes v) ell (c # cs)"
proof -
  note tok = hex_string_token [OF assms(1), of "CHR '':'' # c # cs"]
  show ?thesis
    unfolding parse6_loop.simps [of ip ell "hex_string v @ CHR '':'' # c # cs"] Let_def
    using assms tok by (simp add: hex_string_num)
qed

lemma parse6_loop_group_ellipsis:
  assumes "v < 65536" "length ip < 16"
  shows "parse6_loop ip None (hex_string v @ ''::'' @ post) =
    (if post = [] then Some (ip @ group_bytes v, Some (length ip + 2), [])
     else parse6_loop (ip @ group_bytes v) (Some (length ip + 2)) post)"
proof -
  note tok = hex_string_token [OF assms(1), of "''::'' @ post"]
  show ?thesis
    unfolding parse6_loop.simps [of ip None "hex_string v @ ''::'' @ post"] Let_def
    using assms tok by (cases "post = []") (simp_all add: hex_string_num)
qed

lemma parse6_loop_groups:
  "gs \<noteq> [] \<Longrightarrow> \<forall>v \<in> set gs. v < 65536 \<Longrightarrow> length ip + 2 * length gs \<le> 16 \<Longrightarrow>
     parse6_loop ip ell (colon_join (map hex_string gs)) = Some (ip @ groups_bytes gs, ell, [])"
proof (induction gs arbitrary: ip)
  case (Cons v gs)
  show ?case
  proof (cases "gs = []")
    case True
    with Cons.prems show ?thesis
      by (simp add: groups_bytes_def parse6_loop_group_end)
  next
    case False
    then obtain c cs where c: "colon_join (map hex_string gs) = c # cs" "is_hex c"
      by (rule colon_join_hex_Cons)
    then have "c \<noteq> CHR '':''" by (simp add: is_hex_not_special)
    with c False Cons show ?thesis
      by (simp add: groups_bytes_def colon_join_Cons parse6_loop_group_next)
  qed
qed simp

lemma parse6_loop_ellipsis:
  "gs \<noteq> [] \<Longrightarrow> \<forall>v \<in> set gs. v < 65536 \<Longrightarrow> length ip + 2 * length gs \<le> 16 \<Longrightarrow>
     parse6_loop ip None (colon_join (map hex_string gs) @ ''::'' @ post) =
       (if post = [] then Some (ip @ groups_bytes gs, Some (length ip + 2 * length gs), [])
        else parse6_loop (ip @ groups_bytes gs) (Some (length ip + 2 * length gs)) post)"
proof (induction gs arbitrary: ip)
  case (Cons v gs)
  show ?case
  proof (cases "gs = []")
    case True
    with Cons.prems show ?thesis
      using parse6_loop_group_ellipsis [of v ip post] by (simp add: groups_bytes_def)
  next
    case False
    then obtain c cs where c: "colon_join (map hex_string gs) = c # cs" "is_hex c"
      by (rule colon_join_hex_Cons)
    then have "c \<noteq> CHR '':''" by (simp add: is_hex_not_special)
    with c False Cons show ?thesis
      by (simp add: groups_bytes_def colon_join_Cons parse6_loop_group_next)
  qed
qed simp

lemma groups_bytes_length [simp]: "length (groups_bytes gs) = 2 * length gs"
  by (induction gs) (auto simp: groups_bytes_def)

lemma groups_bytes_append: "groups_bytes (xs @ ys) = groups_bytes xs @ groups_bytes ys"
  by (simp add: groups_bytes_def)

lemma groups_bytes_zeros: "groups_bytes (replicate n 0) = replicate (2 * n) 0"
  by (induction n) (simp_all add: groups_bytes_def group_bytes_def)

lemma colon_join_no_percent: "CHR ''%'' \<notin> set (colon_join (map hex_string gs))"
  using set_join_with [of "'':''" "map hex_string gs"] hex_string_hex is_hex_not_special(3)
  by fastforce

lemma parseIPv6_full:
  assumes "length gs = 8" "\<forall>v \<in> set gs. v < 65536"
  shows "parseIPv6 (colon_join (map hex_string gs)) = Some (groups_bytes gs)"
proof -
  have ne: "gs \<noteq> []" using assms by auto
  then obtain c cs where c: "colon_join (map hex_string gs) = c # cs" "is_hex c"
    by (rule colon_join_hex_Cons)
  then have "\<not> has_prefix (colon_join (map hex_string gs)) ''::''"
    using is_hex_not_special(1) by (auto simp: has_prefix_def)
  with assms ne show ?thesis
    by (simp add: parseIPv6_def colon_join_no_percent parse6_loop_groups parse6_finish_def)
qed

lemma parseIPv6_compressed:
  assumes "length pre + length post \<le> 7" "\<forall>v \<in> set pre \<union> set post. v < 65536"
  shows "parseIPv6 (colon_join (map hex_string pre) @ ''::'' @ colon_join (map hex_string post))
    = Some (groups_bytes (pre @ replicate (8 - (length pre + length post)) 0 @ post))"
proof -
  let ?p = "colon_join (map hex_string pre)" and ?q = "colon_join (map hex_string post)"
  let ?k = "2 * length pre"
  have q: "?q = [] \<longleftrightarrow> post = []"
    by (metis colon_join_hex_Cons join_with.simps(1) list.simps(3) list.simps(8))
  have nopc: "CHR ''%'' \<notin> set (?p @ ''::'' @ ?q)"
    using colon_join_no_percent by simp
  have fin: "parse6_finish (groups_bytes (pre @ post), Some ?k, [])
      = Some (groups_bytes (pre @ replicate (8 - (length pre + length post)) 0 @ post))"
    using assms(1)
    by (simp add: parse6_finish_def groups_bytes_append groups_bytes_zeros diff_mult_distrib2)
  have tail: "parse6_loop (groups_bytes pre) (Some ?k) ?q = Some (groups_bytes (pre @ post), Some ?k, [])"
    if "post \<noteq> []"
    using parse6_loop_groups [OF that, of "groups_bytes pre" "Some ?k"] assms
    by (simp add: groups_bytes_append)
  show ?thesis
  proof (cases "pre = []")
    case True
    then show ?thesis
      using nopc fin tail q assms
      by (cases "post = []")
        (auto simp: parseIPv6_def has_prefix_def groups_bytes_def groups_bytes_zeros
          parse6_finish_def group_bytes_def)
  next
    case False
    then obtain c cs where c: "?p = c # cs" "is_hex c"
      by (rule colon_join_hex_Cons)
    then have "\<not> has_prefix (?p @ ''::'' @ ?q) ''::''"
      using is_hex_not_special(1) by (auto simp: has_prefix_def)
    moreover have "parse6_loop [] None (?p @ ''::'' @ ?q) = Some (groups_bytes (pre @ post), Some ?k, [])"
      using parse6_loop_ellipsis [OF False, of "[]" ?q] q tail assms
      by (cases "post = []") auto
    ultimately show ?thesis
      using nopc fin by (simp add: parseIPv6_def)
  qed
qed

lemma length_takeWhile_zero_nth:
  "k < length (takeWhile (\<lambda>g. g = (0::nat)) xs) \<Longrightarrow> xs ! k = 0"
  by (metis (mono_tags, lifting) nth_mem set_takeWhileD takeWhile_nth)

definition is_zero_run :: "nat list \<Rightarrow> nat \<times> nat \<Rightarrow> bool" where
  "is_zero_run gs z \<longleftrightarrow> fst z + 2 \<le> snd z \<and> snd z \<le> length gs \<and>
     (\<forall>k. fst z \<le> k \<longrightarrow> k < snd z \<longrightarrow> gs ! k = 0)"

lemma zero_run_step_inv:
  assumes "z = (255, 255) \<or> is_zero_run gs z" "i \<le> length gs"
  shows "zero_run_step gs z i = (255, 255) \<or> is_zero_run gs (zero_run_step gs z i)"
proof -
  let ?l = "length (takeWhile (\<lambda>g. g = 0) (drop i gs))"
  have "?l \<le> length gs - i"
    by (metis length_drop length_takeWhile_le)
  moreover have "gs ! k = 0" if "i \<le> k" "k < i + ?l" for k
    using length_takeWhile_zero_nth [of "k - i" "drop i gs"] that assms(2) by auto
  ultimately show ?thesis
    using assms by (auto simp: zero_run_step_def Let_def is_zero_run_def)
qed

lemma zero_run_inv:
  assumes "length gs = 8"
  shows "zero_run gs = (255, 255) \<or> is_zero_run gs (zero_run gs)"
proof -
  have "foldl (zero_run_step gs) z is = (255, 255) \<or> is_zero_run gs (foldl (zero_run_step gs) z is)"
    if "z = (255, 255) \<or> is_zero_run gs z" "\<forall>i \<in> set is. i \<le> 8" for z "is"
    using that
  proof (induction "is" arbitrary: z)
    case (Cons i "is")
    from zero_run_step_inv [OF Cons.prems(1), of i] Cons.prems(2) assms
    have "zero_run_step gs z i = (255, 255) \<or> is_zero_run gs (zero_run_step gs z i)" by simp
    from Cons.IH [OF this] Cons.prems(2) show ?case by simp
  qed simp
  then show ?thesis
    unfolding zero_run_def by simp
qed

lemma length_8E:
  assumes "length gs = 8"
  obtains a b c d e f g h where "gs = [a, b, c, d, e, f, g, h]"
  using assms by (auto simp: eval_nat_numeral length_Suc_conv)

lemma upt_0_8: "[0..<8] = [0, 1, 2, 3, 4, 5, 6, 7::nat]"
  by (simp add: upt_rec)

lemma string6_loop_full:
  assumes "length gs = 8"
  shows "string6_loop gs 255 255 [0..<8] = colon_join (map hex_string gs)"
  using assms by (rule length_8E) (simp add: upt_0_8)

lemma string6_loop_compressed:
  assumes "length gs = 8" "zs + 2 \<le> ze" "ze \<le> 8"
  shows "string6_loop gs zs ze [0..<8] =
    colon_join (map hex_string (take zs gs)) @ ''::'' @ colon_join (map hex_string (drop ze gs))"
proof -
  from assms(1) obtain a b c d e f g h where gs: "gs = [a, b, c, d, e, f, g, h]"
    by (rule length_8E)
  from assms(2,3) consider "zs = 0" | "zs = 1" | "zs = 2" | "zs = 3" | "zs = 4" | "zs = 5" | "zs = 6"
    by linarith
  note zs = this
  from assms(2,3) consider "ze = 2" | "ze = 3" | "ze = 4" | "ze = 5" | "ze = 6" | "ze = 7" | "ze = 8"
    by linarith
  then show ?thesis
    by cases (use zs assms(2) in \<open>cases; simp add: gs upt_0_8\<close>)+
qed

lemma ip_groups_bound: "v \<in> set (ip_groups b) \<Longrightarrow> v < 65536"
proof (induction b rule: ip_groups.induct)
  case (1 hi lo r)
  have "unat hi * 256 + unat lo < 65536"
    using unat_byte_bound [of hi] unat_byte_bound [of lo] by linarith
  with 1 show ?case by auto
qed auto

lemma groups_bytes_ip_groups: "even (length b) \<Longrightarrow> groups_bytes (ip_groups b) = b"
proof (induction b rule: ip_groups.induct)
  case (1 hi lo r)
  moreover have "hi * 256 = hi * 0"
    by (rule arg_cong [where f = "(*) hi"]) simp
  ultimately show ?case by (simp add: groups_bytes_def group_bytes_def)
qed (simp_all add: groups_bytes_def)

lemma ip_groups_length: "length (ip_groups b) = length b div 2"
  by (induction b rule: ip_groups.induct) auto

lemma zero_run_replace:
  assumes "is_zero_run gs (zs, ze)"
  shows "take zs gs @ replicate (ze - zs) 0 @ drop ze gs = gs"
proof (rule nth_equalityI)
  show "length (take zs gs @ replicate (ze - zs) 0 @ drop ze gs) = length gs"
    using assms by (auto simp: is_zero_run_def)
  fix i assume "i < length (take zs gs @ replicate (ze - zs) 0 @ drop ze gs)"
  with assms show "(take zs gs @ replicate (ze - zs) 0 @ drop ze gs) ! i = gs ! i"
    by (auto simp: is_zero_run_def nth_append)
qed

lemma string6_shape:
  assumes "length b = 16"
  obtains (full) gs where "string6 b = colon_join (map hex_string gs)" "length gs = 8"
      "\<forall>v \<in> set gs. v < 65536" "groups_bytes gs = b"
  | (compressed) pre post where
      "string6 b = colon_join (map hex_string pre) @ ''::'' @ colon_join (map hex_string post)"
      "length pre + length post \<le> 6" "\<forall>v \<in> set pre \<union> set post. v < 65536"
      "groups_bytes (pre @ replicate (8 - (length pre + length post)) 0 @ post) = b"
proof -
  define gs where "gs = ip_groups b"
  have len: "length gs = 8" using assms by (simp add: gs_def ip_groups_length)
  have bnd: "\<forall>v \<in> set gs. v < 65536" using ip_groups_bound by (simp add: gs_def)
  have inv: "groups_bytes gs = b" using assms by (simp add: gs_def groups_bytes_ip_groups)
  from zero_run_inv [OF len] show thesis
  proof
    assume "zero_run gs = (255, 255)"
    then have "string6 b = colon_join (map hex_string gs)"
      using string6_loop_full [OF len] by (simp add: string6_def gs_def Let_def)
    with len bnd inv full show thesis by blast
  next
    assume z: "is_zero_run gs (zero_run gs)"
    obtain zs ze where zr: "zero_run gs = (zs, ze)" by (cases "zero_run gs")
    from z zr len have b: "zs + 2 \<le> ze" "ze \<le> 8" by (auto simp: is_zero_run_def)
    have "string6 b = colon_join (map hex_string (take zs gs)) @ ''::'' @ colon_join (map hex_string (drop ze gs))"
      using string6_loop_compressed [OF len b] zr by (simp add: string6_def gs_def Let_def)
    moreover have "8 - (length (take zs gs) + length (drop ze gs)) = ze - zs"
      using b len by auto
    moreover have "\<forall>v \<in> set (take zs gs) \<union> set (drop ze gs). v < 65536"
      using bnd by (meson Un_iff in_set_dropD in_set_takeD)
    moreover have "length (take zs gs) + length (drop ze gs) \<le> 6"
      using b len by auto
    ultimately show thesis
      using zero_run_replace [of gs zs ze] z zr inv compressed by metis
  qed
qed

lemma parseIPv6_string6: "length b = 16 \<Longrightarrow> parseIPv6 (string6 b) = Some b"
proof (erule string6_shape)
  fix pre post
  assume "string6 b = colon_join (map hex_string pre) @ ''::'' @ colon_join (map hex_string post)"
    and len: "length pre + length post \<le> 6" and bnd: "\<forall>v \<in> set pre \<union> set post. v < 65536"
    and "groups_bytes (pre @ replicate (8 - (length pre + length post)) 0 @ post) = b"
  then show "parseIPv6 (string6 b) = Some b"
    using parseIPv6_compressed [OF _ bnd] by (metis le_SucI eval_nat_numeral(3))
qed (simp add: parseIPv6_full)

lemma string6_chars:
  assumes "length b = 16" "c \<in> set (string6 b)"
  shows "is_hex c \<or> c = CHR '':''"
proof -
  have cj: "is_hex c \<or> c = CHR '':''" if "c \<in> set (colon_join (map hex_string gs))" for gs
    using that set_join_with [of "'':''" "map hex_string gs"] hex_string_hex by fastforce
  from assms(1) show ?thesis
    by (rule string6_shape) (use assms(2) cj in auto)
qed

lemma string6_scan:
  assumes "length b = 16"
  obtains xs ys where "string6 b = xs @ CHR '':'' # ys" "\<forall>c \<in> set xs. is_hex c"
proof -
  have "CHR '':'' \<in> set (string6 b)"
    using assms
  proof (rule string6_shape)
    fix gs assume "string6 b = colon_join (map hex_string gs)" "length gs = 8"
    then show ?thesis by (auto elim!: length_8E)
  qed auto
  then obtain xs ys where "string6 b = xs @ CHR '':'' # ys" "CHR '':'' \<notin> set xs"
    by (meson split_list_first)
  with string6_chars [OF assms] that show thesis by (metis Un_iff set_append)
qed

lemma parseAddr_string6:
  assumes "length b = 16"
  shows "parseAddr (string6 b) = Some (Text6 b)"
proof -
  from assms obtain xs ys where s: "string6 b = xs @ CHR '':'' # ys" "\<forall>c \<in> set xs. is_hex c"
    by (rule string6_scan)
  have "parseAddr_scan (string6 b) (xs @ CHR '':'' # ys) = parseAddr_scan (string6 b) (CHR '':'' # ys)"
    by (rule parseAddr_scan_skip) (metis s(2) is_hex_not_special(1,2,3))
  then have "parseAddr (string6 b) = parseAddr_scan (string6 b) (CHR '':'' # ys)"
    by (simp only: parseAddr_def flip: s(1))
  also have "\<dots> = Some (Text6 b)"
    using parseIPv6_string6 [OF assms] by simp
  finally show ?thesis .
qed

section \<open>Lemmas: the text of an address\<close>

lemma ParseIP_ip_string: "length ip = 4 \<or> length ip = 16 \<Longrightarrow> ParseIP (ip_string ip) = To16 ip"
proof -
  assume len: "length ip = 4 \<or> length ip = 16"
  show ?thesis
  proof (cases "To4 ip = []")
    case True
    with len have "length ip = 16" by (auto simp: To4_def split: if_splits)
    with True show ?thesis
      by (auto simp: ip_string_def ParseIP_def parseAddr_string6 To16_def)
  next
    case False
    with len have l4: "length (To4 ip) = 4" using To4_length by blast
    then have "ParseIP (ip_string ip) = v4InV6Prefix @ To4 ip"
      using len False by (auto simp: ip_string_def ParseIP_def parseAddr_string4)
    also have "\<dots> = To16 ip"
      using len False To4_16_E(1) by (auto simp: To16_def)
    finally show ?thesis .
  qed
qed

lemma ip_string_ParseIP_idem:
  "ParseIP h \<noteq> [] \<Longrightarrow> ParseIP (ip_string (ParseIP h)) = ParseIP h"
  using ParseIP_length [of h] by (auto simp: ParseIP_ip_string To16_def)

lemma ip_string_chars:
  assumes "length ip = 4 \<or> length ip = 16" "c \<in> set (ip_string ip)"
  shows "is_hex c \<or> c = CHR '':'' \<or> c = CHR ''.''"
proof (cases "To4 ip = []")
  case True
  with assms(1) have "length ip = 16" by (auto simp: To4_def split: if_splits)
  with True assms(2) string6_chars show ?thesis
    by (auto simp: ip_string_def split: if_splits)
next
  case False
  with assms string4_chars show ?thesis
    by (auto simp: ip_string_def is_hex_def split: if_splits)
qed

lemma ip_string_no_brackets:
  assumes "length ip = 4 \<or> length ip = 16"
  shows "CHR ''['' \<notin> set (ip_string ip)" "CHR '']'' \<notin> set (ip_string ip)"
  using ip_string_chars [OF assms] is_hex_not_special by blast+

lemma split_ip_port:
  assumes "length ip = 4 \<or> length ip = 16"
  shows "SplitHostPort (JoinHostPort (ip_string ip) (itoa p)) = Inr (ip_string ip, itoa p)"
  using assms by (intro SplitHostPort_JoinHostPort ip_string_no_brackets) auto

end
