(* ===== verification/Connect.thy ===== *)
theory Connect
  imports NetAddr
begin

text \<open>
  \<^verbatim>\<open>src/connect.go\<close>: the \<^verbatim>\<open>Connector\<close> interface, the address mapper behind
  \<^verbatim>\<open>-L\<close>, the NAT64 translation and the connector that picks the route of every
  destination the container dials.

  A connector is the function its \<^verbatim>\<open>DialContext\<close> is: from a context, a network and an
  address to an action on the world \<open>'w\<close> that returns an error or a connection \<open>'c\<close>.
  The outer result tells a returned error from a throw that escapes \<^verbatim>\<open>DialContext\<close>.
\<close>

section \<open>Definitions\<close>

record ctx =
  ctx_deadline :: "nat option"
  ctx_udp_source :: "string option"

type_synonym ('w, 'c) connector = "ctx \<Rightarrow> string \<Rightarrow> string \<Rightarrow> ('w, err + 'c) act"

text \<open>The two values a UDP dial carries in its context.\<close>

definition withUDPSource :: "ctx \<Rightarrow> string \<Rightarrow> ctx" where
  "withUDPSource c src = c\<lparr>ctx_udp_source := Some src\<rparr>"

definition udpSourceFromContext :: "ctx \<Rightarrow> string option" where
  "udpSourceFromContext c = ctx_udp_source c"

definition unsupportedConnector :: "string \<Rightarrow> ('w, 'c) connector" where
  "unsupportedConnector reason c network address w = (Ret (Inl (Fmt reason [])), w)"

definition hostPort :: "string \<Rightarrow> (string \<times> u16) res" where
  "hostPort address =
     res_bind (Throw3 (SplitHostPort address)) (\<lambda>(host, portStr).
     res_bind (Throw2 (parse_uint portStr 16)) (\<lambda>port. Ret (host, of_nat port)))"

text \<open>The address mapper: per network, a map from an address or a bare port to a target.\<close>

type_synonym mapper = "string \<rightharpoonup> (string \<rightharpoonup> string)"

definition NewAddressMapper :: mapper where
  "NewAddressMapper = Map.empty"

definition mapper_get :: "mapper \<Rightarrow> string \<Rightarrow> string \<Rightarrow> string option" where
  "mapper_get m network key = (case m network of None \<Rightarrow> None | Some t \<Rightarrow> t key)"

definition port_part :: "string \<Rightarrow> string" where
  "port_part address =
     (case last_index_byte CHR '':'' address of
        None \<Rightarrow> address
      | Some i \<Rightarrow> drop (i + 1) address)"

definition MapAddress :: "mapper \<Rightarrow> string \<Rightarrow> string \<Rightarrow> string option" where
  "MapAddress m network address =
     (case mapper_get m network address of
        Some t \<Rightarrow> Some t
      | None \<Rightarrow> mapper_get m network (port_part address))"

definition AddAddressMapping :: "string \<Rightarrow> string \<Rightarrow> string \<Rightarrow> (mapper, unit) act" where
  "AddAddressMapping network fromAddress toAddress m =
     (let m1 = (if m network = None then m(network \<mapsto> Map.empty) else m) in
      act_bind (act_lift (Throw3 (SplitHostPort fromAddress))) (\<lambda>(host, port).
      act_bind (act_lift (Throw2 (parse_uint port 16))) (\<lambda>_ m2.
        let key = (if host = '''' \<or> host = ''0.0.0.0'' \<or> host = ''::'' then port else fromAddress)
        in (Ret (), m2(network \<mapsto> (the (m2 network))(key \<mapsto> toAddress))))) m1)"

definition matchNets :: "ipnet list \<Rightarrow> string \<Rightarrow> bool res" where
  "matchNets nets address =
     res_bind (Throw3 (SplitHostPort address)) (\<lambda>(host, _).
       Ret (list_ex (\<lambda>n. Contains n (ParseIP host)) nets))"

definition nat64Unmap :: "ipnet option \<Rightarrow> string \<Rightarrow> string res" where
  "nat64Unmap prefix address =
     (case prefix of
        None \<Rightarrow> Ret address
      | Some p \<Rightarrow>
          res_bind (Throw3 (SplitHostPort address)) (\<lambda>(host, port).
            let ip = ParseIP host in
            if To4 ip \<noteq> [] \<or> \<not> Contains p ip then Ret address
            else res_bind (slice 12 16 ip) (\<lambda>ip4. Ret (JoinHostPort (ip_string ip4) port))))"

definition nat64Map :: "ipnet option \<Rightarrow> string \<Rightarrow> string res" where
  "nat64Map prefix address =
     (case prefix of
        None \<Rightarrow> Ret address
      | Some p \<Rightarrow>
          res_bind (Throw3 (SplitHostPort address)) (\<lambda>(host, port).
            let ip4 = To4 (ParseIP host) in
            if ip4 = [] then Ret address
            else Ret (JoinHostPort
                   (ip_string (take 12 (To16 (net_IP p) @ replicate 16 0) @ ip4)) port)))"

record ('w, 'c) localForwarding =
  directConnector :: "('w, 'c) connector"
  socksConnector :: "('w, 'c) connector"
  fwd_nat :: mapper
  fwd_bypass :: "ipnet list"
  fwd_tun :: "ipnet list"
  fwd_nat64 :: "ipnet option"

definition NewLocalForwardingConnector ::
    "('w, 'c) connector \<Rightarrow> ('w, 'c) connector \<Rightarrow> mapper \<Rightarrow> ipnet list \<Rightarrow> ipnet list \<Rightarrow>
     ipnet option \<Rightarrow> ('w, 'c) localForwarding" where
  "NewLocalForwardingConnector direct socks nt bypass tun nat64 =
     \<lparr>directConnector = direct, socksConnector = socks, fwd_nat = nt, fwd_bypass = bypass,
      fwd_tun = tun, fwd_nat64 = nat64\<rparr>"

definition localForwarding_DialContext :: "('w, 'c) localForwarding \<Rightarrow> ('w, 'c) connector" where
  "localForwarding_DialContext c cx network address =
     act_bind (act_lift (nat64Unmap (fwd_nat64 c) address)) (\<lambda>address.
       case MapAddress (fwd_nat c) network address of
         Some newAddress \<Rightarrow> directConnector c cx network newAddress
       | None \<Rightarrow>
           act_bind (act_lift (matchNets (fwd_tun c) address)) (\<lambda>inTun.
           if inTun then act_ret (Inl (Wrapped ''%s: %w'' [address] TUNRefused))
           else
             act_bind (act_lift (matchNets (fwd_bypass c) address)) (\<lambda>inBypass.
             if inBypass then
               act_bind (act_lift (nat64Map (fwd_nat64 c) address)) (\<lambda>direct.
                 directConnector c cx network direct)
             else socksConnector c cx network address)))"

section \<open>The routing policy as a specification\<close>

text \<open>
  What the README's ``Where a connection goes'' promises, on the destination endpoint rather than
  on its text: a destination is an IP address and a port.
\<close>

record endpoint =
  ep_ip :: bytes
  ep_port :: u16

definition endpoint_ok :: "endpoint \<Rightarrow> bool" where
  "endpoint_ok e \<longleftrightarrow> length (ep_ip e) = 4 \<or> length (ep_ip e) = 16"

definition render :: "endpoint \<Rightarrow> string" where
  "render e = JoinHostPort (ip_string (ep_ip e)) (itoa (unat (ep_port e)))"

definition embed_v4 :: "ipnet \<Rightarrow> bytes \<Rightarrow> bytes" where
  "embed_v4 p ip4 = take 12 (net_IP p) @ ip4"

definition unmap_endpoint :: "ipnet option \<Rightarrow> endpoint \<Rightarrow> endpoint" where
  "unmap_endpoint prefix e =
     (case prefix of
        None \<Rightarrow> e
      | Some p \<Rightarrow> if To4 (ep_ip e) = [] \<and> Contains p (ep_ip e) then e\<lparr>ep_ip := drop 12 (ep_ip e)\<rparr> else e)"

definition map_endpoint :: "ipnet option \<Rightarrow> endpoint \<Rightarrow> endpoint" where
  "map_endpoint prefix e =
     (case prefix of
        None \<Rightarrow> e
      | Some p \<Rightarrow> if To4 (ep_ip e) \<noteq> [] then e\<lparr>ep_ip := embed_v4 p (To4 (ep_ip e))\<rparr> else e)"

datatype route = Mapped string | Refused | Direct endpoint | Proxied endpoint

definition route_of :: "mapper \<Rightarrow> ipnet list \<Rightarrow> ipnet list \<Rightarrow> ipnet option \<Rightarrow> string \<Rightarrow> endpoint \<Rightarrow> route" where
  "route_of nt bypass tun nat64 network e =
     (let d = unmap_endpoint nat64 e in
      case MapAddress nt network (render d) of
        Some t \<Rightarrow> Mapped t
      | None \<Rightarrow>
          if list_ex (\<lambda>n. Contains n (ep_ip d)) tun then Refused
          else if list_ex (\<lambda>n. Contains n (ep_ip d)) bypass then Direct (map_endpoint nat64 d)
          else Proxied d)"

text \<open>A NAT64 prefix as \<^verbatim>\<open>parseNAT64\<close> makes it: an IPv6 /96 with a zero host part.\<close>

definition nat64_prefix :: "ipnet \<Rightarrow> bool" where
  "nat64_prefix p \<longleftrightarrow>
     length (net_IP p) = 16 \<and> net_Mask p = CIDRMask 96 128 \<and> drop 12 (net_IP p) = [0, 0, 0, 0]"

section \<open>The address mapper as an interface\<close>

text \<open>
  What a client of \<^verbatim>\<open>AddressMapper\<close> relies on: when an insertion is accepted, what a
  lookup returns after it, and what it leaves alone.
\<close>

definition source_key :: "string \<Rightarrow> (string \<times> bool) option" where
  "source_key from =
     (case SplitHostPort from of
        Inl _ \<Rightarrow> None
      | Inr (host, port) \<Rightarrow>
          (case parse_uint port 16 of
             Inl _ \<Rightarrow> None
           | Inr _ \<Rightarrow>
               if host = '''' \<or> host = ''0.0.0.0'' \<or> host = ''::'' then Some (port, True)
               else Some (from, False)))"

locale address_mapper =
  fixes empty :: "'m"
    and lookup :: "'m \<Rightarrow> string \<Rightarrow> string \<Rightarrow> string option"
    and add :: "string \<Rightarrow> string \<Rightarrow> string \<Rightarrow> ('m, unit) act"
  assumes lookup_empty: "lookup empty n a = None"
    and add_accepts: "(\<exists>m'. add n f t m = (Ret (), m')) \<longleftrightarrow> source_key f \<noteq> None"
    and lookup_exact: "add n f t m = (Ret (), m') \<Longrightarrow> source_key f = Some (k, False) \<Longrightarrow> lookup m' n f = Some t"
    and lookup_port: "add n f t m = (Ret (), m') \<Longrightarrow> source_key f = Some (k, True) \<Longrightarrow>
      lookup m n a = None \<Longrightarrow> port_part a = k \<Longrightarrow> lookup m' n a = Some t"
    and lookup_frame: "add n f t m = (Ret (), m') \<Longrightarrow> source_key f = Some (k, b) \<Longrightarrow>
      n' \<noteq> n \<or> a \<noteq> k \<and> port_part a \<noteq> k \<Longrightarrow> lookup m' n' a = lookup m n' a"
begin

fun add_all :: "(string \<times> string \<times> string) list \<Rightarrow> ('m, unit) act" where
  "add_all [] m = (Ret (), m)"
| "add_all ((n, f, t) # xs) m = act_bind (add n f t) (\<lambda>_. add_all xs) m"

lemma add_key: "add n f t m = (Ret (), m') \<Longrightarrow> \<exists>k b. source_key f = Some (k, b)"
  using add_accepts by (metis not_None_eq surj_pair)

lemma add_all_frame:
  "add_all xs m = (Ret (), m') \<Longrightarrow>
   \<forall>(n, f, t) \<in> set xs. \<forall>k b. source_key f = Some (k, b) \<longrightarrow> n \<noteq> net \<or> a \<noteq> k \<and> port_part a \<noteq> k \<Longrightarrow>
   lookup m' net a = lookup m net a"
proof (induction xs arbitrary: m)
  case (Cons x xs)
  obtain n f t where x: "x = (n, f, t)" by (cases x)
  with Cons.prems(1) obtain m1 where m1: "add n f t m = (Ret (), m1)" "add_all xs m1 = (Ret (), m')"
    by (auto simp: res_simps)
  obtain k b where "source_key f = Some (k, b)"
    using add_key [OF m1(1)] by blast
  with lookup_frame [OF m1(1) this] Cons.prems(2) x have "lookup m1 net a = lookup m net a"
    by fastforce
  with Cons.IH [OF m1(2)] Cons.prems(2) show ?case by auto
qed simp

lemma unmapped_stays_unmapped:
  assumes "add_all xs empty = (Ret (), m)"
    and "\<forall>(n, f, t) \<in> set xs. \<forall>k b. source_key f = Some (k, b) \<longrightarrow> n \<noteq> net \<or> a \<noteq> k \<and> port_part a \<noteq> k"
  shows "lookup m net a = None"
  using add_all_frame [OF assms] lookup_empty by simp

end

lemma AddAddressMapping_iff:
  "AddAddressMapping n f t m = (Ret (), m') \<longleftrightarrow>
     (\<exists>k b. source_key f = Some (k, b) \<and>
        m' = m(n \<mapsto> (case m n of None \<Rightarrow> Map.empty | Some tb \<Rightarrow> tb)(k \<mapsto> t)))"
proof (cases "SplitHostPort f")
  case (Inr hp)
  obtain h p where hp: "hp = (h, p)" by (cases hp)
  show ?thesis
    by (cases "parse_uint p 16"; cases "m n")
      (auto simp: AddAddressMapping_def source_key_def Inr hp Let_def act_bind_def)
qed (simp add: AddAddressMapping_def source_key_def Let_def act_bind_def)

lemma port_part_idem: "port_part (port_part a) = port_part a"
  by (auto simp: port_part_def last_index_byte_last elim!: last_index_byte_SomeE
      split: option.splits)

interpretation mapper: address_mapper NewAddressMapper MapAddress AddAddressMapping
proof
  show "MapAddress NewAddressMapper n a = None" for n a
    by (simp add: MapAddress_def NewAddressMapper_def mapper_get_def)
  show "(\<exists>m'. AddAddressMapping n f t m = (Ret (), m')) \<longleftrightarrow> source_key f \<noteq> None" for n f t m
    by (auto simp: AddAddressMapping_iff)
  show "MapAddress m' n f = Some t"
    if "AddAddressMapping n f t m = (Ret (), m')" "source_key f = Some (k, False)" for n f t m m' k
  proof -
    from that(2) have "k = f" by (auto simp: source_key_def split: sum.splits if_splits)
    with that show ?thesis by (auto simp: AddAddressMapping_iff MapAddress_def mapper_get_def)
  qed
  show "MapAddress m' n a = Some t"
    if "AddAddressMapping n f t m = (Ret (), m')" "source_key f = Some (k, True)"
      "MapAddress m n a = None" "port_part a = k" for n f t m m' k a
    using that
    by (auto simp: AddAddressMapping_iff MapAddress_def mapper_get_def split: option.splits)
  show "MapAddress m' n' a = MapAddress m n' a"
    if "AddAddressMapping n f t m = (Ret (), m')" "source_key f = Some (k, b)"
      "n' \<noteq> n \<or> a \<noteq> k \<and> port_part a \<noteq> k" for n f t m m' k b n' a
    using that
    by (auto simp: AddAddressMapping_iff MapAddress_def mapper_get_def split: option.splits)
qed

section \<open>Endpoints and their text\<close>

lemma render_split: "endpoint_ok e \<Longrightarrow>
  SplitHostPort (render e) = Inr (ip_string (ep_ip e), itoa (unat (ep_port e)))"
  by (simp add: render_def endpoint_ok_def split_ip_port)

lemma render_update: "render (e\<lparr>ep_ip := x\<rparr>) = JoinHostPort (ip_string x) (itoa (unat (ep_port e)))"
  by (simp add: render_def)

lemma ParseIP_render: "endpoint_ok e \<Longrightarrow> ParseIP (ip_string (ep_ip e)) = To16 (ep_ip e)"
  by (simp add: endpoint_ok_def ParseIP_ip_string)

lemma To4_To16: "length ip = 4 \<or> length ip = 16 \<Longrightarrow> To4 (To16 ip) = To4 ip"
  by (auto simp: To16_def)

lemma Contains_To16: "length ip = 4 \<or> length ip = 16 \<Longrightarrow> Contains n (To16 ip) = Contains n ip"
proof -
  assume ip: "length ip = 4 \<or> length ip = 16"
  have "(if To4 (To16 ip) \<noteq> [] then To4 (To16 ip) else To16 ip) = (if To4 ip \<noteq> [] then To4 ip else ip)"
    using ip by (auto simp: To16_def To4_def)
  then show ?thesis by (simp add: Contains_def)
qed

lemma hostPort_render:
  "endpoint_ok e \<Longrightarrow> hostPort (render e) = Ret (ip_string (ep_ip e), ep_port e)"
proof -
  assume e: "endpoint_ok e"
  have "unat (ep_port e) < 2 ^ 16"
    using unsigned_less [of "ep_port e", where ?'a = nat] by simp
  then have "parse_uint (itoa (unat (ep_port e))) 16 = Inr (unat (ep_port e))"
    by (rule parse_uint_itoa)
  with e show ?thesis by (simp add: hostPort_def render_split)
qed

lemma matchNets_render:
  "endpoint_ok e \<Longrightarrow> matchNets nets (render e) = Ret (list_ex (\<lambda>n. Contains n (ep_ip e)) nets)"
  by (simp add: matchNets_def render_split ParseIP_render Contains_To16 endpoint_ok_def)

lemma mask_96: "CIDRMask 96 128 = replicate 12 255 @ replicate 4 0"
  by code_simp

lemma nat64_contains_length:
  assumes "nat64_prefix p" "To4 ip = []" "Contains p ip"
  shows "length ip = 16"
proof -
  have "length ip = length (fst (network_number_and_mask p))"
    using assms by (auto simp: Contains_def Let_def split: prod.splits)
  moreover have "length (CIDRMask 96 128) = 16"
    by (simp add: mask_96)
  ultimately have "length ip = 4 \<or> length ip = 16"
    using assms To4_length [of "net_IP p"] by (auto simp: network_number_and_mask_def nat64_prefix_def Let_def)
  with assms show ?thesis by (auto simp: To4_def)
qed

lemma unmap_endpoint_ok:
  "pred_option nat64_prefix pfx \<Longrightarrow> endpoint_ok e \<Longrightarrow> endpoint_ok (unmap_endpoint pfx e)"
  using nat64_contains_length
  by (cases pfx) (auto simp: unmap_endpoint_def endpoint_ok_def)

lemma map_endpoint_ok:
  "pred_option nat64_prefix pfx \<Longrightarrow> endpoint_ok e \<Longrightarrow> endpoint_ok (map_endpoint pfx e)"
  using To4_length [of "ep_ip e"]
  by (cases pfx) (auto simp: map_endpoint_def endpoint_ok_def embed_v4_def nat64_prefix_def)

lemma nat64Unmap_render:
  assumes "pred_option nat64_prefix pfx" "endpoint_ok e"
  shows "nat64Unmap pfx (render e) = Ret (render (unmap_endpoint pfx e))"
proof (cases pfx)
  case (Some p)
  have ip: "length (ep_ip e) = 4 \<or> length (ep_ip e) = 16"
    using assms(2) by (simp add: endpoint_ok_def)
  have len: "length (ep_ip e) = 16" if "To4 (ep_ip e) = []" "Contains p (ep_ip e)"
    using nat64_contains_length assms(1) Some that by simp
  show ?thesis
    using Some assms(2) len ip
    by (auto simp: nat64Unmap_def unmap_endpoint_def render_split ParseIP_render Contains_To16 [OF ip]
        To4_To16 [OF ip] Let_def render_update To16_def slice_def)
qed (simp add: nat64Unmap_def unmap_endpoint_def)

lemma nat64Map_render:
  assumes "pred_option nat64_prefix pfx" "endpoint_ok e"
  shows "nat64Map pfx (render e) = Ret (render (map_endpoint pfx e))"
proof (cases pfx)
  case (Some p)
  have ip: "length (ep_ip e) = 4 \<or> length (ep_ip e) = 16"
    using assms(2) by (simp add: endpoint_ok_def)
  have "To16 (net_IP p) = net_IP p" "length (net_IP p) = 16"
    using Some assms(1) by (simp_all add: nat64_prefix_def To16_def)
  then show ?thesis
    using Some assms(2)
    by (auto simp: nat64Map_def map_endpoint_def render_split ParseIP_render
        To4_To16 [OF ip] Let_def render_update embed_v4_def)
qed (simp add: nat64Map_def map_endpoint_def)


lemma nat64_contains_iff:
  assumes "nat64_prefix p" "length ip = 16" "To4 ip = []" "To4 (net_IP p) = []"
  shows "Contains p ip \<longleftrightarrow> take 12 ip = take 12 (net_IP p)"
proof -
  have "(255 :: byte) = - 1" by simp
  then have full: "and (x :: byte) 255 = x" for x
    by (metis and.right_neutral)
  have nn: "network_number_and_mask p = (net_IP p, replicate 12 255 @ replicate 4 0)"
    using assms by (simp add: network_number_and_mask_def nat64_prefix_def Let_def mask_96)
  have "Contains p ip \<longleftrightarrow> (\<forall>i < 16. and (net_IP p ! i) ((replicate 12 255 @ replicate 4 0) ! i)
                                   = and (ip ! i) ((replicate 12 255 @ replicate 4 0) ! i))"
    using assms by (auto simp: Contains_def nn Let_def nat64_prefix_def)
  also have "\<dots> \<longleftrightarrow> (\<forall>i < 12. net_IP p ! i = ip ! i)"
  proof -
    have "(replicate 12 255 @ replicate 4 0) ! i = (if i < 12 then 255 else 0 :: byte)" if "i < 16" for i
      using that by (auto simp: nth_append)
    then have "(and (net_IP p ! i) ((replicate 12 255 @ replicate 4 0) ! i)
               = and (ip ! i) ((replicate 12 255 @ replicate 4 0) ! i)) \<longleftrightarrow> i < 12 \<longrightarrow> net_IP p ! i = ip ! i"
      if "i < 16" for i
      using that full by simp
    then show ?thesis by (meson less_trans numeral_less_iff semiring_norm(76,78,81))
  qed
  also have "\<dots> \<longleftrightarrow> take 12 ip = take 12 (net_IP p)"
  proof
    assume "\<forall>i < 12. net_IP p ! i = ip ! i"
    then show "take 12 ip = take 12 (net_IP p)"
      using assms by (intro nth_take_lemma) (auto simp: nat64_prefix_def)
  next
    assume "take 12 ip = take 12 (net_IP p)"
    then show "\<forall>i < 12. net_IP p ! i = ip ! i" by (metis nth_take)
  qed
  finally show ?thesis .
qed

lemma ip_string_v4_mapped: "length ip4 = 4 \<Longrightarrow> ip_string (v4InV6Prefix @ ip4) = ip_string ip4"
  by (auto simp: ip_string_def)

lemma render_unmap_embed:
  assumes "nat64_prefix p" "length ip4 = 4"
  shows "render (unmap_endpoint (Some p) \<lparr>ep_ip = embed_v4 p ip4, ep_port = port\<rparr>)
         = render \<lparr>ep_ip = ip4, ep_port = port\<rparr>"
proof (cases "take 12 (net_IP p) = v4InV6Prefix")
  case True
  then show ?thesis
    using assms ip_string_v4_mapped [of ip4]
    by (auto simp: unmap_endpoint_def embed_v4_def render_def)
next
  case False
  then have "To4 (net_IP p) = []" "To4 (embed_v4 p ip4) = []"
    using assms by (auto simp: To4_def embed_v4_def nat64_prefix_def)
  then have "Contains p (embed_v4 p ip4)"
    using assms by (subst nat64_contains_iff) (auto simp: embed_v4_def nat64_prefix_def)
  then show ?thesis
    using assms \<open>To4 (embed_v4 p ip4) = []\<close>
    by (simp add: unmap_endpoint_def render_def) (simp add: embed_v4_def nat64_prefix_def)
qed

lemma string4_nonempty: "length b = 4 \<Longrightarrow> string4 b \<noteq> []"
  by (auto simp: string4_def elim!: length_4E)

lemma ip_string_nonempty: "ip_string ip \<noteq> []"
proof (cases "length ip = 4 \<or> length ip = 16")
  case True
  show ?thesis
  proof (cases "To4 ip = []")
    case False
    with True To4_length string4_nonempty show ?thesis
      by (auto simp: ip_string_def)
  next
    case t4: True
    with True have "length ip = 16" by auto
    moreover from this obtain xs ys where "string6 ip = xs @ CHR '':'' # ys"
      by (rule string6_scan)
    ultimately show ?thesis
      using t4 by (simp add: ip_string_def)
  qed
qed (auto simp: ip_string_def)

lemma port_part_render: "port_part (render e) = itoa (unat (ep_port e))"
proof -
  have "last_index_byte CHR '':'' (xs @ CHR '':'' # itoa p) = Some (length xs)" for xs p
    by (simp add: last_index_byte_last)
  from this [of "''['' @ ip_string (ep_ip e) @ '']''"] this [of "ip_string (ep_ip e)"]
  show ?thesis by (simp add: port_part_def render_def JoinHostPort_def)
qed

lemmas render_simps = render_split ParseIP_render hostPort_render matchNets_render
  nat64Unmap_render nat64Map_render

lemma local_forwarding_route:
  assumes "endpoint_ok e" and "pred_option nat64_prefix (fwd_nat64 c)"
  shows "localForwarding_DialContext c cx network (render e) w =
    (case route_of (fwd_nat c) (fwd_bypass c) (fwd_tun c) (fwd_nat64 c) network e of
       Mapped t \<Rightarrow> directConnector c cx network t w
     | Refused \<Rightarrow>
         (Ret (Inl (Wrapped ''%s: %w'' [render (unmap_endpoint (fwd_nat64 c) e)] TUNRefused)), w)
     | Direct d \<Rightarrow> directConnector c cx network (render d) w
     | Proxied d \<Rightarrow> socksConnector c cx network (render d) w)"
proof -
  note ok = unmap_endpoint_ok [OF assms(2,1)]
  show ?thesis
    using ok assms
    by (simp add: localForwarding_DialContext_def route_of_def Let_def render_simps split: option.splits)
qed

section \<open>Properties\<close>

text \<open>
  C2: The connector that routes the container's traffic implements the routing policy. For every
  destination endpoint, written as the stack writes it, \<^verbatim>\<open>localForwardingConnector.DialContext\<close>
  does exactly what the policy says: an \<^verbatim>\<open>-L\<close> target is dialed directly, a TUN address is
  refused with no dial at all, a bypassed address is dialed directly (through NAT64 when a prefix is
  configured), everything else is handed to the proxy connector. It neither throws nor panics itself.
\<close>

theorem local_forwarding_implements_route:
  assumes "endpoint_ok e" and "pred_option nat64_prefix (fwd_nat64 c)"
  shows "localForwarding_DialContext c cx network (render e) w =
    (case route_of (fwd_nat c) (fwd_bypass c) (fwd_tun c) (fwd_nat64 c) network e of
       Mapped t \<Rightarrow> directConnector c cx network t w
     | Refused \<Rightarrow>
         (Ret (Inl (Wrapped ''%s: %w'' [render (unmap_endpoint (fwd_nat64 c) e)] TUNRefused)), w)
     | Direct d \<Rightarrow> directConnector c cx network (render d) w
     | Proxied d \<Rightarrow> socksConnector c cx network (render d) w)"
  using assms by (rule local_forwarding_route)

text \<open>
  NAT64 translation loses nothing. Embedding a bypassed IPv4 destination into the /96 prefix
  and unmapping the result gives the IPv4 destination back, with its port.
\<close>

lemma nat64_unmap_map:
  assumes "nat64_prefix p" and "length ip4 = 4"
  shows "res_bind (nat64Map (Some p) (render \<lparr>ep_ip = ip4, ep_port = port\<rparr>)) (nat64Unmap (Some p))
         = Ret (render \<lparr>ep_ip = ip4, ep_port = port\<rparr>)"
proof -
  let ?e = "\<lparr>ep_ip = ip4, ep_port = port\<rparr>"
  let ?m = "\<lparr>ep_ip = embed_v4 p ip4, ep_port = port\<rparr>"
  have ok: "endpoint_ok ?e" using assms by (simp add: endpoint_ok_def)
  have m: "map_endpoint (Some p) ?e = ?m"
    using assms by (auto simp: map_endpoint_def)
  have okm: "endpoint_ok ?m"
    using map_endpoint_ok [of "Some p" ?e] ok assms m by simp
  have "render (unmap_endpoint (Some p) ?m) = render ?e"
    by (rule render_unmap_embed [OF assms])
  then show ?thesis
    using assms ok okm m by (simp add: nat64Map_render nat64Unmap_render)
qed

text \<open>
  The other direction of the NAT64 translation. A destination inside the prefix, as DNS64
  synthesizes it, is unmapped to IPv4 for the routing decision, and mapping that IPv4 address back
  gives the synthesized destination again, so a bypassed one is dialed where the client dialed.
\<close>

lemma nat64_map_unmap:
  assumes "nat64_prefix p" and "To4 (net_IP p) = []"
    and "length ip = 16" and "take 12 ip = take 12 (net_IP p)"
  shows "res_bind (nat64Unmap (Some p) (render \<lparr>ep_ip = ip, ep_port = port\<rparr>)) (nat64Map (Some p))
         = Ret (render \<lparr>ep_ip = ip, ep_port = port\<rparr>)"
proof -
  let ?e = "\<lparr>ep_ip = ip, ep_port = port\<rparr>" and ?u = "\<lparr>ep_ip = drop 12 ip, ep_port = port\<rparr>"
  have t4: "To4 ip = []"
    using assms by (auto simp: To4_def nat64_prefix_def split: if_splits)
  then have u: "unmap_endpoint (Some p) ?e = ?u"
    using assms nat64_contains_iff [of p ip] by (simp add: unmap_endpoint_def)
  have m: "map_endpoint (Some p) ?u = ?e"
    using assms append_take_drop_id [of 12 ip] by (auto simp: map_endpoint_def embed_v4_def)
  have "endpoint_ok ?e" "endpoint_ok ?u"
    using assms by (simp_all add: endpoint_ok_def)
  then show ?thesis
    using assms u m by (simp add: nat64Unmap_render nat64Map_render)
qed

text \<open>
  An explicit \<^verbatim>\<open>-L\<close> mapping wins over every other rule. Once a mapping for a
  destination is accepted, dialing that destination dials the target directly, whatever the TUN and
  bypass networks are.
\<close>

lemma mapping_wins:
  assumes "endpoint_ok e"
    and "ip_string (ep_ip e) \<noteq> ''0.0.0.0''" and "ip_string (ep_ip e) \<noteq> ''::''"
    and "AddAddressMapping network (render e) target m = (Ret (), m')"
  shows "localForwarding_DialContext (NewLocalForwardingConnector direct socks m' bypass tun None)
           cx network (render e) w = direct cx network target w"
proof -
  have "source_key (render e) = Some (render e, False)"
    using assms mapper.add_key [OF assms(4)]
    by (auto simp: source_key_def render_split ip_string_nonempty split: sum.splits)
  with assms(4) have "MapAddress m' network (render e) = Some target"
    by (rule mapper.lookup_exact)
  then show ?thesis
    by (simp add: localForwarding_DialContext_def NewLocalForwardingConnector_def nat64Unmap_def)
qed

text \<open>
  A bare-port mapping whose port is not in canonical decimal form (\<^verbatim>\<open>-L 053:...\<close>)
  is accepted and then matches nothing: no destination the stack can render is looked up differently
  after it was added.
\<close>

lemma noncanonical_port_mapping_is_dead:
  assumes "parse_uint s 16 = Inr n" and "s \<noteq> itoa n" and "endpoint_ok e"
  shows "\<exists>m'. AddAddressMapping network (JoinHostPort '''' s) target m = (Ret (), m') \<and>
              MapAddress m' network (render e) = MapAddress m network (render e)"
proof -
  have digits: "\<forall>c \<in> set s. is_digit c" using parse_uint_digits [OF assms(1)] by simp
  then have "SplitHostPort (JoinHostPort '''' s) = Inr ('''', s)"
    by (intro SplitHostPort_JoinHostPort) (auto dest: is_digit_not_special)
  with assms(1) have key: "source_key (JoinHostPort '''' s) = Some (s, True)"
    by (simp add: source_key_def)
  with mapper.add_accepts obtain m' where m': "AddAddressMapping network (JoinHostPort '''' s) target m = (Ret (), m')"
    by (metis option.distinct(1))
  have "CHR '':'' \<in> set (render e)"
    by (simp add: render_def JoinHostPort_def)
  then have "render e \<noteq> s"
    using digits is_digit_not_special(1) by metis
  moreover have "port_part (render e) \<noteq> s"
  proof
    assume "port_part (render e) = s"
    then have "itoa (unat (ep_port e)) = s" by (simp add: port_part_render)
    with assms(1,2) show False
      using parse_uint_itoa [of "unat (ep_port e)" 16] unsigned_less [of "ep_port e", where ?'a = nat] by auto
  qed
  ultimately show ?thesis
    using m' mapper.lookup_frame [OF m' key] by blast
qed

text \<open>Witnesses.\<close>

theorem local_forwarding_implements_route_witness:
  "endpoint_ok \<lparr>ep_ip = [10, 1, 1, 2], ep_port = 53\<rparr> \<and>
   localForwarding_DialContext
     (NewLocalForwardingConnector (\<lambda>_ _ a w. (Ret (Inr (''direct'', a)), w)) (\<lambda>_ _ a w. (Ret (Inr (''socks'', a)), w))
        NewAddressMapper [] [\<lparr>net_IP = [10, 1, 1, 0], net_Mask = [255, 255, 255, 0]\<rparr>] None)
     \<lparr>ctx_deadline = None, ctx_udp_source = None\<rparr> ''udp'' (render \<lparr>ep_ip = [10, 1, 1, 2], ep_port = 53\<rparr>) ()
   = (Ret (Inl (Wrapped ''%s: %w'' [''10.1.1.2:53''] TUNRefused)), ())"
proof -
  let ?e = "\<lparr>ep_ip = [10, 1, 1, 2], ep_port = 53\<rparr> :: endpoint"
  let ?tun = "\<lparr>net_IP = [10, 1, 1, 0], net_Mask = [255, 255, 255, 0]\<rparr>"
  have ok: "endpoint_ok ?e" by (simp add: endpoint_ok_def)
  have r: "route_of NewAddressMapper [] [?tun] None ''udp'' ?e = Refused" by code_simp
  have s: "render ?e = ''10.1.1.2:53''" by code_simp
  show ?thesis
    using ok r s local_forwarding_implements_route [OF ok,
        of "NewLocalForwardingConnector (\<lambda>_ _ a w. (Ret (Inr (''direct'', a)), w)) (\<lambda>_ _ a w. (Ret (Inr (''socks'', a)), w))
             NewAddressMapper [] [?tun] None"
        "\<lparr>ctx_deadline = None, ctx_udp_source = None\<rparr>" "''udp''" "()"]
    by (simp add: NewLocalForwardingConnector_def unmap_endpoint_def)
qed

definition well_known_nat64 :: ipnet where
  "well_known_nat64 = \<lparr>net_IP = [0, 100, 255, 155, 0, 0, 0, 0, 0, 0, 0, 0, 0, 0, 0, 0], net_Mask = CIDRMask 96 128\<rparr>"

end
