(* ===== verification/Config.thy ===== *)
theory Config
  imports Connect
begin

text \<open>
  \<^verbatim>\<open>src/config.go\<close>: the parsers of the command-line values. Every parser throws on a bad
  value; the substring operations that could panic are written with \<open>slice\<close> and \<open>index\<close>.
\<close>

section \<open>Definitions\<close>

text \<open>\<^verbatim>\<open>url.Userinfo\<close> and one \<^verbatim>\<open>-F\<close> hop.\<close>

record userinfo =
  ui_username :: string
  ui_password :: "string option"

record ProxyAddr =
  pa_Scheme :: string
  pa_Address :: string
  pa_Auth :: "userinfo option"

fun parseBypassNets :: "string list \<Rightarrow> ipnet list res" where
  "parseBypassNets [] = Ret []"
| "parseBypassNets (c # cs) =
     res_bind (Throw3 (ParseCIDR c)) (\<lambda>(_, n).
     res_bind (parseBypassNets cs) (\<lambda>ns. Ret (n # ns)))"

definition parseNAT64 :: "string \<Rightarrow> ipnet option res" where
  "parseNAT64 s =
     (if s = '''' then Ret None
      else
        res_bind (Throw3 (ParseCIDR s)) (\<lambda>(_, n).
          case mask_size (net_Mask n) of (ones, bits) \<Rightarrow>
            if bits \<noteq> 128 \<or> ones \<noteq> 96
            then ThrowFmt ''invalid -nat64 prefix %q: must be an IPv6 /96'' [s]
            else Ret (Some n)))"

definition takeLastPort :: "string \<Rightarrow> (string \<times> string) res" where
  "takeLastPort input =
     (case last_index_byte CHR '':'' input of
        None \<Rightarrow> res_bind (Throw2 (parse_uint input 16)) (\<lambda>_. Ret (input, ''''))
      | Some idx \<Rightarrow>
          res_bind (Throw2 (parse_uint (drop (idx + 1) input) 16)) (\<lambda>_.
            Ret (drop (idx + 1) input, if 0 < idx then take idx input else '''')))"

definition takeLastIPv6Host :: "string \<Rightarrow> (string \<times> string) res" where
  "takeLastIPv6Host input =
     (case last_index_byte CHR ''['' input of
        None \<Rightarrow> ThrowFmt ''invalid IPv6 address'' []
      | Some idx \<Rightarrow>
          res_bind (slice (idx + 1) (length input - 1) input) (\<lambda>host.
          res_bind
            (if 0 < idx then
               res_bind (index (idx - 1) input) (\<lambda>c.
                 if c \<noteq> CHR '':'' then ThrowFmt ''missing colon before host'' []
                 else slice 0 (idx - 1) input)
             else Ret '''') (\<lambda>rest.
          if ParseIP host = [] then ThrowFmt ''invalid IPv6 address'' [] else Ret (host, rest))))"

definition takeLastHost :: "string \<Rightarrow> (string \<times> string) res" where
  "takeLastHost input =
     (if input = '''' then Ret ('''', '''')
      else
        res_bind (index (length input - 1) input) (\<lambda>c.
          if c = CHR '']'' then takeLastIPv6Host input
          else
            case last_index_byte CHR '':'' input of
              None \<Rightarrow> Ret (input, '''')
            | Some idx \<Rightarrow> Ret (drop (idx + 1) input, if 0 < idx then take idx input else '''')))"

definition parseMapping :: "string \<Rightarrow> (string \<times> string \<times> string) res" where
  "parseMapping mapping =
     (let parts = split_on CHR ''/'' mapping in
      res_bind (if length parts < 2 then Ret ''tcp'' else index 1 parts) (\<lambda>network.
      if network \<noteq> ''tcp'' \<and> network \<noteq> ''udp''
      then ThrowFmt ''invalid protocol %q in mapping %s: use tcp or udp'' [network, mapping]
      else
        res_bind (index 0 parts) (\<lambda>addrs.
        res_bind (takeLastPort addrs) (\<lambda>(targetPort, rest).
        res_bind (takeLastHost rest) (\<lambda>(targetHost, rest).
        if targetHost = '''' then ThrowFmt ''empty target host in mapping %s'' [mapping]
        else
          res_bind (takeLastPort rest) (\<lambda>(fromPort, rest).
          res_bind (takeLastHost rest) (\<lambda>(fromHost, rest).
          if rest \<noteq> '''' then ThrowFmt ''invalid source address in mapping %s'' [mapping]
          else Ret (network, JoinHostPort fromHost fromPort, JoinHostPort targetHost targetPort))))))))"

fun addMappings :: "string list \<Rightarrow> (mapper, unit) act" where
  "addMappings [] m = (Ret (), m)"
| "addMappings (mapping # ms) m =
     act_bind (act_lift (parseMapping mapping)) (\<lambda>(network, from, target).
     act_bind (AddAddressMapping network from target) (\<lambda>_. addMappings ms)) m"

definition parseAddressMapper :: "string list \<Rightarrow> mapper res" where
  "parseAddressMapper mappings =
     (case addMappings mappings NewAddressMapper of
        (Ret _, m) \<Rightarrow> Ret m
      | (Exc e, _) \<Rightarrow> Exc e
      | (Pan p, _) \<Rightarrow> Pan p)"

text \<open>
  The level of \<^verbatim>\<open>setLogLevel\<close>, in slog's numbering (Debug is \<open>-4\<close>, Info is \<open>0\<close>); a
  message is printed when its level is at least this.
\<close>

definition setLogLevel :: "int \<Rightarrow> int" where
  "setLogLevel verboseLevel =
     (if verboseLevel < 0 then 100
      else if verboseLevel = 0 then 0
      else if verboseLevel = 1 then - 4
      else - 4 - 4)"

definition countFlag_Set :: "int \<Rightarrow> int" where
  "countFlag_Set f = f + 1"

definition stringArrayFlag_Set :: "string list \<Rightarrow> string \<Rightarrow> string list" where
  "stringArrayFlag_Set f s = f @ [s]"

section \<open>The text of a mapping\<close>

text \<open>
  A mapping as the README documents it, \<^verbatim>\<open>[target_host:]port:host:hostport[/proto]\<close>, and its text: the source host and the
  protocol may both be left out.
\<close>

record mapping_spec =
  ms_from_host :: "string option"
  ms_from_port :: string
  ms_to_host :: string
  ms_to_port :: string
  ms_proto :: "string option"

definition bracketed :: "string \<Rightarrow> string" where
  "bracketed h = (if CHR '':'' \<in> set h then ''['' @ h @ '']'' else h)"

definition mapping_text :: "mapping_spec \<Rightarrow> string" where
  "mapping_text s =
     (case ms_from_host s of None \<Rightarrow> '''' | Some h \<Rightarrow> bracketed h @ '':'') @ ms_from_port s @ '':'' @
     bracketed (ms_to_host s) @ '':'' @ ms_to_port s @
     (case ms_proto s of None \<Rightarrow> '''' | Some p \<Rightarrow> ''/'' @ p)"

definition host_ok :: "string \<Rightarrow> bool" where
  "host_ok h \<longleftrightarrow> h \<noteq> [] \<and> CHR ''/'' \<notin> set h \<and> CHR ''['' \<notin> set h \<and> CHR '']'' \<notin> set h \<and>
     (CHR '':'' \<in> set h \<longrightarrow> ParseIP h \<noteq> [])"

definition port_ok :: "string \<Rightarrow> bool" where
  "port_ok p \<longleftrightarrow> (case parse_uint p 16 of Inl _ \<Rightarrow> False | Inr _ \<Rightarrow> True)"

definition mapping_ok :: "mapping_spec \<Rightarrow> bool" where
  "mapping_ok s \<longleftrightarrow> (case ms_from_host s of None \<Rightarrow> True | Some h \<Rightarrow> host_ok h) \<and> port_ok (ms_from_port s) \<and>
     host_ok (ms_to_host s) \<and> port_ok (ms_to_port s) \<and> ms_proto s \<in> {None, Some ''tcp'', Some ''udp''}"

section \<open>Lemmas\<close>

lemma port_ok_digits: "port_ok p \<Longrightarrow> \<forall>c \<in> set p. is_digit c"
  using parse_uint_digits by (auto simp: port_ok_def split: sum.splits)

lemma port_ok_chars:
  assumes "port_ok p"
  shows "CHR '':'' \<notin> set p" "CHR ''/'' \<notin> set p" "CHR ''['' \<notin> set p" "CHR '']'' \<notin> set p"
  using digits_no_special [OF port_ok_digits [OF assms]] by simp_all

lemma takeLastPort_snoc:
  assumes "port_ok p" "xs \<noteq> []"
  shows "takeLastPort (xs @ CHR '':'' # p) = Ret (p, xs)"
  using assms port_ok_chars(1) [OF assms(1)]
  by (auto simp: takeLastPort_def last_index_byte_last port_ok_def split: sum.splits)

lemma takeLastPort_only: "port_ok p \<Longrightarrow> takeLastPort p = Ret (p, '''')"
  using port_ok_chars(1) [of p]
  by (auto simp: takeLastPort_def port_ok_def split: sum.splits)

lemma takeLastHost_plain:
  assumes "host_ok h" "CHR '':'' \<notin> set h"
  shows "takeLastHost (xs @ CHR '':'' # h) = Ret (h, xs)" "takeLastHost h = Ret (h, '''')"
proof -
  have "last h \<noteq> CHR '']''" using assms by (metis host_ok_def last_in_set)
  moreover have "(xs @ CHR '':'' # h) ! (length (xs @ CHR '':'' # h) - 1) = last h"
    using assms by (metis append_is_Nil_conv host_ok_def last.simps last_appendR last_conv_nth list.distinct(1))
  moreover have "h ! (length h - 1) = last h"
    using assms by (metis host_ok_def last_conv_nth)
  moreover have "h \<noteq> []" using assms by (simp add: host_ok_def)
  ultimately show "takeLastHost (xs @ CHR '':'' # h) = Ret (h, xs)" "takeLastHost h = Ret (h, '''')"
    using assms
    by (simp_all add: takeLastHost_def index_def last_index_byte_last)
qed

lemma takeLastHost_bracketed:
  assumes "host_ok h" "CHR '':'' \<in> set h"
  shows "takeLastHost (xs @ CHR '':'' # ''['' @ h @ '']'') = Ret (h, xs)"
    "takeLastHost (''['' @ h @ '']'') = Ret (h, '''')"
proof -
  have nb: "CHR ''['' \<notin> set (h @ '']'')" and ip: "ParseIP h \<noteq> []" using assms by (auto simp: host_ok_def)
  have "last_index_byte CHR ''['' ((xs @ '':'') @ CHR ''['' # h @ '']'') = Some (length (xs @ '':''))"
    using nb by (rule last_index_byte_last)
  then show "takeLastHost (xs @ CHR '':'' # ''['' @ h @ '']'') = Ret (h, xs)"
    using ip by (simp add: takeLastHost_def takeLastIPv6Host_def index_def slice_def nth_append)
  have "last_index_byte CHR ''['' ([] @ CHR ''['' # h @ '']'') = Some (length ([] :: string))"
    using nb by (rule last_index_byte_last)
  then show "takeLastHost (''['' @ h @ '']'') = Ret (h, '''')"
    using ip by (simp add: takeLastHost_def takeLastIPv6Host_def index_def slice_def)
qed

lemma takeLastHost_token:
  assumes "host_ok h"
  shows "takeLastHost (xs @ CHR '':'' # bracketed h) = Ret (h, xs)" "takeLastHost (bracketed h) = Ret (h, '''')"
  using takeLastHost_plain [OF assms] takeLastHost_bracketed [OF assms]
  by (auto simp: bracketed_def)

lemma port_text: "takeLastPort s = Ret (p, r) \<Longrightarrow> port_ok p"
  by (auto simp: takeLastPort_def port_ok_def res_simps split: option.splits)

lemma takeLastPort_no_panic: "takeLastPort s \<noteq> Pan q"
  by (auto simp: takeLastPort_def res_simps split: option.splits)

lemma takeLastHost_no_panic: "takeLastHost s \<noteq> Pan q"
proof (cases "s = []")
  case False
  have "takeLastIPv6Host s \<noteq> Pan q" if "s ! (length s - 1) = CHR '']''"
  proof (cases "last_index_byte CHR ''['' s")
    case (Some i)
    then obtain xs ys where s: "s = xs @ CHR ''['' # ys" "i = length xs"
      by (auto elim: last_index_byte_SomeE)
    with that have "ys \<noteq> []" by (auto simp: nth_append)
    with Some s show ?thesis
      by (auto simp: takeLastIPv6Host_def res_simps Suc_le_eq split: if_splits)
  qed (simp add: takeLastIPv6Host_def res_simps)
  with False show ?thesis
    by (auto simp: takeLastHost_def res_simps split: option.splits)
qed (simp add: takeLastHost_def)

lemma mask_bytes_length [simp]: "length (mask_bytes ones n) = n"
  by (induction n arbitrary: ones) auto

lemma ParseCIDR_InrD:
  assumes "ParseCIDR s = Inr (ip, n)"
  shows "\<exists>a m k. parseAddr a = Some m \<and> k \<le> bit_len m \<and> ip = as16 m \<and>
    n = \<lparr>net_IP = ip_mask (as16 m) (CIDRMask k (bit_len m)), net_Mask = CIDRMask k (bit_len m)\<rparr>"
  using assms
  by (cases "cut_byte CHR ''/'' s")
    (auto simp: ParseCIDR_def not_less split: if_splits option.splits)

lemma mask_size_SomeD:
  assumes "mask_size m = (ones, bits)" "0 < bits"
  shows "bits = 8 * length m" "mask_bytes ones (length m) = m"
  using assms by (auto simp: mask_size_def find_Some_iff split: option.splits)

lemma addMappings_add_all:
  "addMappings ms m = (Ret (), m') \<Longrightarrow>
     \<exists>xs. mapper.add_all xs m = (Ret (), m') \<and> map parseMapping ms = map Ret xs"
proof (induction ms arbitrary: m)
  case Nil
  then show ?case by (auto intro!: exI [of _ "[]"])
next
  case (Cons mp ms)
  then obtain n f t m1 where pm: "parseMapping mp = Ret (n, f, t)"
    and add: "AddAddressMapping n f t m = (Ret (), m1)" and rest: "addMappings ms m1 = (Ret (), m')"
    by (auto simp: res_simps)
  from Cons.IH [OF rest] obtain xs where "mapper.add_all xs m1 = (Ret (), m')" "map parseMapping ms = map Ret xs"
    by blast
  with pm add show ?case by (intro exI [of _ "(n, f, t) # xs"]) simp
qed

section \<open>Properties\<close>

text \<open>
  C38: Every mapping the README documents, \<^verbatim>\<open>[target_host:]port:host:hostport[/proto]\<close> with IPv6 hosts in
  brackets, is parsed into exactly its parts: the protocol, which is tcp when none is written, the source address
  and the target address.
\<close>

theorem parseMapping_roundtrip:
  assumes "mapping_ok s"
  shows "parseMapping (mapping_text s) =
    Ret (case ms_proto s of None \<Rightarrow> ''tcp'' | Some p \<Rightarrow> p,
         JoinHostPort (case ms_from_host s of None \<Rightarrow> '''' | Some h \<Rightarrow> h) (ms_from_port s),
         JoinHostPort (ms_to_host s) (ms_to_port s))"
proof -
  let ?from = "(case ms_from_host s of None \<Rightarrow> '''' | Some h \<Rightarrow> bracketed h @ '':'') @ ms_from_port s"
  let ?addrs = "?from @ '':'' @ bracketed (ms_to_host s) @ '':'' @ ms_to_port s"
  have ok: "port_ok (ms_from_port s)" "host_ok (ms_to_host s)" "port_ok (ms_to_port s)"
    "pred_option host_ok (ms_from_host s)" "ms_proto s \<in> {None, Some ''tcp'', Some ''udp''}"
    using assms by (auto simp: mapping_ok_def split: option.splits)
  have slash: "CHR ''/'' \<notin> set (bracketed h)" if "host_ok h" for h
    using that by (auto simp: host_ok_def bracketed_def)
  have free: "CHR ''/'' \<notin> set ?addrs"
    using ok slash port_ok_chars(2) by (cases "ms_from_host s") auto
  have whole: "mapping_text s = ?addrs @ (case ms_proto s of None \<Rightarrow> '''' | Some p \<Rightarrow> CHR ''/'' # p)"
    by (simp add: mapping_text_def split: option.split)
  have "split_on CHR ''/'' p = [p]" if "ms_proto s = Some p" for p
    using ok(5) that by auto
  with free whole have parts: "split_on CHR ''/'' (mapping_text s) =
      (case ms_proto s of None \<Rightarrow> [?addrs] | Some p \<Rightarrow> [?addrs, p])"
    using split_on_first [OF free] split_on_none [OF free] by (cases "ms_proto s") simp_all
  have p1: "takeLastPort ?addrs = Ret (ms_to_port s, ?from @ CHR '':'' # bracketed (ms_to_host s))"
    using takeLastPort_snoc [OF ok(3), of "?from @ CHR '':'' # bracketed (ms_to_host s)"] by simp
  have h1: "takeLastHost (?from @ CHR '':'' # bracketed (ms_to_host s)) = Ret (ms_to_host s, ?from)"
    by (rule takeLastHost_token) (rule ok)
  have ne: "ms_to_host s \<noteq> []" using ok(2) by (simp add: host_ok_def)
  show ?thesis
  proof (cases "ms_from_host s")
    case None
    with parts p1 h1 ok ne show ?thesis
      by (elim insertE emptyE; simp add: parseMapping_def index_def takeLastPort_only takeLastHost_def)
  next
    case (Some h)
    then have h: "host_ok h" using ok(4) by simp
    then have "bracketed h \<noteq> []" by (auto simp: bracketed_def host_ok_def)
    then have "takeLastPort ?from = Ret (ms_from_port s, bracketed h)"
      using takeLastPort_snoc [OF ok(1)] Some by simp
    with parts p1 h1 ok ne Some takeLastHost_token(2) [OF h] show ?thesis
      by (elim insertE emptyE; simp add: parseMapping_def index_def)
  qed
qed

text \<open>
  What \<^verbatim>\<open>parseMapping\<close> accepts is well formed: the protocol is tcp or udp, both ports
  are 16-bit decimal numbers and the target has a host.
\<close>

lemma parseMapping_sound:
  assumes "parseMapping mapping = Ret (network, from, target)"
  shows "(network = ''tcp'' \<or> network = ''udp'') \<and>
    (\<exists>fh fp th tp. from = JoinHostPort fh fp \<and> target = JoinHostPort th tp \<and>
       port_ok fp \<and> port_ok tp \<and> th \<noteq> '''')"
proof -
  let ?parts = "split_on CHR ''/'' mapping"
  from assms obtain tp r1 th r2 fp r3 fh where
    "takeLastPort (?parts ! 0) = Ret (tp, r1)" "th \<noteq> ''''" "takeLastPort r2 = Ret (fp, r3)"
    "from = JoinHostPort fh fp" "target = JoinHostPort th tp" "network = ''tcp'' \<or> network = ''udp''"
    by (auto simp: parseMapping_def Let_def res_simps split: if_splits)
  then show ?thesis using port_text by blast
qed

text \<open>No \<^verbatim>\<open>-L\<close> value can make \<^verbatim>\<open>parseMapping\<close> panic: every substring it takes is in range.\<close>

lemma parseMapping_no_panic: "parseMapping mapping \<noteq> Pan p"
proof -
  have "length (split_on CHR ''/'' mapping) \<noteq> 0" by simp
  then show ?thesis
    using takeLastPort_no_panic takeLastHost_no_panic
    by (auto simp: parseMapping_def Let_def res_simps split: if_splits)
qed

text \<open>
  A prefix \<^verbatim>\<open>parseNAT64\<close> accepts is an IPv6 /96 network with a zero host part, which is
  what the NAT64 translation and the routing policy need.
\<close>

lemma parseNAT64_prefix:
  assumes "parseNAT64 s = Ret (Some p)"
  shows "nat64_prefix p"
proof -
  from assms have s: "s \<noteq> ''''" by (auto simp: parseNAT64_def)
  with assms obtain ip q where q: "ParseCIDR s = Inr (ip, q)"
    by (cases "ParseCIDR s") (auto simp: parseNAT64_def)
  obtain ones bits where ob: "mask_size (net_Mask q) = (ones, bits)" by (cases "mask_size (net_Mask q)")
  with assms s q have cidr: "ParseCIDR s = Inr (ip, p)" and size: "mask_size (net_Mask p) = (96, 128)"
    by (auto simp: parseNAT64_def ThrowFmt_def split: if_splits)
  from ParseCIDR_InrD [OF cidr] obtain a m n where pa: "parseAddr a = Some m"
    and p: "p = \<lparr>net_IP = ip_mask (as16 m) (CIDRMask n (bit_len m)), net_Mask = CIDRMask n (bit_len m)\<rparr>"
    by blast
  have len: "length (net_Mask p) = 16" and mask: "net_Mask p = mask_bytes 96 16"
    using mask_size_SomeD [OF size] by auto
  then have "bit_len m = 128" using p by (cases m) (auto simp: CIDRMask_def)
  then obtain b where m: "m = Text6 b" by (cases m) auto
  have lb: "length b = 16"
    using pa m by (metis as16.simps(2) parseAddr_def parseAddr_scan_as16)
  have "mask_bytes 96 16 = CIDRMask 96 128" by (simp add: CIDRMask_def)
  then have mk: "net_Mask p = replicate 12 255 @ replicate 4 0" using mask mask_96 by simp
  have ip: "net_IP p = map2 (\<lambda>a b. and a b) b (net_Mask p)"
    using p m lb len by (simp add: ip_mask_def Let_def)
  have "drop 12 (net_IP p) = map2 (\<lambda>a b. and a b) (drop 12 b) (replicate 4 0)"
    unfolding ip mk by (simp add: drop_map drop_zip)
  also have "\<dots> = [0, 0, 0, 0]"
    using lb by (auto simp: eval_nat_numeral length_Suc_conv)
  finally have "drop 12 (net_IP p) = [0, 0, 0, 0]" .
  moreover have "length (net_IP p) = 16" using ip lb len by simp
  ultimately show ?thesis
    using mask by (simp add: nat64_prefix_def CIDRMask_def)
qed

text \<open>
  \<^verbatim>\<open>-L\<close> never redirects what it does not name: an address that is not the source of
  a mapping of its network, and whose port is not that of a bare-port mapping, is not mapped by the mapper
  built from the whole command line.
\<close>

lemma parseAddressMapper_unmapped:
  assumes "parseAddressMapper ms = Ret m"
    and "\<forall>mp \<in> set ms. \<forall>n f t k b.
           parseMapping mp = Ret (n, f, t) \<longrightarrow> source_key f = Some (k, b) \<longrightarrow>
             n \<noteq> network \<or> a \<noteq> k \<and> port_part a \<noteq> k"
  shows "MapAddress m network a = None"
proof -
  from assms(1) have "addMappings ms NewAddressMapper = (Ret (), m)"
    by (auto simp: parseAddressMapper_def split: prod.splits res.splits)
  then obtain xs where xs: "mapper.add_all xs NewAddressMapper = (Ret (), m)" "map parseMapping ms = map Ret xs"
    using addMappings_add_all by blast
  have "\<exists>mp \<in> set ms. parseMapping mp = Ret x" if "x \<in> set xs" for x
    using that xs(2) by (metis image_eqI imageE list.set_map)
  with assms(2) show ?thesis
    by (intro mapper.unmapped_stays_unmapped [OF xs(1)]) blast
qed

text \<open>Witnesses.\<close>

theorem parseMapping_roundtrip_witness:
  "parseMapping ''53:[2606:4700:4700::1111]:53/udp'' = Ret (''udp'', '':53'', ''[2606:4700:4700::1111]:53'') \<and>
   parseMapping ''8080:127.0.0.1:80'' = Ret (''tcp'', '':8080'', ''127.0.0.1:80'')"
proof -
  let ?s = "\<lparr>ms_from_host = None, ms_from_port = ''53'', ms_to_host = ''2606:4700:4700::1111'',
     ms_to_port = ''53'', ms_proto = Some ''udp''\<rparr>"
  let ?t = "\<lparr>ms_from_host = None, ms_from_port = ''8080'', ms_to_host = ''127.0.0.1'', ms_to_port = ''80'', ms_proto = None\<rparr>"
  have ok: "mapping_ok ?s" "mapping_ok ?t" by code_simp+
  have "mapping_text ?s = ''53:[2606:4700:4700::1111]:53/udp''" "mapping_text ?t = ''8080:127.0.0.1:80''" by code_simp+
  with parseMapping_roundtrip [OF ok(1)] parseMapping_roundtrip [OF ok(2)] show ?thesis by (simp add: JoinHostPort_def)
qed

end
