(* ===== verification/ConnIO.thy ===== *)
theory ConnIO
  imports Config
begin

text \<open>
  Connections and what the program does with them. The world holds the open connections by number,
  the order of the operating system's dials, the connections closed so far and every write, so that
  a property can speak of what left the process.

  A raw connection delivers the segments its peer sends, in order, and then reports \<open>fin\<close> for ever;
  how the peer's bytes are cut into segments is arbitrary, which is what a stream socket promises. A
  tunnel is the \<^verbatim>\<open>httpTunnel\<close> of \<^verbatim>\<open>src/httpproxy.go\<close>: a connection read
  through the \<^verbatim>\<open>bufio.Reader\<close> that has read the proxy's response.
\<close>

section \<open>Readers\<close>

text \<open>An \<^verbatim>\<open>io.Reader\<close>: at most \<open>n\<close> bytes, an error, and the reader afterwards.\<close>

type_synonym 'r reader = "nat \<Rightarrow> 'r \<Rightarrow> bytes \<times> err option \<times> 'r"

text \<open>
  \<^verbatim>\<open>io.ReadFull\<close>. The loop reads until it has what it needs or an error; a reader that returned
  no bytes and no error for ever would never end it, so it runs on fuel, one unit per missing byte, and
  \<open>io_reader.readFull_*\<close> shows that this is enough for every reader that keeps the contract.
\<close>

primrec ReadFull_loop :: "'r reader \<Rightarrow> nat \<Rightarrow> nat \<Rightarrow> bytes \<Rightarrow> 'r \<Rightarrow> (err + bytes) res \<times> 'r" where
  "ReadFull_loop rd 0 need acc r =
     (if need = 0 then Ret (Inr acc) else Pan ''io.ReadFull: no progress'', r)"
| "ReadFull_loop rd (Suc fuel) need acc r =
     (if need = 0 then (Ret (Inr acc), r)
      else case rd need r of (b, e, r') \<Rightarrow>
        if need \<le> length b then (Ret (Inr (acc @ b)), r')
        else case e of
            None \<Rightarrow> ReadFull_loop rd fuel (need - length b) (acc @ b) r'
          | Some er \<Rightarrow>
              (Ret (Inl (if acc @ b \<noteq> [] \<and> er = EOF then UnexpectedEOF else er)), r'))"

definition readFull :: "'r reader \<Rightarrow> nat \<Rightarrow> ('r, bytes) act" where
  "readFull rd n r =
     (case ReadFull_loop rd n n [] r of (x, r') \<Rightarrow> (res_bind x Throw2, r'))"

text \<open>\<^verbatim>\<open>bytes.Reader\<close>, as the bytes not read yet.\<close>

definition bytes_read :: "bytes reader" where
  "bytes_read n r = (if r = [] then ([], Some EOF, r) else (take n r, None, drop n r))"

section \<open>Connections\<close>

record raw =
  segs :: "bytes list"
  fin :: err
  werrs :: "err option list"
  deadline :: "nat option"
  dlerr :: "err option"

datatype net_conn = RawC raw | TunnelC bytes net_conn

definition bufio_size :: nat where
  "bufio_size = 4096"

definition raw_read :: "nat \<Rightarrow> raw \<Rightarrow> bytes \<times> err option \<times> raw" where
  "raw_read n r =
     (if n = 0 then ([], None, r)
      else case dropWhile (\<lambda>s. s = []) (segs r) of
          [] \<Rightarrow> ([], Some (fin r), r\<lparr>segs := []\<rparr>)
        | s # ss \<Rightarrow> (take n s, None, r\<lparr>segs := drop n s # ss\<rparr>))"

text \<open>\<^verbatim>\<open>Read\<close> of a connection; a tunnel reads as \<^verbatim>\<open>bufio.Reader.Read\<close> does.\<close>

primrec conn_read :: "net_conn \<Rightarrow> nat \<Rightarrow> bytes \<times> err option \<times> net_conn" where
  "conn_read (RawC r) n = (case raw_read n r of (b, e, r') \<Rightarrow> (b, e, RawC r'))"
| "conn_read (TunnelC buf c) n =
     (if n = 0 then ([], None, TunnelC buf c)
      else if buf \<noteq> [] then (take n buf, None, TunnelC (drop n buf) c)
      else if bufio_size \<le> n then
        (case conn_read c n of (b, e, c') \<Rightarrow> (b, e, TunnelC [] c'))
      else
        (case conn_read c bufio_size of (b, e, c') \<Rightarrow>
           if b = [] then ([], e, TunnelC [] c') else (take n b, None, TunnelC (drop n b) c')))"

primrec conn_map_raw :: "(raw \<Rightarrow> raw) \<Rightarrow> net_conn \<Rightarrow> net_conn" where
  "conn_map_raw f (RawC r) = RawC (f r)"
| "conn_map_raw f (TunnelC buf c) = TunnelC buf (conn_map_raw f c)"

primrec conn_raw :: "net_conn \<Rightarrow> raw" where
  "conn_raw (RawC r) = r"
| "conn_raw (TunnelC buf c) = conn_raw c"

text \<open>The bytes a connection still delivers, and what it reports after them.\<close>

primrec conn_stream :: "net_conn \<Rightarrow> bytes" where
  "conn_stream (RawC r) = concat (segs r)"
| "conn_stream (TunnelC buf c) = buf @ conn_stream c"

definition conn_fin :: "net_conn \<Rightarrow> err" where
  "conn_fin c = fin (conn_raw c)"

section \<open>The world\<close>

record world =
  heap :: "nat \<rightharpoonup> net_conn"
  dials :: "(string \<times> string) list"
  closed :: "nat list"
  wlog :: "(nat \<times> bytes) list"

text \<open>
  The operating system's network: the answer to the \<open>k\<close>-th dial. It is a parameter of every definition
  that dials.
\<close>

type_synonym netenv = "nat \<Rightarrow> string \<Rightarrow> string \<Rightarrow> err + raw"

text \<open>\<^verbatim>\<open>net.Dialer.DialContext\<close>: the direct connector.\<close>

definition NewDirectConnector :: "netenv \<Rightarrow> (world, nat) connector" where
  "NewDirectConnector env cx network address w =
     (let k = length (dials w); w' = w\<lparr>dials := dials w @ [(network, address)]\<rparr> in
      case env k network address of
        Inl e \<Rightarrow> (Ret (Inl e), w')
      | Inr r \<Rightarrow> (Ret (Inr k), w'\<lparr>heap := (heap w)(k \<mapsto> RawC r)\<rparr>))"

definition conn_open :: "nat \<Rightarrow> world \<Rightarrow> bool" where
  "conn_open k w \<longleftrightarrow> heap w k \<noteq> None \<and> k \<notin> set (closed w)"

definition w_conn :: "nat \<Rightarrow> world \<Rightarrow> net_conn" where
  "w_conn k w = the (heap w k)"

definition w_read :: "nat \<Rightarrow> world reader" where
  "w_read k n w =
     (if conn_open k w then
        (case conn_read (w_conn k w) n of (b, e, c') \<Rightarrow> (b, e, w\<lparr>heap := (heap w)(k \<mapsto> c')\<rparr>))
      else ([], Some ErrClosed, w))"

text \<open>\<^verbatim>\<open>Write\<close>: the attempt is logged, and the connection's next write result is taken.\<close>

definition w_write :: "nat \<Rightarrow> bytes \<Rightarrow> world \<Rightarrow> err option \<times> world" where
  "w_write k b w =
     (if conn_open k w then
        (case werrs (conn_raw (w_conn k w)) of
           [] \<Rightarrow> (None, w\<lparr>wlog := wlog w @ [(k, b)]\<rparr>)
         | e # es \<Rightarrow>
             (e, w\<lparr>wlog := wlog w @ [(k, b)],
                   heap := (heap w)(k \<mapsto> conn_map_raw (\<lambda>r. r\<lparr>werrs := es\<rparr>) (w_conn k w))\<rparr>))
      else (Some ErrClosed, w))"

definition w_set_deadline :: "nat \<Rightarrow> nat option \<Rightarrow> world \<Rightarrow> err option \<times> world" where
  "w_set_deadline k d w =
     (if conn_open k w then
        (case dlerr (conn_raw (w_conn k w)) of
           Some e \<Rightarrow> (Some e, w)
         | None \<Rightarrow>
             (None, w\<lparr>heap := (heap w)(k \<mapsto> conn_map_raw (\<lambda>r. r\<lparr>deadline := d\<rparr>) (w_conn k w))\<rparr>))
      else (Some ErrClosed, w))"

definition w_close :: "nat \<Rightarrow> world \<Rightarrow> world" where
  "w_close k w = (if k \<in> set (closed w) then w else w\<lparr>closed := closed w @ [k]\<rparr>)"

text \<open>\<^verbatim>\<open>Throw\<close> of an effect's error.\<close>

definition act_throw :: "('s \<Rightarrow> err option \<times> 's) \<Rightarrow> ('s, unit) act" where
  "act_throw f s = (case f s of (e, s') \<Rightarrow> (Throw e, s'))"

text \<open>\<^verbatim>\<open>applyDeadline\<close> of \<^verbatim>\<open>src/connect.go\<close>.\<close>

definition applyDeadline :: "ctx \<Rightarrow> nat \<Rightarrow> (world, unit) act" where
  "applyDeadline cx k =
     (case ctx_deadline cx of
        None \<Rightarrow> act_ret ()
      | Some d \<Rightarrow> act_throw (w_set_deadline k (Some d)))"

text \<open>What reading one connection leaves alone: the world but for that connection, and its controls.\<close>

definition world_rest :: "nat \<Rightarrow> world \<Rightarrow> world" where
  "world_rest k w = w\<lparr>heap := (heap w)(k := None)\<rparr>"

definition conn_ctl :: "net_conn \<Rightarrow> err option list \<times> nat option \<times> err option" where
  "conn_ctl c = (werrs (conn_raw c), deadline (conn_raw c), dlerr (conn_raw c))"

definition unread_rest :: "nat \<Rightarrow> world \<Rightarrow> world \<times> err option list \<times> nat option \<times> err option" where
  "unread_rest k w = (world_rest k w, conn_ctl (w_conn k w))"

section \<open>The reader contract\<close>

text \<open>
  What the protocol code relies on when it reads: the bytes come in order, none is lost or repeated, a
  reader with data makes progress, and nothing but the reader's position changes.
\<close>

locale io_reader =
  fixes rd :: "'r reader"
    and stream :: "'r \<Rightarrow> bytes"
    and final :: "'r \<Rightarrow> err"
    and inv :: "'r \<Rightarrow> bool"
    and rest :: "'r \<Rightarrow> 'x"
  assumes read_data: "inv r \<Longrightarrow> 0 < n \<Longrightarrow> stream r \<noteq> [] \<Longrightarrow> rd n r = (b, e, r') \<Longrightarrow>
      e = None \<and> b \<noteq> [] \<and> length b \<le> n \<and> stream r = b @ stream r'"
    and read_end: "inv r \<Longrightarrow> 0 < n \<Longrightarrow> stream r = [] \<Longrightarrow> rd n r = (b, e, r') \<Longrightarrow>
      e = Some (final r) \<and> b = [] \<and> stream r' = []"
    and read_frame: "inv r \<Longrightarrow> rd n r = (b, e, r') \<Longrightarrow> inv r' \<and> final r' = final r \<and> rest r' = rest r"
begin

definition same :: "'r \<Rightarrow> 'r \<Rightarrow> bool" where
  "same r r' \<longleftrightarrow> inv r' \<and> final r' = final r \<and> rest r' = rest r"

lemma same_trans: "same r r' \<Longrightarrow> same r' r'' \<Longrightarrow> same r r''"
  by (simp add: same_def)

lemma ReadFull_loop_ok:
  "inv r \<Longrightarrow> need \<le> fuel \<Longrightarrow> need \<le> length (stream r) \<Longrightarrow>
     \<exists>r'. ReadFull_loop rd fuel need acc r = (Ret (Inr (acc @ take need (stream r))), r') \<and>
          stream r' = drop need (stream r) \<and> same r r'"
proof (induction fuel arbitrary: need acc r)
  case (Suc fuel)
  show ?case
  proof (cases "need = 0")
    case False
    obtain b e r1 where rd: "rd need r = (b, e, r1)" by (cases "rd need r")
    from Suc.prems False have ne: "stream r \<noteq> []" by auto
    with Suc.prems False have d: "e = None" "b \<noteq> []" "length b \<le> need" "stream r = b @ stream r1"
      using read_data [OF _ _ ne rd] by auto
    have s1: "same r r1" using read_frame [OF Suc.prems(1) rd] by (simp add: same_def)
    show ?thesis
    proof (cases "need \<le> length b")
      case True
      with rd d False s1 show ?thesis by auto
    next
      case False
      from d(2) have "0 < length b" by simp
      with Suc.prems(2) have "need - length b \<le> fuel" by arith
      moreover have "need - length b \<le> length (stream r1)" "inv r1"
        using Suc.prems(3) d(4) s1 by (simp_all add: same_def)
      ultimately obtain r' where "ReadFull_loop rd fuel (need - length b) (acc @ b) r1
          = (Ret (Inr ((acc @ b) @ take (need - length b) (stream r1))), r')"
        "stream r' = drop (need - length b) (stream r1)" "same r1 r'"
        using Suc.IH [of r1 "need - length b" "acc @ b"] by blast
      with rd d False \<open>need \<noteq> 0\<close> s1 show ?thesis
        by (auto intro: same_trans)
    qed
  qed (use Suc.prems in \<open>simp add: same_def\<close>)
qed (simp add: same_def)

lemma ReadFull_loop_short:
  "inv r \<Longrightarrow> need \<le> fuel \<Longrightarrow> length (stream r) < need \<Longrightarrow>
     \<exists>r'. ReadFull_loop rd fuel need acc r =
            (Ret (Inl (if acc @ stream r \<noteq> [] \<and> final r = EOF then UnexpectedEOF else final r)), r') \<and>
          stream r' = [] \<and> same r r'"
proof (induction fuel arbitrary: need acc r)
  case (Suc fuel)
  obtain b e r1 where rd: "rd need r = (b, e, r1)" by (cases "rd need r")
  have s1: "same r r1" using read_frame [OF Suc.prems(1) rd] by (simp add: same_def)
  show ?case
  proof (cases "stream r = []")
    case True
    with read_end [OF Suc.prems(1) _ True rd] Suc.prems rd s1 show ?thesis by auto
  next
    case False
    with read_data [OF Suc.prems(1) _ False rd] Suc.prems
    have d: "e = None" "b \<noteq> []" "stream r = b @ stream r1" by auto
    from d(2) have "0 < length b" by simp
    with Suc.prems(2) have "need - length b \<le> fuel" by arith
    moreover have "length (stream r1) < need - length b" using Suc.prems(3) d(3) by simp
    ultimately obtain r' where "ReadFull_loop rd fuel (need - length b) (acc @ b) r1 =
        (Ret (Inl (if (acc @ b) @ stream r1 \<noteq> [] \<and> final r1 = EOF then UnexpectedEOF else final r1)), r')"
      "stream r' = []" "same r1 r'"
      using Suc.IH [of r1 "need - length b" "acc @ b"] s1 unfolding same_def by blast
    moreover have "final r1 = final r" using s1 by (simp add: same_def)
    ultimately show ?thesis
      using rd d Suc.prems s1 by (auto intro: same_trans)
  qed
qed simp

lemma readFull_ok:
  assumes "inv r" "n \<le> length (stream r)"
  shows "\<exists>r'. readFull rd n r = (Ret (take n (stream r)), r') \<and> stream r' = drop n (stream r) \<and> same r r'"
  using ReadFull_loop_ok [OF assms(1) order_refl assms(2), of "[]"] by (auto simp: readFull_def)

lemma readFull_short:
  assumes "inv r" "length (stream r) < n"
  shows "\<exists>r'. readFull rd n r =
      (Exc (if stream r \<noteq> [] \<and> final r = EOF then UnexpectedEOF else final r), r') \<and> stream r' = [] \<and> same r r'"
  using ReadFull_loop_short [OF assms(1) order_refl assms(2), of "[]"] by (auto simp: readFull_def)

lemma readFull_Ret_iff:
  assumes "inv r" "readFull rd n r = (Ret b, r')"
  shows "b = take n (stream r) \<and> length b = n \<and> stream r = b @ stream r' \<and> same r r'"
proof (cases "n \<le> length (stream r)")
  case True
  with readFull_ok [OF assms(1) True] assms(2) show ?thesis by auto
next
  case False
  with readFull_short [OF assms(1), of n] assms(2) show ?thesis by auto
qed

lemma readFull_same: "inv r \<Longrightarrow> readFull rd n r = (x, r') \<Longrightarrow> same r r'"
  using readFull_ok [of r n] readFull_short [of r n]
  by (cases "n \<le> length (stream r)") auto

lemma readFull_no_panic: "inv r \<Longrightarrow> readFull rd n r \<noteq> (Pan p, r')"
  using readFull_ok [of r n] readFull_short [of r n]
  by (cases "n \<le> length (stream r)") auto

end

interpretation bytes_rd: io_reader bytes_read "\<lambda>r. r" "\<lambda>_. EOF" "\<lambda>_. True" "\<lambda>_. ()"
  by unfold_locales (auto simp: bytes_read_def split: if_splits)

section \<open>Connections keep the reader contract\<close>

lemma concat_dropWhile_Nil: "concat (dropWhile (\<lambda>s. s = []) ss) = concat ss"
  by (induction ss) auto

lemma raw_read_data:
  assumes "0 < n" "concat (segs r) \<noteq> []" "raw_read n r = (b, e, r')"
  shows "e = None \<and> b \<noteq> [] \<and> length b \<le> n \<and> concat (segs r) = b @ concat (segs r')"
proof -
  obtain s ss where d: "dropWhile (\<lambda>s. s = []) (segs r) = s # ss" "s \<noteq> []"
    using assms(2) by (metis (mono_tags, lifting) concat.simps(1) concat_dropWhile_Nil hd_dropWhile list.exhaust list.sel(1))
  then have "concat (segs r) = s @ concat ss" by (metis concat.simps(2) concat_dropWhile_Nil)
  with assms d show ?thesis by (auto simp: raw_read_def)
qed

lemma raw_read_end:
  assumes "0 < n" "concat (segs r) = []" "raw_read n r = (b, e, r')"
  shows "e = Some (fin r) \<and> b = [] \<and> concat (segs r') = []"
proof -
  have "dropWhile (\<lambda>s. s = []) (segs r) = []" using assms(2) by auto
  with assms show ?thesis by (auto simp: raw_read_def)
qed

lemma raw_read_frame: "raw_read n r = (b, e, r') \<Longrightarrow> \<exists>ss. r' = r\<lparr>segs := ss\<rparr>"
  by (cases r) (auto simp: raw_read_def split: if_splits list.splits)

lemma bufio_size_pos [simp]: "0 < bufio_size"
  by (simp add: bufio_size_def)

lemma conn_read_data:
  "0 < n \<Longrightarrow> conn_stream c \<noteq> [] \<Longrightarrow> conn_read c n = (b, e, c') \<Longrightarrow>
     e = None \<and> b \<noteq> [] \<and> length b \<le> n \<and> conn_stream c = b @ conn_stream c'"
proof (induction c arbitrary: n b e c')
  case (RawC r)
  obtain b1 e1 r1 where rr: "raw_read n r = (b1, e1, r1)" by (cases "raw_read n r")
  with RawC.prems have "b = b1" "e = e1" "c' = RawC r1" "concat (segs r) \<noteq> []" by auto
  with raw_read_data [OF RawC.prems(1) _ rr] show ?case by simp
next
  case (TunnelC buf c)
  show ?case
  proof (cases "buf = []")
    case True
    with TunnelC.prems have ne: "conn_stream c \<noteq> []" by simp
    obtain b1 e1 c1 where r1: "conn_read c n = (b1, e1, c1)" by (cases "conn_read c n")
    obtain b2 e2 c2 where r2: "conn_read c bufio_size = (b2, e2, c2)" by (cases "conn_read c bufio_size")
    show ?thesis
    proof (cases "bufio_size \<le> n")
      case big: True
      with TunnelC.prems True r1 have "b = b1" "e = e1" "c' = TunnelC [] c1" by auto
      with TunnelC.IH [OF TunnelC.prems(1) ne r1] True show ?thesis by simp
    next
      case False
      note i2 = TunnelC.IH [OF bufio_size_pos ne r2]
      with TunnelC.prems True r2 False have "b = take n b2" "e = None" "c' = TunnelC (drop n b2) c2" by auto
      with i2 True TunnelC.prems(1) show ?thesis by simp
    qed
  qed (use TunnelC.prems in auto)
qed

lemma conn_read_end:
  "0 < n \<Longrightarrow> conn_stream c = [] \<Longrightarrow> conn_read c n = (b, e, c') \<Longrightarrow>
     e = Some (conn_fin c) \<and> b = [] \<and> conn_stream c' = []"
proof (induction c arbitrary: n b e c')
  case (RawC r)
  obtain b1 e1 r1 where rr: "raw_read n r = (b1, e1, r1)" by (cases "raw_read n r")
  with RawC.prems have "b = b1" "e = e1" "c' = RawC r1" "concat (segs r) = []" by auto
  with raw_read_end [OF RawC.prems(1) _ rr] show ?case by (simp add: conn_fin_def)
next
  case (TunnelC buf c)
  have fin: "conn_fin (TunnelC buf c) = conn_fin c" by (simp add: conn_fin_def)
  obtain b1 e1 c1 where r1: "conn_read c n = (b1, e1, c1)" by (cases "conn_read c n")
  obtain b2 e2 c2 where r2: "conn_read c bufio_size = (b2, e2, c2)" by (cases "conn_read c bufio_size")
  from TunnelC.prems have ne: "conn_stream c = []" and buf: "buf = []" by simp_all
  show ?case
  proof (cases "bufio_size \<le> n")
    case True
    with TunnelC.prems buf r1 have "b = b1" "e = e1" "c' = TunnelC [] c1" by auto
    with TunnelC.IH [OF TunnelC.prems(1) ne r1] fin show ?thesis by simp
  next
    case False
    note i2 = TunnelC.IH [OF bufio_size_pos ne r2]
    with TunnelC.prems buf r2 False have "b = []" "e = e2" "c' = TunnelC [] c2" by auto
    with i2 fin show ?thesis by simp
  qed
qed

lemma conn_read_frame: "conn_read c n = (b, e, c') \<Longrightarrow> \<exists>ss. conn_raw c' = (conn_raw c)\<lparr>segs := ss\<rparr>"
proof (induction c arbitrary: n b e c')
  case (RawC r)
  then show ?case using raw_read_frame [of n r] by (auto split: prod.splits)
next
  case (TunnelC buf c)
  obtain b1 e1 c1 where r1: "conn_read c n = (b1, e1, c1)" by (cases "conn_read c n")
  obtain b2 e2 c2 where r2: "conn_read c bufio_size = (b2, e2, c2)" by (cases "conn_read c bufio_size")
  have "\<exists>ss. conn_raw c = (conn_raw c)\<lparr>segs := ss\<rparr>"
    by (rule exI [of _ "segs (conn_raw c)"]) simp
  with TunnelC.prems r1 r2 TunnelC.IH [OF r1] TunnelC.IH [OF r2] show ?case
    by (auto split: if_splits)
qed

interpretation conn_rd: io_reader "w_read k" "\<lambda>w. conn_stream (w_conn k w)" "\<lambda>w. conn_fin (w_conn k w)"
    "conn_open k" "unread_rest k" for k
proof
  fix r n b e r'
  assume r: "conn_open k r" "w_read k n r = (b, e, r')"
  obtain b1 e1 c1 where c: "conn_read (w_conn k r) n = (b1, e1, c1)" by (cases "conn_read (w_conn k r) n")
  with r have r': "b = b1" "e = e1" "r' = r\<lparr>heap := (heap r)(k \<mapsto> c1)\<rparr>" by (auto simp: w_read_def)
  show "e = None \<and> b \<noteq> [] \<and> length b \<le> n \<and> conn_stream (w_conn k r) = b @ conn_stream (w_conn k r')"
    if "0 < n" "conn_stream (w_conn k r) \<noteq> []"
    using conn_read_data [OF that c] r' by (simp add: w_conn_def)
  show "e = Some (conn_fin (w_conn k r)) \<and> b = [] \<and> conn_stream (w_conn k r') = []"
    if "0 < n" "conn_stream (w_conn k r) = []"
    using conn_read_end [OF that c] r' by (simp add: w_conn_def)
  from conn_read_frame [OF c] obtain ss where "conn_raw c1 = (conn_raw (w_conn k r))\<lparr>segs := ss\<rparr>" by blast
  with r(1) r' show "conn_open k r' \<and> conn_fin (w_conn k r') = conn_fin (w_conn k r) \<and>
      unread_rest k r' = unread_rest k r"
    by (simp add: conn_open_def conn_fin_def w_conn_def unread_rest_def world_rest_def conn_ctl_def)
qed

section \<open>Writing, deadlines and closing\<close>

lemma conn_raw_map [simp]: "conn_raw (conn_map_raw f c) = f (conn_raw c)"
  by (induction c) auto

lemma conn_stream_map [simp]:
  "segs (f (conn_raw c)) = segs (conn_raw c) \<Longrightarrow> conn_stream (conn_map_raw f c) = conn_stream c"
  by (induction c) auto

lemma act_throw_iff [res_simps]:
  "act_throw f s = (Ret u, t) \<longleftrightarrow> f s = (None, t)"
  "act_throw f s = (Exc e, t) \<longleftrightarrow> f s = (Some e, t)"
  "act_throw f s \<noteq> (Pan p, t)"
  by (auto simp: act_throw_def res_simps split: prod.splits)

lemma w_write_open:
  assumes "conn_open k w" "w_write k b w = (e, w')"
  shows "conn_open k w' \<and> conn_stream (w_conn k w') = conn_stream (w_conn k w) \<and>
    conn_fin (w_conn k w') = conn_fin (w_conn k w) \<and> wlog w' = wlog w @ [(k, b)] \<and>
    dials w' = dials w \<and> closed w' = closed w \<and> (\<forall>j. j \<noteq> k \<longrightarrow> heap w' j = heap w j)"
  using assms by (auto simp: w_write_def conn_open_def w_conn_def conn_fin_def split: list.splits)

lemma w_write_reliable:
  assumes "conn_open k w" "werrs (conn_raw (w_conn k w)) = []"
  shows "w_write k b w = (None, w\<lparr>wlog := wlog w @ [(k, b)]\<rparr>)"
  using assms by (simp add: w_write_def)

lemma w_set_deadline_open:
  assumes "conn_open k w" "w_set_deadline k d w = (e, w')"
  shows "conn_open k w' \<and> conn_stream (w_conn k w') = conn_stream (w_conn k w) \<and>
    conn_fin (w_conn k w') = conn_fin (w_conn k w) \<and> wlog w' = wlog w \<and>
    dials w' = dials w \<and> closed w' = closed w \<and> (\<forall>j. j \<noteq> k \<longrightarrow> heap w' j = heap w j)"
  using assms by (auto simp: w_set_deadline_def conn_open_def w_conn_def conn_fin_def split: option.splits)

lemma w_close_simps [simp]:
  "set (closed (w_close k w)) = insert k (set (closed w))" "dials (w_close k w) = dials w"
  "wlog (w_close k w) = wlog w" "heap (w_close k w) = heap w"
  by (auto simp: w_close_def)

section \<open>What an exchange on one connection leaves alone\<close>

text \<open>
  \<open>touched k w w'\<close>: from \<open>w\<close> to \<open>w'\<close> only connection \<open>k\<close> was used, and it is still open.
\<close>

definition touched :: "nat \<Rightarrow> world \<Rightarrow> world \<Rightarrow> bool" where
  "touched k w w' \<longleftrightarrow> conn_open k w' \<and> conn_fin (w_conn k w') = conn_fin (w_conn k w) \<and>
     dials w' = dials w \<and> closed w' = closed w \<and> (\<forall>j. j \<noteq> k \<longrightarrow> heap w' j = heap w j)"

lemma touched_refl: "conn_open k w \<Longrightarrow> touched k w w"
  by (simp add: touched_def)

lemma touched_open: "touched k w w' \<Longrightarrow> conn_open k w'"
  by (simp add: touched_def)

lemma touched_trans: "touched k w w' \<Longrightarrow> touched k w' w'' \<Longrightarrow> touched k w w''"
  by (simp add: touched_def)

lemma same_touched:
  assumes "conn_open k w" "conn_rd.same k w w'"
  shows "touched k w w'" "wlog w' = wlog w" "conn_ctl (w_conn k w') = conn_ctl (w_conn k w)"
proof -
  from assms have s: "conn_open k w'" "conn_fin (w_conn k w') = conn_fin (w_conn k w)"
    and r: "world_rest k w' = world_rest k w" and c: "conn_ctl (w_conn k w') = conn_ctl (w_conn k w)"
    by (auto simp: conn_rd.same_def unread_rest_def)
  have "(heap w')(k := None) = (heap w)(k := None)"
    and eq: "dials w' = dials w" "closed w' = closed w" "wlog w' = wlog w"
    using arg_cong [OF r, of heap] arg_cong [OF r, of dials] arg_cong [OF r, of closed] arg_cong [OF r, of wlog]
    by (simp_all add: world_rest_def)
  then have "\<forall>j. j \<noteq> k \<longrightarrow> heap w' j = heap w j" by (metis fun_upd_apply)
  with s c eq show "touched k w w'" "wlog w' = wlog w" "conn_ctl (w_conn k w') = conn_ctl (w_conn k w)"
    by (auto simp: touched_def)
qed

lemma readFull_conn:
  assumes "conn_open k w" "readFull (w_read k) n w = (x, w')"
  shows "touched k w w'" "wlog w' = wlog w" "conn_ctl (w_conn k w') = conn_ctl (w_conn k w)"
  using same_touched [OF assms(1) conn_rd.readFull_same [OF assms]] by simp_all

lemma keeps_readFull [keeps]: "act_keeps (touched k w) (readFull (w_read k) n)"
  using readFull_conn(1) conn_rd.readFull_no_panic
  by (intro act_keepsI) (metis touched_open touched_trans)

lemma keeps_write [keeps]: "act_keeps (touched k w) (act_throw (w_write k b))"
proof (rule act_keepsI)
  fix s x s' assume s: "touched k w s" "act_throw (w_write k b) s = (x, s')"
  obtain e t where "w_write k b s = (e, t)" by (cases "w_write k b s")
  with s w_write_open [OF touched_open [OF s(1)] this] show "touched k w s' \<and> (\<forall>p. x \<noteq> Pan p)"
    by (auto simp: act_throw_def touched_def res_simps)
qed

lemma keeps_set_deadline [keeps]: "act_keeps (touched k w) (act_throw (w_set_deadline k d))"
proof (rule act_keepsI)
  fix s x s' assume s: "touched k w s" "act_throw (w_set_deadline k d) s = (x, s')"
  obtain e t where "w_set_deadline k d s = (e, t)" by (cases "w_set_deadline k d s")
  with s w_set_deadline_open [OF touched_open [OF s(1)] this] show "touched k w s' \<and> (\<forall>p. x \<noteq> Pan p)"
    by (auto simp: act_throw_def touched_def res_simps)
qed

lemma keeps_applyDeadline [keeps]: "act_keeps (touched k w) (applyDeadline cx k)"
  unfolding applyDeadline_def by (auto split: option.split intro!: keeps)

section \<open>The connector contract\<close>

text \<open>
  What a caller relies on when it dials through any connector of a chain: the operating system sees at
  most one dial, of \<open>entry\<close> of what was asked for; a dial never panics or throws; a connection it returns is
  new and open; every other connection made on the way is closed; and connections that were there before
  are left alone.
\<close>

definition world_ok :: "world \<Rightarrow> bool" where
  "world_ok w \<longleftrightarrow> (\<forall>k. heap w k \<noteq> None \<or> k \<in> set (closed w) \<longrightarrow> k < length (dials w))"

definition old_kept :: "world \<Rightarrow> world \<Rightarrow> bool" where
  "old_kept w w' \<longleftrightarrow> (\<forall>j < length (dials w). heap w' j = heap w j \<and> (j \<in> set (closed w') \<longleftrightarrow> j \<in> set (closed w)))"

text \<open>The connections made since \<open>w\<close> that are still open in \<open>w'\<close>.\<close>

definition new_open :: "world \<Rightarrow> world \<Rightarrow> nat set" where
  "new_open w w' = {j. length (dials w) \<le> j \<and> conn_open j w'}"

locale connector_contract =
  fixes dial :: "(world, nat) connector"
    and entry :: "string \<Rightarrow> string \<Rightarrow> string \<times> string"
  assumes dial_answers: "world_ok w \<Longrightarrow> dial cx nw addr w = (x, w') \<Longrightarrow> \<exists>r. x = Ret r"
    and dial_world: "world_ok w \<Longrightarrow> dial cx nw addr w = (x, w') \<Longrightarrow> world_ok w' \<and> old_kept w w'"
    and dial_out: "world_ok w \<Longrightarrow> dial cx nw addr w = (x, w') \<Longrightarrow>
      dials w' = dials w \<or> dials w' = dials w @ [entry nw addr]"
    and dial_opens: "world_ok w \<Longrightarrow> dial cx nw addr w = (Ret (Inr k), w') \<Longrightarrow> new_open w w' = {k}"
    and dial_fails: "world_ok w \<Longrightarrow> dial cx nw addr w = (Ret (Inl e), w') \<Longrightarrow> new_open w w' = {}"
begin

lemma dial_open: "world_ok w \<Longrightarrow> dial cx nw addr w = (Ret (Inr k), w') \<Longrightarrow> conn_open k w' \<and> length (dials w) \<le> k"
  using dial_opens [of w cx nw addr k w'] by (auto simp: new_open_def)

end

lemma touched_world:
  assumes "touched k w w'" "world_ok w" "conn_open k w"
  shows "world_ok w'" "new_open v w' = new_open v w" "k \<ge> length (dials v) \<Longrightarrow> old_kept v w \<Longrightarrow> old_kept v w'"
proof -
  from assms show "world_ok w'"
    by (auto simp: world_ok_def touched_def conn_open_def) (metis option.distinct(1))+
  from assms have "conn_open j w' = conn_open j w" for j
    by (cases "j = k") (auto simp: touched_def conn_open_def)
  then show "new_open v w' = new_open v w" by (simp add: new_open_def)
  from assms show "k \<ge> length (dials v) \<Longrightarrow> old_kept v w \<Longrightarrow> old_kept v w'"
    by (auto simp: old_kept_def touched_def)
qed

lemma close_world:
  assumes "world_ok w" "k < length (dials w)"
  shows "world_ok (w_close k w)" "new_open v (w_close k w) = new_open v w - {k}"
    "k \<ge> length (dials v) \<Longrightarrow> old_kept v w \<Longrightarrow> old_kept v (w_close k w)"
  using assms by (auto simp: world_ok_def new_open_def conn_open_def old_kept_def)

lemma NewDirectConnector_spec:
  assumes "world_ok w" "NewDirectConnector env cx nw addr w = (x, w')"
  shows "\<exists>r. x = Ret r" "world_ok w'" "old_kept w w'" "dials w' = dials w @ [(nw, addr)]"
    "x = Ret (Inr k) \<Longrightarrow> new_open w w' = {k} \<and> k = length (dials w)" "x = Ret (Inl e) \<Longrightarrow> new_open w w' = {}"
proof -
  from assms(1) have b: "heap w j = Some c \<Longrightarrow> j < length (dials w)" for j c by (auto simp: world_ok_def)
  then have n: "\<not> j < length (dials w) \<Longrightarrow> heap w j = None" for j by fastforce
  from assms(1) have m: "j \<in> set (closed w) \<Longrightarrow> j < length (dials w)" for j by (auto simp: world_ok_def)
  show "\<exists>r. x = Ret r" "world_ok w'" "old_kept w w'" "dials w' = dials w @ [(nw, addr)]"
    "x = Ret (Inr k) \<Longrightarrow> new_open w w' = {k} \<and> k = length (dials w)" "x = Ret (Inl e) \<Longrightarrow> new_open w w' = {}"
    using assms(2) n
    by (auto simp: NewDirectConnector_def world_ok_def old_kept_def new_open_def conn_open_def Let_def
        less_Suc_eq split: sum.splits if_splits dest: b m)
qed

interpretation direct: connector_contract "NewDirectConnector env" Pair for env
  by unfold_locales (auto dest: NewDirectConnector_spec)

section \<open>Transcripts\<close>

text \<open>
  \<open>advance k w w' c out\<close>: from \<open>w\<close> to \<open>w'\<close> connection \<open>k\<close> delivered exactly the bytes \<open>c\<close>, the writes on it were \<open>out\<close>,
  and nothing else happened. \<open>ready\<close>: writes and deadlines on the connection succeed.
\<close>

definition advance :: "nat \<Rightarrow> world \<Rightarrow> world \<Rightarrow> bytes \<Rightarrow> bytes list \<Rightarrow> bool" where
  "advance k w w' c out \<longleftrightarrow> touched k w w' \<and> conn_stream (w_conn k w) = c @ conn_stream (w_conn k w') \<and>
     wlog w' = wlog w @ map (Pair k) out"

definition ready :: "nat \<Rightarrow> world \<Rightarrow> bool" where
  "ready k w \<longleftrightarrow> conn_open k w \<and> werrs (conn_raw (w_conn k w)) = [] \<and> dlerr (conn_raw (w_conn k w)) = None"

lemma ready_open: "ready k w \<Longrightarrow> conn_open k w"
  by (simp add: ready_def)

lemma advance_refl: "conn_open k w \<Longrightarrow> advance k w w [] []"
  by (simp add: advance_def touched_refl)

lemma advance_open: "advance k w w' c out \<Longrightarrow> conn_open k w'"
  by (simp add: advance_def touched_def)

lemma advance_trans:
  "advance k w w1 c1 o1 \<Longrightarrow> advance k w1 w2 c2 o2 \<Longrightarrow> advance k w w2 (c1 @ c2) (o1 @ o2)"
  by (auto simp: advance_def intro: touched_trans)

lemma write_advance:
  assumes "conn_open k w" "w_write k b w = (e, w')"
  shows "advance k w w' [] [b]"
  using w_write_open [OF assms] by (auto simp: advance_def touched_def)

lemma set_deadline_advance:
  assumes "conn_open k w" "w_set_deadline k d w = (e, w')"
  shows "advance k w w' [] []"
  using w_set_deadline_open [OF assms] by (auto simp: advance_def touched_def)

lemma applyDeadline_advance:
  "conn_open k w \<Longrightarrow> applyDeadline cx k w = (Ret u, w') \<Longrightarrow> advance k w w' [] []"
  by (auto simp: applyDeadline_def res_simps advance_refl intro: set_deadline_advance split: option.splits)

lemma readFull_advance:
  assumes "conn_open k w" "readFull (w_read k) n w = (Ret b, w')"
  shows "advance k w w' b []" "length b = n"
proof -
  from conn_rd.readFull_Ret_iff [OF assms]
  have "conn_stream (w_conn k w) = b @ conn_stream (w_conn k w')" and len: "length b = n" by blast+
  with readFull_conn [OF assms] show "advance k w w' b []" "length b = n" by (simp_all add: advance_def)
qed

lemma same_advanceD:
  assumes "conn_open k w" "conn_rd.same k w w'"
  shows "touched k w w'" "wlog w' = wlog w" "ready k w \<Longrightarrow> ready k w'"
  using same_touched [OF assms] by (auto simp: ready_def conn_ctl_def touched_def)

lemma ready_write:
  assumes "ready k w"
  shows "\<exists>w'. act_throw (w_write k b) w = (Ret (), w') \<and> ready k w' \<and> advance k w w' [] [b]"
  using assms w_write_reliable [of k w b] write_advance [of k w b]
  by (auto simp: ready_def res_simps conn_open_def w_conn_def)

lemma ready_set_deadline:
  assumes "ready k w"
  shows "\<exists>w'. act_throw (w_set_deadline k d) w = (Ret (), w') \<and> ready k w' \<and> advance k w w' [] [] \<and>
    deadline (conn_raw (w_conn k w')) = d"
  using assms set_deadline_advance [of k w d]
  by (auto simp: ready_def res_simps w_set_deadline_def conn_open_def w_conn_def)

lemma ready_applyDeadline:
  "ready k w \<Longrightarrow> \<exists>w'. applyDeadline cx k w = (Ret (), w') \<and> ready k w' \<and> advance k w w' [] []"
  using ready_set_deadline [of k w] by (auto simp: applyDeadline_def ready_def advance_refl split: option.splits)

lemma ready_readFull:
  assumes "ready k w" "conn_stream (w_conn k w) = b @ tail" "n = length b"
  shows "\<exists>w'. readFull (w_read k) n w = (Ret b, w') \<and> ready k w' \<and> advance k w w' b [] \<and>
    conn_stream (w_conn k w') = tail"
proof -
  from assms conn_rd.readFull_ok [of k w n] obtain w' where
    w': "readFull (w_read k) n w = (Ret b, w')" "conn_stream (w_conn k w') = tail"
    by (auto simp: ready_def)
  from readFull_conn [OF ready_open [OF assms(1)] w'(1)] readFull_advance [OF ready_open [OF assms(1)] w'(1)] assms(1) w'
  show ?thesis by (auto simp: ready_def touched_def conn_ctl_def)
qed

section \<open>Dialling a proxy\<close>

text \<open>
  The shape the proxy connectors share: dial the proxy over the connector below, then negotiate on the new
  connection with \<^verbatim>\<open>defer CloseOnThrow(conn)\<close> in force.
\<close>

definition dial_then :: "(world, nat) connector \<Rightarrow> ctx \<Rightarrow> string \<Rightarrow> (nat \<Rightarrow> (world, nat) act) \<Rightarrow> (world, nat) act" where
  "dial_then dial cx addr body =
     act_bind (act_bind (dial cx ''tcp'' addr) (\<lambda>x. act_lift (Throw2 x))) (\<lambda>conn.
       CloseOnThrow (w_close conn) (body conn))"

definition negotiates :: "(nat \<Rightarrow> (world, nat) act) \<Rightarrow> bool" where
  "negotiates body \<longleftrightarrow> (\<forall>k w. act_keeps (touched k w) (body k)) \<and> (\<forall>k w r w'. body k w = (Ret r, w') \<longrightarrow> r = k)"

context connector_contract
begin

lemma dial_then_cases:
  assumes "world_ok w" "negotiates body" "dial_then dial cx addr body w = (x, w')"
  obtains (refused) e where "dial cx ''tcp'' addr w = (Ret (Inl e), w')" "x = Exc e"
  | (failed) k w1 w2 e where "dial cx ''tcp'' addr w = (Ret (Inr k), w1)" "body k w1 = (Exc e, w2)"
      "touched k w1 w2" "x = Exc e" "w' = w_close k w2"
  | (opened) k w1 where "dial cx ''tcp'' addr w = (Ret (Inr k), w1)" "body k w1 = (Ret k, w')" "touched k w1 w'" "x = Ret k"
proof -
  obtain r w1 where d: "dial cx ''tcp'' addr w = (Ret r, w1)"
    using dial_answers [OF assms(1)] by (metis surj_pair)
  show thesis
  proof (cases r)
    case (Inl e)
    with d assms(3) refused show thesis by (simp add: dial_then_def act_bind_def)
  next
    case (Inr k)
    obtain y w2 where b: "body k w1 = (y, w2)" by (cases "body k w1")
    have "conn_open k w1" using dial_open [OF assms(1)] d Inr by blast
    with b assms(2) have t: "touched k w1 w2" "\<forall>p. y \<noteq> Pan p"
      using act_keepsD [of "touched k w1" "body k" w1 y w2] touched_refl by (auto simp: negotiates_def)
    have x: "(x, w') = CloseOnThrow (w_close k) (body k) w1"
      using d Inr assms(3) by (simp add: dial_then_def act_bind_def)
    show thesis
    proof (cases y)
      case (Ret r')
      moreover from this b assms(2) have "r' = k" unfolding negotiates_def by blast
      ultimately show thesis using opened d Inr b t x by (simp add: CloseOnThrow_def)
    qed (use failed d Inr b t x in \<open>auto simp: CloseOnThrow_def\<close>)
  qed
qed

lemma dial_then_spec:
  assumes "world_ok w" "negotiates body" "dial_then dial cx addr body w = (x, w')"
  shows "x \<noteq> Pan p \<and> world_ok w' \<and> old_kept w w' \<and> (dials w' = dials w \<or> dials w' = dials w @ [entry ''tcp'' addr]) \<and>
    (x = Ret k \<longrightarrow> new_open w w' = {k}) \<and> (x = Exc e \<longrightarrow> new_open w w' = {})"
  using assms
proof (cases rule: dial_then_cases)
  case (refused e)
  with dial_world [OF assms(1)] dial_out [OF assms(1)] dial_fails [OF assms(1)]
  show ?thesis by auto
next
  case (failed j w1 w2 e')
  note ok = dial_open [OF assms(1) failed(1)] and wo = dial_world [OF assms(1) failed(1)]
  note t = touched_world [OF failed(3)]
  have j: "world_ok w2" "j < length (dials w2)" "dials w2 = dials w1"
    using ok wo failed(3) t(1) by (auto simp: touched_def world_ok_def conn_open_def)
  note c = close_world [OF j(1,2)]
  show ?thesis
    using failed ok wo c t dial_out [OF assms(1) failed(1)] dial_opens [OF assms(1) failed(1)] j by auto
next
  case (opened j w1)
  note ok = dial_open [OF assms(1) opened(1)] and wo = dial_world [OF assms(1) opened(1)]
  note t = touched_world [OF opened(3)]
  show ?thesis
    using opened ok wo t dial_out [OF assms(1) opened(1)] dial_opens [OF assms(1) opened(1)]
    by (auto simp: touched_def)
qed

end

text \<open>The error of a proxy connector's \<^verbatim>\<open>DialContext\<close> names the destination and the hop.\<close>

definition via_error :: "string \<Rightarrow> ProxyAddr \<Rightarrow> err + 'c \<Rightarrow> err + 'c" where
  "via_error address proxy x =
     (case x of
        Inl e \<Rightarrow> Inl (Wrapped ''%s via %s: %w'' [address, pa_Address proxy] e)
      | Inr c \<Rightarrow> Inr c)"

lemma via_error_iff [simp]:
  "via_error a p x = Inr c \<longleftrightarrow> x = Inr c"
  "via_error a p x = Inl e \<longleftrightarrow> (\<exists>e'. x = Inl e' \<and> e = Wrapped ''%s via %s: %w'' [a, pa_Address p] e')"
  by (auto simp: via_error_def split: sum.splits)

text \<open>A connector that answers with the outcome of a proxy dial keeps the contract of the connector below.\<close>

definition hop :: "(world, nat) connector \<Rightarrow> ProxyAddr \<Rightarrow> (ctx \<Rightarrow> string \<Rightarrow> (nat \<Rightarrow> (world, nat) act) res) \<Rightarrow> (world, nat) connector" where
  "hop dial proxy body cx network address =
     act_bind (act_try (act_bind (act_lift (body cx address)) (dial_then dial cx (pa_Address proxy)))) (\<lambda>x.
       act_ret (via_error address proxy x))"

lemma hop_contract:
  assumes "connector_contract dial entry" "\<And>cx a p. body cx a \<noteq> Pan p" "\<And>cx a b. body cx a = Ret b \<Longrightarrow> negotiates b"
  shows "connector_contract (hop dial proxy body) (\<lambda>_ _. entry ''tcp'' (pa_Address proxy))"
proof -
  have spec: "(\<exists>r. x = Ret r) \<and> world_ok w' \<and> old_kept w w' \<and>
      (dials w' = dials w \<or> dials w' = dials w @ [entry ''tcp'' (pa_Address proxy)]) \<and>
      (x = Ret (Inr k) \<longrightarrow> new_open w w' = {k}) \<and> (x = Ret (Inl e) \<longrightarrow> new_open w w' = {})"
    if w: "world_ok w" and h: "hop dial proxy body cx nw a w = (x, w')" for w cx nw a x w' k e
  proof (cases "body cx a")
    case (Ret b)
    obtain y w1 where d: "dial_then dial cx (pa_Address proxy) b w = (y, w1)"
      by (cases "dial_then dial cx (pa_Address proxy) b w")
    note s = connector_contract.dial_then_spec [OF assms(1) w assms(3) [OF Ret] d]
    have "w' = w1 \<and> (case y of Ret j \<Rightarrow> x = Ret (Inr j) |
        Exc f \<Rightarrow> x = Ret (Inl (Wrapped ''%s via %s: %w'' [a, pa_Address proxy] f)) | Pan p \<Rightarrow> x = Pan p)"
      using h d Ret by (cases y) (auto simp: hop_def act_bind_def act_try_def via_error_def)
    with s show ?thesis by (cases y) auto
  next
    case (Exc f)
    with h w show ?thesis
      by (auto simp: hop_def act_bind_def act_try_def via_error_def old_kept_def new_open_def conn_open_def world_ok_def)
  qed (use assms(2) in blast)
  show ?thesis by unfold_locales (use spec in blast)+
qed

section \<open>Which connections a computation holds\<close>

text \<open>
  \<open>held v S w\<close>: since \<open>v\<close> exactly the connections \<open>S\<close> were opened and are still open in \<open>w\<close>, and the ones from before are as they were.
\<close>

definition held :: "world \<Rightarrow> nat set \<Rightarrow> world \<Rightarrow> bool" where
  "held v S w \<longleftrightarrow> world_ok w \<and> old_kept v w \<and> new_open v w = S \<and> length (dials v) \<le> length (dials w)"

lemma held_start: "world_ok w \<Longrightarrow> held w {} w"
  by (auto simp: held_def old_kept_def new_open_def conn_open_def world_ok_def)

lemma held_mem: "held v S w \<Longrightarrow> k \<in> S \<Longrightarrow> conn_open k w \<and> length (dials v) \<le> k \<and> k < length (dials w)"
  by (auto simp: held_def new_open_def world_ok_def conn_open_def)

lemma held_touched: "held v S w \<Longrightarrow> k \<in> S \<Longrightarrow> touched k w w' \<Longrightarrow> held v S w'"
  using touched_world(1) [of k w w'] touched_world(2,3) [of k w w' v] held_mem [of v S w k]
  by (auto simp: held_def touched_def)

lemma held_close: "held v S w \<Longrightarrow> k \<in> S \<Longrightarrow> held v (S - {k}) (w_close k w)"
  using close_world(1) [of w k] close_world(2,3) [of w k v] held_mem [of v S w k] by (auto simp: held_def)

lemma held_dial:
  assumes "connector_contract dial en" "held v S w" "dial cx nw addr w = (x, w')"
  shows "(\<exists>k. x = Ret (Inr k) \<and> k \<notin> S \<and> held v (insert k S) w') \<or> (\<exists>e. x = Ret (Inl e) \<and> held v S w')"
proof -
  have w: "world_ok w" using assms(2) by (simp add: held_def)
  note C = connector_contract.dial_world [OF assms(1) w assms(3)] connector_contract.dial_out [OF assms(1) w assms(3)]
  obtain r where r: "x = Ret r" using connector_contract.dial_answers [OF assms(1) w assms(3)] by blast
  have same: "conn_open j w' = conn_open j w" if "j < length (dials w)" for j
    using C(1) that by (simp add: old_kept_def conn_open_def)
  have bound: "conn_open j w \<Longrightarrow> j < length (dials w)" for j using w by (auto simp: world_ok_def conn_open_def)
  have open_eq: "new_open v w' = S \<union> new_open w w'"
    using assms(2) same bound by (auto simp: held_def new_open_def not_less)
  have rest: "world_ok w'" "old_kept v w'" "length (dials v) \<le> length (dials w')"
    using C assms(2) by (auto simp: held_def old_kept_def)
  show ?thesis
  proof (cases r)
    case (Inl e)
    with connector_contract.dial_fails [OF assms(1) w] assms(3) r open_eq rest show ?thesis by (auto simp: held_def)
  next
    case (Inr k)
    with connector_contract.dial_opens [OF assms(1) w] assms(3) r have k: "new_open w w' = {k}" by blast
    then have "length (dials w) \<le> k" by (auto simp: new_open_def)
    then have "k \<notin> S" using held_mem [OF assms(2)] by fastforce
    with k Inr r open_eq rest show ?thesis by (auto simp: held_def)
  qed
qed

end
