(* ===== verification/TextProto.thy ===== *)
theory TextProto
  imports ConnIO
begin

text \<open>
  What \<^verbatim>\<open>src/httpproxy.go\<close> uses of \<^verbatim>\<open>bufio\<close>, \<^verbatim>\<open>net/textproto\<close> and
  \<^verbatim>\<open>encoding/base64\<close>. A \<^verbatim>\<open>bufio.Reader\<close> is its unread buffer and the connection it
  reads from; the lemmas describe every reading function on the stream the two make up together, so that
  how the bytes were cut into segments, and where the 4096-byte buffer ended, does not matter.

  Loops that end because the input is used up run on fuel taken from what is left of the stream; the
  lemmas show that it never runs out.
\<close>

section \<open>bufio\<close>

type_synonym bufio = "bytes \<times> net_conn"

definition bufio_stream :: "bufio \<Rightarrow> bytes" where
  "bufio_stream s = fst s @ conn_stream (snd s)"

text \<open>
  \<^verbatim>\<open>fill\<close>: one read into the free part of the buffer. A connection answers a read with bytes or
  an error, so that the library's retries after empty reads never happen.
\<close>

definition bufio_fill :: "bufio \<Rightarrow> err option \<times> bufio" where
  "bufio_fill s =
     (case s of (buf, c) \<Rightarrow>
      case conn_read c (bufio_size - length buf) of (b, e, c') \<Rightarrow> (e, (buf @ b, c')))"

datatype slice_end = Found | BufferFull | Failed err

text \<open>\<^verbatim>\<open>ReadSlice('\n')\<close>: every fill adds a byte, so one more fill than the buffer is long is enough.\<close>

primrec ReadSlice_loop :: "nat \<Rightarrow> bufio \<Rightarrow> (bytes \<times> slice_end) res \<times> bufio" where
  "ReadSlice_loop 0 s = (Pan ''bufio: no progress'', s)"
| "ReadSlice_loop (Suc fuel) s =
     (case s of (buf, c) \<Rightarrow>
      if 10 \<in> set buf then
        (Ret (takeWhile (\<lambda>b. b \<noteq> 10) buf @ [10], Found), (tl (dropWhile (\<lambda>b. b \<noteq> 10) buf), c))
      else if bufio_size \<le> length buf then (Ret (buf, BufferFull), ([], c))
      else case bufio_fill s of
          (Some e, (buf', c')) \<Rightarrow> (Ret (buf', Failed e), ([], c'))
        | (None, s') \<Rightarrow> ReadSlice_loop fuel s')"

definition ReadSlice :: "(bufio, bytes \<times> slice_end) act" where
  "ReadSlice = ReadSlice_loop (Suc (Suc bufio_size))"

text \<open>\<^verbatim>\<open>ReadLine\<close>: the line without its end, and whether more of it follows.\<close>

definition strip_eol :: "bytes \<Rightarrow> bytes" where
  "strip_eol l =
     (if l \<noteq> [] \<and> last l = 10 then
        (if 2 \<le> length l \<and> last (butlast l) = 13 then butlast (butlast l) else butlast l)
      else l)"

definition bufio_ReadLine :: "(bufio, err + bytes \<times> bool) act" where
  "bufio_ReadLine =
     act_bind ReadSlice (\<lambda>(line, en) s.
       case en of
         BufferFull \<Rightarrow>
           (if line \<noteq> [] \<and> last line = 13 then (Ret (Inr (butlast line, True)), (13 # fst s, snd s))
            else (Ret (Inr (line, True)), s))
       | Failed e \<Rightarrow> (if line = [] then (Ret (Inl e), s) else (Ret (Inr (strip_eol line, False)), s))
       | Found \<Rightarrow> (Ret (Inr (strip_eol line, False)), s))"

definition bufio_Peek1 :: "bufio \<Rightarrow> byte option \<times> bufio" where
  "bufio_Peek1 s =
     (if fst s \<noteq> [] then (Some (hd (fst s)), s)
      else case bufio_fill s of (e, s') \<Rightarrow> (if fst s' = [] then None else Some (hd (fst s')), s'))"

definition bufio_ReadByte :: "bufio \<Rightarrow> byte option \<times> bufio" where
  "bufio_ReadByte s = (case bufio_Peek1 s of (b, s') \<Rightarrow> (b, (tl (fst s'), snd s')))"

section \<open>net/textproto\<close>

text \<open>
  \<^verbatim>\<open>readLineSlice(lim)\<close>: a whole line, however many buffers it takes. \<open>None\<close> is no limit.
\<close>

primrec readLineSlice_loop :: "nat \<Rightarrow> nat option \<Rightarrow> bytes \<Rightarrow> (bufio, err + bytes) act" where
  "readLineSlice_loop 0 lim line s = (Pan ''textproto: no progress'', s)"
| "readLineSlice_loop (Suc fuel) lim line s =
     act_bind bufio_ReadLine (\<lambda>x.
       case x of
         Inl e \<Rightarrow> act_ret (Inl e)
       | Inr (l, isPrefix) \<Rightarrow>
           if (case lim of None \<Rightarrow> False | Some n \<Rightarrow> n < length line + length l)
           then act_ret (Inl (Fmt ''message too large'' []))
           else if isPrefix then readLineSlice_loop fuel lim (line @ l)
           else act_ret (Inr (line @ l))) s"

definition readLineSlice :: "nat option \<Rightarrow> (bufio, err + bytes) act" where
  "readLineSlice lim s = readLineSlice_loop (Suc (length (bufio_stream s))) lim [] s"

definition textproto_ReadLine :: "(bufio, string) act" where
  "textproto_ReadLine =
     act_bind (readLineSlice None) (\<lambda>x. act_lift (Throw2 (map_sum id string_of_bytes x)))"

definition is_blank :: "byte \<Rightarrow> bool" where
  "is_blank b \<longleftrightarrow> b = 32 \<or> b = 9"

definition trim_blank :: "bytes \<Rightarrow> bytes" where
  "trim_blank l = rev (dropWhile is_blank (rev (dropWhile is_blank l)))"

text \<open>\<^verbatim>\<open>skipSpace\<close>: the number of blanks skipped.\<close>

primrec skipSpace_loop :: "nat \<Rightarrow> nat \<Rightarrow> (bufio, nat) act" where
  "skipSpace_loop 0 n s = (Pan ''textproto: no progress'', s)"
| "skipSpace_loop (Suc fuel) n s =
     (case bufio_ReadByte s of
        (None, s') \<Rightarrow> (Ret n, s')
      | (Some b, s') \<Rightarrow>
          if is_blank b then skipSpace_loop fuel (Suc n) s' else (Ret n, (b # fst s', snd s')))"

definition skipSpace :: "(bufio, nat) act" where
  "skipSpace s = skipSpace_loop (Suc (length (bufio_stream s))) 0 s"

definition is_ascii_letter :: "byte \<Rightarrow> bool" where
  "is_ascii_letter b \<longleftrightarrow> 65 \<le> b \<and> b \<le> 90 \<or> 97 \<le> b \<and> b \<le> 122"

text \<open>The look-ahead that lets \<^verbatim>\<open>readContinuedLineSlice\<close> stop without looking for a continuation.\<close>

definition next_is_header :: "bytes \<Rightarrow> bool" where
  "next_is_header buf \<longleftrightarrow> 1 < length buf \<and>
     (is_ascii_letter (buf ! 0) \<or> buf ! 0 = 10 \<or> buf ! 0 = 13 \<and> buf ! 1 = 10)"

primrec continued_loop :: "nat \<Rightarrow> bytes \<Rightarrow> (bufio, bytes) act" where
  "continued_loop 0 acc s = (Pan ''textproto: no progress'', s)"
| "continued_loop (Suc fuel) acc s =
     act_bind skipSpace (\<lambda>n.
       if n = 0 then act_ret acc
       else
         act_bind (readLineSlice None) (\<lambda>x.
           case x of
             Inl e \<Rightarrow> act_ret (acc @ [32])
           | Inr line \<Rightarrow> continued_loop fuel (acc @ [32] @ trim_blank line))) s"

definition readContinuedLineSlice :: "(bufio, err + bytes) act" where
  "readContinuedLineSlice =
     act_bind (readLineSlice None) (\<lambda>x.
       case x of
         Inl e \<Rightarrow> act_ret (Inl e)
       | Inr line \<Rightarrow>
           if line = [] then act_ret (Inr [])
           else if 58 \<notin> set line
           then act_ret (Inl (Fmt ''malformed MIME header: missing colon: %q'' [string_of_bytes line]))
           else (\<lambda>s.
             if next_is_header (fst s) then (Ret (Inr (trim_blank line)), s)
             else act_bind (continued_loop (Suc (length (bufio_stream s))) (trim_blank line))
                    (\<lambda>b. act_ret (Inr b)) s))"

definition valid_field_byte :: "byte \<Rightarrow> bool" where
  "valid_field_byte b \<longleftrightarrow> is_ascii_letter b \<or> 48 \<le> b \<and> b \<le> 57 \<or>
     b \<in> set (bytes_of_string ''!#$%&*+-.^_`|~'') \<or> b = 39"

definition valid_value_byte :: "byte \<Rightarrow> bool" where
  "valid_value_byte b \<longleftrightarrow> b = 9 \<or> 32 \<le> b \<and> b \<noteq> 127"

text \<open>The checks on one field; the map of fields is not used by the program.\<close>

definition check_field :: "bytes \<Rightarrow> err option" where
  "check_field kv =
     (let k = takeWhile (\<lambda>b. b \<noteq> 58) kv; v = tl (dropWhile (\<lambda>b. b \<noteq> 58) kv) in
      if 58 \<in> set kv \<and> k \<noteq> [] \<and> list_all (\<lambda>b. valid_field_byte b \<or> b = 32) k \<and> list_all valid_value_byte v
      then None
      else Some (Fmt ''malformed MIME header line: %s'' [string_of_bytes kv]))"

primrec readMIMEHeader_loop :: "nat \<Rightarrow> (bufio, err option) act" where
  "readMIMEHeader_loop 0 s = (Pan ''textproto: no progress'', s)"
| "readMIMEHeader_loop (Suc fuel) s =
     act_bind readContinuedLineSlice (\<lambda>x.
       case x of
         Inl e \<Rightarrow> act_ret (Some e)
       | Inr kv \<Rightarrow>
           if kv = [] then act_ret None
           else case check_field kv of
               Some e \<Rightarrow> act_ret (Some e)
             | None \<Rightarrow> readMIMEHeader_loop fuel) s"

text \<open>\<^verbatim>\<open>ReadMIMEHeader\<close>, with the two look-aheads at its start (the first one sizes the map).\<close>

definition ReadMIMEHeader :: "(bufio, unit) act" where
  "ReadMIMEHeader s =
     (case bufio_Peek1 s of (_, s0) \<Rightarrow>
      case bufio_Peek1 s0 of (b, s1) \<Rightarrow>
        if (case b of None \<Rightarrow> False | Some x \<Rightarrow> is_blank x) then
          act_bind (readLineSlice (Some 80)) (\<lambda>x.
            case x of
              Inl e \<Rightarrow> act_lift (Throw (Some e))
            | Inr line \<Rightarrow>
                act_lift (Throw (Some (Fmt ''malformed MIME header initial line: %s'' [string_of_bytes line])))) s1
        else act_bind (readMIMEHeader_loop (Suc (length (bufio_stream s1)))) (\<lambda>e. act_lift (Throw e)) s1)"

section \<open>encoding/base64\<close>

definition b64_char :: "nat \<Rightarrow> char" where
  "b64_char n =
     (if n < 26 then char_of (65 + n) else if n < 52 then char_of (71 + n) else if n < 62 then char_of (n - 4)
      else if n = 62 then CHR ''+'' else CHR ''/'')"

fun base64_encode :: "bytes \<Rightarrow> string" where
  "base64_encode (a # b # c # r) =
     (let n = unat a * 65536 + unat b * 256 + unat c in
      [b64_char (n div 262144), b64_char (n div 4096 mod 64), b64_char (n div 64 mod 64), b64_char (n mod 64)]
      @ base64_encode r)"
| "base64_encode [a, b] =
     (let n = unat a * 65536 + unat b * 256 in
      [b64_char (n div 262144), b64_char (n div 4096 mod 64), b64_char (n div 64 mod 64), CHR ''=''])"
| "base64_encode [a] =
     (let n = unat a * 65536 in [b64_char (n div 262144), b64_char (n div 4096 mod 64), CHR ''='', CHR ''=''])"
| "base64_encode [] = []"

section \<open>Reading on the stream\<close>

text \<open>What a reading step leaves alone: only the connection's unread segments change.\<close>

definition bsame :: "bufio \<Rightarrow> bufio \<Rightarrow> bool" where
  "bsame s s' \<longleftrightarrow> length (fst s') \<le> bufio_size \<and> (\<exists>ss. conn_raw (snd s') = (conn_raw (snd s))\<lparr>segs := ss\<rparr>)"

lemma bsame_trans: "bsame s s' \<Longrightarrow> bsame s' s'' \<Longrightarrow> bsame s s''"
  by (auto simp: bsame_def)

lemma bsame_refl: "length (fst s) \<le> bufio_size \<Longrightarrow> bsame s s"
proof -
  have "conn_raw (snd s) = (conn_raw (snd s))\<lparr>segs := segs (conn_raw (snd s))\<rparr>" by simp
  then show "length (fst s) \<le> bufio_size \<Longrightarrow> bsame s s" unfolding bsame_def by blast
qed

lemma bsame_bok: "bsame s s' \<Longrightarrow> length (fst s') \<le> bufio_size"
  by (simp add: bsame_def)

lemma bsame_fin: "bsame s s' \<Longrightarrow> conn_fin (snd s') = conn_fin (snd s)"
  by (auto simp: bsame_def conn_fin_def)

lemma bufio_fill_data:
  assumes "length (fst s) < bufio_size" "conn_stream (snd s) \<noteq> []" "bufio_fill s = (e, s')"
  shows "e = None \<and> (\<exists>b. b \<noteq> [] \<and> fst s' = fst s @ b) \<and> bufio_stream s' = bufio_stream s \<and> bsame s s'"
proof -
  obtain buf c where s: "s = (buf, c)" by (cases s)
  obtain b e1 c1 where r: "conn_read c (bufio_size - length buf) = (b, e1, c1)"
    by (cases "conn_read c (bufio_size - length buf)")
  have "0 < bufio_size - length buf" using assms(1) s by simp
  with conn_read_data [OF this _ r] conn_read_frame [OF r] assms s r show ?thesis
    by (auto simp: bufio_fill_def bufio_stream_def bsame_def)
qed

lemma bufio_fill_end:
  assumes "length (fst s) < bufio_size" "conn_stream (snd s) = []" "bufio_fill s = (e, s')"
  shows "e = Some (conn_fin (snd s)) \<and> fst s' = fst s \<and> bufio_stream s' = bufio_stream s \<and> bsame s s'"
proof -
  obtain buf c where s: "s = (buf, c)" by (cases s)
  obtain b e1 c1 where r: "conn_read c (bufio_size - length buf) = (b, e1, c1)"
    by (cases "conn_read c (bufio_size - length buf)")
  have "0 < bufio_size - length buf" using assms(1) s by simp
  with conn_read_end [OF this _ r] conn_read_frame [OF r] assms s r show ?thesis
    by (auto simp: bufio_fill_def bufio_stream_def bsame_def)
qed

definition slice_spec :: "bufio \<Rightarrow> bytes \<Rightarrow> slice_end \<Rightarrow> bufio \<Rightarrow> bool" where
  "slice_spec s line en s' \<longleftrightarrow> bsame s s' \<and> bufio_stream s = line @ bufio_stream s' \<and>
     (case en of
        Found \<Rightarrow> \<exists>l. line = l @ [10] \<and> 10 \<notin> set l
      | BufferFull \<Rightarrow> length line = bufio_size \<and> 10 \<notin> set line \<and> fst s' = []
      | Failed e \<Rightarrow> 10 \<notin> set line \<and> bufio_stream s' = [] \<and> e = conn_fin (snd s))"

lemma split_at_newline:
  assumes "(10::byte) \<in> set buf"
  shows "buf = (takeWhile (\<lambda>b. b \<noteq> 10) buf @ [10]) @ tl (dropWhile (\<lambda>b. b \<noteq> 10) buf)"
    "10 \<notin> set (takeWhile (\<lambda>b. b \<noteq> 10) buf)"
proof -
  have "dropWhile (\<lambda>b. b \<noteq> 10) buf \<noteq> []" using assms by simp
  then obtain x xs where x: "dropWhile (\<lambda>b. b \<noteq> 10) buf = x # xs" by (cases "dropWhile (\<lambda>b. b \<noteq> 10) buf") auto
  then have "x = 10" by (metis (mono_tags, lifting) hd_dropWhile list.distinct(1) list.sel(1))
  with x takeWhile_dropWhile_id [of "\<lambda>b. b \<noteq> 10" buf]
  show "buf = (takeWhile (\<lambda>b. b \<noteq> 10) buf @ [10]) @ tl (dropWhile (\<lambda>b. b \<noteq> 10) buf)" by simp
  show "10 \<notin> set (takeWhile (\<lambda>b. b \<noteq> 10) buf)" by (auto dest: set_takeWhileD)
qed

lemma ReadSlice_loop_spec:
  "length (fst s) \<le> bufio_size \<Longrightarrow> bufio_size < fuel + length (fst s) \<Longrightarrow>
     \<exists>line en s'. ReadSlice_loop fuel s = (Ret (line, en), s') \<and> slice_spec s line en s'"
proof (induction fuel arbitrary: s)
  case (Suc fuel)
  obtain buf c where s: "s = (buf, c)" by (cases s)
  show ?case
  proof (cases "10 \<in> set buf")
    case True
    note sp = split_at_newline [OF True]
    have "length (tl (dropWhile (\<lambda>b. b \<noteq> 10) buf)) \<le> length buf"
      by (metis diff_le_self length_dropWhile_le length_tl order_trans)
    then have "bsame s (tl (dropWhile (\<lambda>b. b \<noteq> 10) buf), c)"
      using bsame_refl [OF Suc.prems(1)] Suc.prems s by (auto simp: bsame_def)
    with True sp s show ?thesis by (auto simp: slice_spec_def bufio_stream_def)
  next
    case no: False
    show ?thesis
    proof (cases "bufio_size \<le> length buf")
      case True
      with no s Suc.prems bsame_refl [OF Suc.prems(1)] show ?thesis
        by (auto simp: slice_spec_def bufio_stream_def bsame_def)
    next
      case False
      then have room: "length (fst s) < bufio_size" using s by simp
      obtain e s1 where f: "bufio_fill s = (e, s1)" by (cases "bufio_fill s")
      show ?thesis
      proof (cases "conn_stream c = []")
        case True
        with bufio_fill_end [OF room _ f] s no have d: "e = Some (conn_fin c)" "fst s1 = buf"
          "bufio_stream s1 = bufio_stream s" "bsame s s1" by auto
        then have "bsame s ([], snd s1)" by (auto simp: bsame_def)
        with d s no False f True show ?thesis
          by (cases s1) (auto simp: slice_spec_def bufio_stream_def)
      next
        case ne: False
        with bufio_fill_data [OF room _ f] s obtain b where d: "e = None" "b \<noteq> []" "fst s1 = buf @ b"
          "bufio_stream s1 = bufio_stream s" "bsame s s1" by auto
        have "0 < length b" using d(2) by simp
        moreover have "length (fst s1) = length buf + length b" using d(3) by simp
        moreover have "bufio_size < Suc fuel + length buf" using Suc.prems(2) s by simp
        ultimately have "bufio_size < fuel + length (fst s1)" by arith
        from Suc.IH [OF bsame_bok [OF d(5)] this] obtain line en s' where
          "ReadSlice_loop fuel s1 = (Ret (line, en), s')" "slice_spec s1 line en s'" by blast
        moreover have "slice_spec s line en s'" if "slice_spec s1 line en s'"
          using that d bsame_fin [OF d(5)] bsame_trans [OF d(5)]
          by (auto simp: slice_spec_def split: slice_end.splits)
        ultimately show ?thesis using s no False f d(1) by auto
      qed
    qed
  qed
qed simp

lemma ReadSlice_spec:
  "length (fst s) \<le> bufio_size \<Longrightarrow> \<exists>line en s'. ReadSlice s = (Ret (line, en), s') \<and> slice_spec s line en s'"
  unfolding ReadSlice_def by (rule ReadSlice_loop_spec) auto

definition strip_cr :: "bytes \<Rightarrow> bytes" where
  "strip_cr t = (if t \<noteq> [] \<and> last t = 13 then butlast t else t)"

lemma strip_eol_newline: "strip_eol (t @ [10]) = strip_cr t"
proof -
  have "butlast (t @ [10]) = t" "last (t @ [10]) = 10" "2 \<le> length (t @ [10]) \<longleftrightarrow> t \<noteq> []"
    by (cases t; simp)+
  then show ?thesis by (simp only: strip_eol_def strip_cr_def) auto
qed

lemma strip_eol_none: "10 \<notin> set t \<Longrightarrow> strip_eol t = t"
  by (cases t rule: rev_cases) (auto simp: strip_eol_def)

text \<open>\<open>line_spec\<close>: one \<^verbatim>\<open>ReadLine\<close> on the stream.\<close>

definition line_spec :: "bytes \<Rightarrow> err + bytes \<times> bool \<Rightarrow> bytes \<Rightarrow> bool" where
  "line_spec S x S' \<longleftrightarrow>
     (case x of
        Inl e \<Rightarrow> S = [] \<and> S' = []
      | Inr (l, True) \<Rightarrow> S = l @ S' \<and> l \<noteq> [] \<and> 10 \<notin> set l \<and> (last l = 13 \<longrightarrow> (\<exists>r. S' = 13 # r))
      | Inr (l, False) \<Rightarrow>
          (\<exists>t. S = t @ [10] @ S' \<and> 10 \<notin> set t \<and> l = strip_cr t) \<or> 10 \<notin> set S \<and> l = S \<and> S' = [] \<and> S \<noteq> [])"

lemma bufio_ReadLine_spec:
  assumes "length (fst s) \<le> bufio_size"
  shows "\<exists>x s'. bufio_ReadLine s = (Ret x, s') \<and> bsame s s' \<and> line_spec (bufio_stream s) x (bufio_stream s')"
proof -
  obtain line en s1 where r: "ReadSlice s = (Ret (line, en), s1)" and sp: "slice_spec s line en s1"
    using ReadSlice_spec [OF assms] by blast
  have run: "bufio_ReadLine s = (case en of
         BufferFull \<Rightarrow> (if line \<noteq> [] \<and> last line = 13 then (Ret (Inr (butlast line, True)), (13 # fst s1, snd s1))
            else (Ret (Inr (line, True)), s1))
       | Failed e \<Rightarrow> (if line = [] then (Ret (Inl e), s1) else (Ret (Inr (strip_eol line, False)), s1))
       | Found \<Rightarrow> (Ret (Inr (strip_eol line, False)), s1))"
    using r by (simp add: bufio_ReadLine_def)
  show ?thesis
  proof (cases en)
    case Found
    with run sp show ?thesis by (auto simp: slice_spec_def line_spec_def strip_eol_newline)
  next
    case BufferFull
    show ?thesis
    proof (cases "last line = 13")
      case True
      from sp BufferFull have len: "length line = bufio_size" "10 \<notin> set line" "fst s1 = []" by (simp_all add: slice_spec_def)
      then obtain l where l: "line = l @ [13]" "l \<noteq> []" using True
        by (cases line rule: rev_cases; cases "butlast line") (auto simp: bufio_size_def)
      have "bsame s ([13], snd s1)" using sp BufferFull by (auto simp: slice_spec_def bsame_def bufio_size_def)
      with run sp BufferFull l len show ?thesis
        by (auto simp: slice_spec_def line_spec_def bufio_stream_def)
    next
      case False
      with run sp BufferFull show ?thesis
        by (auto simp: slice_spec_def line_spec_def bufio_size_def)
    qed
  next
    case (Failed e)
    with run sp show ?thesis
      by (cases s1) (auto simp: slice_spec_def line_spec_def strip_eol_none)
  qed
qed

lemma strip_cr_append: "t \<noteq> [] \<or> l = [] \<or> last l \<noteq> 13 \<Longrightarrow> strip_cr (l @ t) = l @ strip_cr t"
  by (auto simp: strip_cr_def butlast_append)

definition whole_line_spec :: "nat option \<Rightarrow> bytes \<Rightarrow> bytes \<Rightarrow> err + bytes \<Rightarrow> bytes \<Rightarrow> bool" where
  "whole_line_spec lim acc S x S' \<longleftrightarrow> (\<exists>c. S = c @ S') \<and>
     (case x of
        Inl e \<Rightarrow> lim = None \<longrightarrow> 10 \<notin> set S \<and> S' = []
      | Inr line \<Rightarrow>
          (\<exists>t. S = t @ [10] @ S' \<and> 10 \<notin> set t \<and> line = acc @ strip_cr t) \<or> 10 \<notin> set S \<and> S' = [] \<and> line = acc @ S \<and> S \<noteq> [])"

lemma whole_line_more:
  assumes "whole_line_spec lim (acc @ l) S1 x S'" "l \<noteq> []" "10 \<notin> set l" "last l = 13 \<longrightarrow> (\<exists>r. S1 = 13 # r)"
  shows "whole_line_spec lim acc (l @ S1) x S'"
proof -
  have strip: "l @ strip_cr t = strip_cr (l @ t)" if "S1 = t @ [10] @ S'" for t
    using that assms(2,4) by (cases t) (auto simp: strip_cr_append, auto simp: strip_cr_def)
  show ?thesis
  proof (cases x)
    case (Inr line)
    then consider (nl) t where "S1 = t @ [10] @ S'" "10 \<notin> set t" "line = (acc @ l) @ strip_cr t"
      | (no) "10 \<notin> set S1" "S' = []" "line = (acc @ l) @ S1" "S1 \<noteq> []"
      using assms(1) by (auto simp: whole_line_spec_def)
    then show ?thesis
    proof cases
      case nl
      with strip [OF nl(1)] assms(3) Inr show ?thesis
        by (auto simp: whole_line_spec_def intro!: exI [of _ "l @ t"])
    qed (use assms Inr in \<open>auto simp: whole_line_spec_def\<close>)
  next
    case (Inl e)
    moreover from assms(1) obtain c where "S1 = c @ S'" by (auto simp: whole_line_spec_def)
    then have "\<exists>c. l @ S1 = c @ S'" by (metis append.assoc)
    ultimately show ?thesis using assms(1,3) unfolding whole_line_spec_def by auto
  qed
qed

lemma readLineSlice_loop_spec:
  "length (fst s) \<le> bufio_size \<Longrightarrow> length (bufio_stream s) < fuel \<Longrightarrow>
     \<exists>x s'. readLineSlice_loop fuel lim acc s = (Ret x, s') \<and> bsame s s' \<and>
       whole_line_spec lim acc (bufio_stream s) x (bufio_stream s')"
proof (induction fuel arbitrary: s acc)
  case (Suc fuel)
  obtain x1 s1 where r: "bufio_ReadLine s = (Ret x1, s1)" "bsame s s1" "line_spec (bufio_stream s) x1 (bufio_stream s1)"
    using bufio_ReadLine_spec [OF Suc.prems(1)] by blast
  have pre: "\<exists>c. bufio_stream s = c @ bufio_stream s1"
    using r(3) by (auto simp: line_spec_def split: sum.splits prod.splits bool.splits)
  show ?case
  proof (cases x1)
    case (Inl e)
    with r show ?thesis by (auto simp: line_spec_def whole_line_spec_def)
  next
    case (Inr lm)
    obtain l m where lm: "lm = (l, m)" by (cases lm)
    show ?thesis
    proof (cases "case lim of None \<Rightarrow> False | Some n \<Rightarrow> n < length acc + length l")
      case True
      with r Inr lm pre show ?thesis by (auto simp: whole_line_spec_def split: option.splits)
    next
      case fits: False
      show ?thesis
      proof (cases m)
        case True
        with r(3) Inr lm have l: "bufio_stream s = l @ bufio_stream s1" "l \<noteq> []" "10 \<notin> set l"
          "last l = 13 \<longrightarrow> (\<exists>r. bufio_stream s1 = 13 # r)" by (auto simp: line_spec_def)
        have "0 < length l" using l(2) by simp
        moreover have "length (bufio_stream s) = length l + length (bufio_stream s1)" using l(1) by simp
        ultimately have "length (bufio_stream s1) < fuel" using Suc.prems(2) by arith
        from Suc.IH [OF bsame_bok [OF r(2)] this, of "acc @ l"] obtain x s' where
          x: "readLineSlice_loop fuel lim (acc @ l) s1 = (Ret x, s')" "bsame s1 s'"
          "whole_line_spec lim (acc @ l) (bufio_stream s1) x (bufio_stream s')" by blast
        from whole_line_more [OF x(3) l(2-4)] x bsame_trans [OF r(2) x(2)] l(1) r(1) Inr lm True fits show ?thesis
          by auto
      next
        case False
        with r(3) Inr lm have "whole_line_spec lim acc (bufio_stream s) (Inr (acc @ l)) (bufio_stream s1)" using pre
          by (auto simp: line_spec_def whole_line_spec_def)
        with r Inr lm False fits show ?thesis by auto
      qed
    qed
  qed
qed simp

lemma readLineSlice_spec:
  "length (fst s) \<le> bufio_size \<Longrightarrow>
     \<exists>x s'. readLineSlice lim s = (Ret x, s') \<and> bsame s s' \<and> whole_line_spec lim [] (bufio_stream s) x (bufio_stream s')"
  unfolding readLineSlice_def by (rule readLineSlice_loop_spec) auto

lemma bufio_Peek1_spec:
  assumes "length (fst s) \<le> bufio_size" "bufio_Peek1 s = (b, s')"
  shows "bsame s s' \<and> bufio_stream s' = bufio_stream s \<and>
    (case b of None \<Rightarrow> bufio_stream s = [] | Some x \<Rightarrow> bufio_stream s \<noteq> [] \<and> hd (bufio_stream s) = x \<and> fst s' \<noteq> [] \<and> hd (fst s') = x)"
proof (cases "fst s = []")
  case True
  obtain e s1 where f: "bufio_fill s = (e, s1)" by (cases "bufio_fill s")
  have room: "length (fst s) < bufio_size" using True by simp
  show ?thesis
  proof (cases "conn_stream (snd s) = []")
    case True
    with bufio_fill_end [OF room _ f] assms f \<open>fst s = []\<close> show ?thesis
      by (auto simp: bufio_Peek1_def bufio_stream_def)
  next
    case False
    with bufio_fill_data [OF room _ f] \<open>fst s = []\<close> have d: "fst s1 \<noteq> []" "bufio_stream s1 = bufio_stream s" "bsame s s1" by auto
    have "hd (bufio_stream s) = hd (fst s1)" "bufio_stream s \<noteq> []"
      using d(1) unfolding d(2) [symmetric] by (simp_all add: bufio_stream_def)
    with d assms(2) f \<open>fst s = []\<close> show ?thesis by (auto simp: bufio_Peek1_def)
  qed
next
  case False
  with assms bsame_refl [OF assms(1)] show ?thesis by (auto simp: bufio_Peek1_def bufio_stream_def)
qed

lemma bufio_ReadByte_spec:
  assumes "length (fst s) \<le> bufio_size" "bufio_ReadByte s = (b, s')"
  shows "bsame s s' \<and> (case b of None \<Rightarrow> bufio_stream s = [] \<and> bufio_stream s' = []
    | Some x \<Rightarrow> bufio_stream s = x # bufio_stream s' \<and> length (fst s') < bufio_size)"
proof -
  obtain b1 s1 where p: "bufio_Peek1 s = (b1, s1)" by (cases "bufio_Peek1 s")
  from bufio_Peek1_spec [OF assms(1) p] have d: "bsame s s1" "bufio_stream s1 = bufio_stream s"
    "case b1 of None \<Rightarrow> bufio_stream s = [] | Some x \<Rightarrow> fst s1 \<noteq> [] \<and> hd (fst s1) = x" by (auto split: option.splits)
  from assms(2) p have s': "b = b1" "s' = (tl (fst s1), snd s1)" by (auto simp: bufio_ReadByte_def)
  show ?thesis
  proof (cases b1)
    case None
    with d s' show ?thesis by (auto simp: bufio_stream_def bsame_def)
  next
    case (Some x)
    with d(3) obtain r where "fst s1 = x # r" by (cases "fst s1") auto
    with Some d(1) s' show ?thesis unfolding d(2) [symmetric] by (auto simp: bufio_stream_def bsame_def)
  qed
qed

definition skip_spec :: "bytes \<Rightarrow> nat \<Rightarrow> bytes \<Rightarrow> bool" where
  "skip_spec S n S' \<longleftrightarrow> (\<exists>sp. S = sp @ S' \<and> length sp = n \<and> (\<forall>b \<in> set sp. is_blank b)) \<and> (S' \<noteq> [] \<longrightarrow> \<not> is_blank (hd S'))"

lemma skipSpace_loop_spec:
  "length (fst s) \<le> bufio_size \<Longrightarrow> length (bufio_stream s) < fuel \<Longrightarrow>
     \<exists>n s'. skipSpace_loop fuel m s = (Ret (m + n), s') \<and> bsame s s' \<and> skip_spec (bufio_stream s) n (bufio_stream s')"
proof (induction fuel arbitrary: s m)
  case (Suc fuel)
  obtain b s1 where r: "bufio_ReadByte s = (b, s1)" by (cases "bufio_ReadByte s")
  note sp = bufio_ReadByte_spec [OF Suc.prems(1) r]
  show ?case
  proof (cases b)
    case None
    with r sp show ?thesis by (auto simp: skip_spec_def intro!: exI [of _ 0])
  next
    case (Some x)
    with sp have x: "bsame s s1" "bufio_stream s = x # bufio_stream s1" "length (fst s1) < bufio_size" by auto
    show ?thesis
    proof (cases "is_blank x")
      case True
      have "length (bufio_stream s1) < fuel" using Suc.prems(2) x(2) by simp
      from Suc.IH [OF bsame_bok [OF x(1)] this, of "Suc m"] obtain n s' where
        n: "skipSpace_loop fuel (Suc m) s1 = (Ret (Suc m + n), s')" "bsame s1 s'" "skip_spec (bufio_stream s1) n (bufio_stream s')" by blast
      from n(3) obtain sp where "bufio_stream s1 = sp @ bufio_stream s'" "length sp = n" "\<forall>b \<in> set sp. is_blank b"
        by (auto simp: skip_spec_def)
      then have "skip_spec (bufio_stream s) (Suc n) (bufio_stream s')"
        using n(3) x(2) True by (auto simp: skip_spec_def intro!: exI [of _ "x # sp"])
      with n r Some True bsame_trans [OF x(1) n(2)] show ?thesis by (intro exI [of _ "Suc n"] exI [of _ s']) auto
    next
      case False
      have "bsame s (x # fst s1, snd s1)" "bufio_stream (x # fst s1, snd s1) = bufio_stream s"
        using x by (auto simp: bsame_def bufio_stream_def)
      with r Some False x show ?thesis by (auto simp: skip_spec_def intro!: exI [of _ 0])
    qed
  qed
qed simp

lemma skipSpace_spec:
  "length (fst s) \<le> bufio_size \<Longrightarrow>
     \<exists>n s'. skipSpace s = (Ret n, s') \<and> bsame s s' \<and> skip_spec (bufio_stream s) n (bufio_stream s')"
  unfolding skipSpace_def using skipSpace_loop_spec [of s "Suc (length (bufio_stream s))" 0]
  by (simp del: skipSpace_loop.simps)

section \<open>The header block\<close>

text \<open>
  A header block: whole lines, none of them blank, and then a blank line. This is what a reader of the
  stream has to consume to be at the first byte of the tunnel.
\<close>

definition lines_bytes :: "bytes list \<Rightarrow> bytes" where
  "lines_bytes ls = concat (map (\<lambda>l. l @ [10]) ls)"

definition lines_ok :: "bytes list \<Rightarrow> bool" where
  "lines_ok ls \<longleftrightarrow> (\<forall>l \<in> set ls. 10 \<notin> set l \<and> l \<noteq> [] \<and> l \<noteq> [13])"

definition header_block :: "bytes \<Rightarrow> bool" where
  "header_block c \<longleftrightarrow> (\<exists>ls t. lines_ok ls \<and> (t = [] \<or> t = [13]) \<and> c = lines_bytes ls @ t @ [10])"

lemma lines_bytes_append [simp]: "lines_bytes (ls @ ms) = lines_bytes ls @ lines_bytes ms"
  "lines_bytes [] = []" "lines_bytes (l # ls) = l @ [10] @ lines_bytes ls"
  by (simp_all add: lines_bytes_def)

lemma lines_ok_append [simp]: "lines_ok (ls @ ms) \<longleftrightarrow> lines_ok ls \<and> lines_ok ms" "lines_ok []"
  "lines_ok (l # ls) \<longleftrightarrow> 10 \<notin> set l \<and> l \<noteq> [] \<and> l \<noteq> [13] \<and> lines_ok ls"
  by (auto simp: lines_ok_def)

lemma blank_not_eol: "is_blank b \<Longrightarrow> b \<noteq> 10" "is_blank b \<Longrightarrow> b \<noteq> 13"
  by (auto simp: is_blank_def)

lemma strip_cr_Nil: "strip_cr t = [] \<longleftrightarrow> t = [] \<or> t = [13]"
  by (cases t rule: rev_cases) (auto simp: strip_cr_def)

lemma trim_blank_nonempty:
  assumes "58 \<in> set l"
  shows "trim_blank l \<noteq> []"
proof -
  have "\<not> is_blank 58" by (simp add: is_blank_def)
  with assms have "58 \<in> set (dropWhile is_blank l)"
    by (metis Un_iff set_append set_takeWhileD takeWhile_dropWhile_id)
  with \<open>\<not> is_blank 58\<close> show ?thesis by (auto simp: trim_blank_def)
qed

lemma continued_loop_spec:
  "length (fst s) \<le> bufio_size \<Longrightarrow> length (bufio_stream s) < fuel \<Longrightarrow>
     \<exists>b s'. continued_loop fuel acc s = (Ret b, s') \<and> bsame s s' \<and> (acc \<noteq> [] \<longrightarrow> b \<noteq> []) \<and>
       (bufio_stream s' = [] \<or> (\<exists>ls. lines_ok ls \<and> bufio_stream s = lines_bytes ls @ bufio_stream s'))"
proof (induction fuel arbitrary: s acc)
  case (Suc fuel)
  obtain n s1 where n: "skipSpace s = (Ret n, s1)" "bsame s s1" "skip_spec (bufio_stream s) n (bufio_stream s1)"
    using skipSpace_spec [OF Suc.prems(1)] by blast
  then obtain sp where sp: "bufio_stream s = sp @ bufio_stream s1" "length sp = n" "\<forall>b \<in> set sp. is_blank b"
    by (auto simp: skip_spec_def)
  show ?case
  proof (cases "n = 0")
    case True
    with n sp show ?thesis by (auto intro!: exI [of _ "[]"])
  next
    case False
    obtain x s2 where x: "readLineSlice None s1 = (Ret x, s2)" "bsame s1 s2"
      "whole_line_spec None [] (bufio_stream s1) x (bufio_stream s2)"
      using readLineSlice_spec [OF bsame_bok [OF n(2)]] by blast
    note same2 = bsame_trans [OF n(2) x(2)]
    show ?thesis
    proof (cases x)
      case (Inl e)
      with n(1) x False same2 show ?thesis by (auto simp: whole_line_spec_def)
    next
      case (Inr line)
      have "length (bufio_stream s2) \<le> length (bufio_stream s1)" using x(3) by (auto simp: whole_line_spec_def)
      moreover have "length (bufio_stream s) = n + length (bufio_stream s1)" using sp by simp
      ultimately have "length (bufio_stream s2) < fuel" using Suc.prems(2) False by arith
      from Suc.IH [OF bsame_bok [OF x(2)] this, of "acc @ [32] @ trim_blank line"] obtain b s' where
        b: "continued_loop fuel (acc @ [32] @ trim_blank line) s2 = (Ret b, s')" "bsame s2 s'" "b \<noteq> []"
        and rest: "bufio_stream s' = [] \<or> (\<exists>ls. lines_ok ls \<and> bufio_stream s2 = lines_bytes ls @ bufio_stream s')" by auto
      have "bufio_stream s' = [] \<or> (\<exists>ls. lines_ok ls \<and> bufio_stream s = lines_bytes ls @ bufio_stream s')"
      proof (cases "bufio_stream s' = []")
        case ne: False
        with rest obtain ls where ls: "lines_ok ls" "bufio_stream s2 = lines_bytes ls @ bufio_stream s'" by blast
        with ne x(3) Inr obtain t where t: "bufio_stream s1 = t @ [10] @ bufio_stream s2" "10 \<notin> set t"
          by (auto simp: whole_line_spec_def)
        obtain y ys where "sp = y # ys" using sp(2) False by (cases sp) auto
        then have "lines_ok ((sp @ t) # ls)" using sp(3) t(2) ls(1) blank_not_eol by auto
        then show ?thesis using sp(1) t(1) ls(2) by (intro disjI2 exI [of _ "(sp @ t) # ls"]) simp
      qed simp
      with n(1) x(1) b Inr False bsame_trans [OF same2 b(2)] show ?thesis by auto
    qed
  qed
qed simp

definition field_spec :: "bytes \<Rightarrow> err + bytes \<Rightarrow> bytes \<Rightarrow> bool" where
  "field_spec S x S' \<longleftrightarrow>
     (case x of
        Inl e \<Rightarrow> True
      | Inr kv \<Rightarrow>
          if kv = [] then \<exists>t. (t = [] \<or> t = [13]) \<and> S = t @ [10] @ S'
          else length S' < length S \<and> (S' = [] \<or> (\<exists>ls. lines_ok ls \<and> S = lines_bytes ls @ S')))"

lemma field_spec_kv:
  "kv \<noteq> [] \<Longrightarrow> length S' < length S \<Longrightarrow> S' = [] \<or> lines_ok ls \<and> S = lines_bytes ls @ S' \<Longrightarrow> field_spec S (Inr kv) S'"
  unfolding field_spec_def by auto

lemma readContinued_spec:
  assumes "length (fst s) \<le> bufio_size"
  shows "\<exists>x s'. readContinuedLineSlice s = (Ret x, s') \<and> bsame s s' \<and> field_spec (bufio_stream s) x (bufio_stream s')"
proof -
  obtain x s1 where x: "readLineSlice None s = (Ret x, s1)" "bsame s s1"
    "whole_line_spec None [] (bufio_stream s) x (bufio_stream s1)"
    using readLineSlice_spec [OF assms] by blast
  show ?thesis
  proof (cases x)
    case (Inl e)
    with x show ?thesis by (auto simp: readContinuedLineSlice_def field_spec_def)
  next
    case (Inr line)
    show ?thesis
    proof (cases "line = [] \<or> 58 \<notin> set line")
      case True
      have "line = [] \<Longrightarrow> \<exists>t. (t = [] \<or> t = [13]) \<and> bufio_stream s = t @ [10] @ bufio_stream s1"
      proof -
        assume "line = []"
        with x(3) Inr obtain t where "bufio_stream s = t @ [10] @ bufio_stream s1" "strip_cr t = []"
          unfolding whole_line_spec_def by auto
        then show ?thesis by (auto simp: strip_cr_Nil)
      qed
      then have "field_spec (bufio_stream s) (Inr []) (bufio_stream s1)" if "line = []"
        using that by (simp add: field_spec_def)
      moreover have "field_spec (bufio_stream s) (Inl e) (bufio_stream s1)" for e by (simp add: field_spec_def)
      ultimately show ?thesis
        using x(1,2) Inr True by (cases "line = []") (auto simp: readContinuedLineSlice_def)
    next
      case False
      then have kv: "trim_blank line \<noteq> []" by (simp add: trim_blank_nonempty)
      have first: "length (bufio_stream s1) < length (bufio_stream s) \<and>
          (bufio_stream s1 = [] \<or> (\<exists>t. 10 \<notin> set t \<and> t \<noteq> [] \<and> t \<noteq> [13] \<and> bufio_stream s = t @ [10] @ bufio_stream s1))"
        using x(3) Inr False by (auto simp: whole_line_spec_def strip_cr_def)
      obtain b s2 where b: "continued_loop (Suc (length (bufio_stream s1))) (trim_blank line) s1 = (Ret b, s2)" "bsame s1 s2"
        "b \<noteq> []" "bufio_stream s2 = [] \<or> (\<exists>ls. lines_ok ls \<and> bufio_stream s1 = lines_bytes ls @ bufio_stream s2)"
        using continued_loop_spec [OF bsame_bok [OF x(2)], of "Suc (length (bufio_stream s1))" "trim_blank line"] kv by blast
      have run: "readContinuedLineSlice s =
          (if next_is_header (fst s1) then (Ret (Inr (trim_blank line)), s1) else (Ret (Inr b), s2))"
        using x(1) Inr False b(1) by (simp add: readContinuedLineSlice_def del: continued_loop.simps)
      have "field_spec (bufio_stream s) (Inr (trim_blank line)) (bufio_stream s1)"
      proof (cases "bufio_stream s1 = []")
        case True
        with first kv show ?thesis by (auto simp: field_spec_def)
      next
        case False
        with first obtain t where "10 \<notin> set t" "t \<noteq> []" "t \<noteq> [13]" "bufio_stream s = t @ [10] @ bufio_stream s1" by blast
        then have "lines_ok [t] \<and> bufio_stream s = lines_bytes [t] @ bufio_stream s1" by simp
        with first kv show ?thesis by (intro field_spec_kv) blast+
      qed
      moreover have "field_spec (bufio_stream s) (Inr b) (bufio_stream s2)"
      proof (cases "bufio_stream s2 = []")
        case True
        with first b(3) show ?thesis by (auto simp: field_spec_def)
      next
        case ne: False
        with b(4) obtain ls where ls: "lines_ok ls" "bufio_stream s1 = lines_bytes ls @ bufio_stream s2" by blast
        with first ne obtain t where t: "10 \<notin> set t" "t \<noteq> []" "t \<noteq> [13]" "bufio_stream s = t @ [10] @ bufio_stream s1" by auto
        then have "lines_ok (t # ls) \<and> bufio_stream s = lines_bytes (t # ls) @ bufio_stream s2" using ls by simp
        moreover from this have "length (bufio_stream s2) < length (bufio_stream s)" by simp
        ultimately show ?thesis using b(3) by (intro field_spec_kv) blast+
      qed
      ultimately show ?thesis using run x(2) bsame_trans [OF x(2) b(2)] by (cases s1; cases s2; auto)
    qed
  qed
qed

lemma readMIMEHeader_loop_spec:
  "length (fst s) \<le> bufio_size \<Longrightarrow> length (bufio_stream s) < fuel \<Longrightarrow>
     \<exists>x s'. readMIMEHeader_loop fuel s = (Ret x, s') \<and> bsame s s' \<and>
       (x = None \<longrightarrow> (\<exists>c. header_block c \<and> bufio_stream s = c @ bufio_stream s'))"
proof (induction fuel arbitrary: s)
  case (Suc fuel)
  obtain y s1 where y: "readContinuedLineSlice s = (Ret y, s1)" "bsame s s1" "field_spec (bufio_stream s) y (bufio_stream s1)"
    using readContinued_spec [OF Suc.prems(1)] by blast
  show ?case
  proof (cases y)
    case (Inl e)
    with y show ?thesis by (cases s1) auto
  next
    case (Inr kv)
    show ?thesis
    proof (cases "kv = []")
      case True
      with y(3) Inr obtain t where "t = [] \<or> t = [13]" "bufio_stream s = t @ [10] @ bufio_stream s1"
        by (auto simp: field_spec_def)
      then have "header_block (t @ [10])" "bufio_stream s = (t @ [10]) @ bufio_stream s1"
        unfolding header_block_def by (intro exI [of _ "[]"] exI [of _ t], simp, simp)
      moreover have "readMIMEHeader_loop (Suc fuel) s = (Ret None, s1)" using y(1) Inr True by simp
      ultimately show ?thesis using y(2) by blast
    next
      case False
      with y(3) Inr have kv: "length (bufio_stream s1) < length (bufio_stream s)"
        "bufio_stream s1 = [] \<or> (\<exists>ls. lines_ok ls \<and> bufio_stream s = lines_bytes ls @ bufio_stream s1)"
        by (auto simp: field_spec_def)
      show ?thesis
      proof (cases "check_field kv")
        case (Some e)
        with y Inr False show ?thesis by (cases s1) auto
      next
        case None
        have "length (bufio_stream s1) < fuel" using kv(1) Suc.prems(2) by simp
        from Suc.IH [OF bsame_bok [OF y(2)] this] obtain x s' where x: "readMIMEHeader_loop fuel s1 = (Ret x, s')" "bsame s1 s'"
          "x = None \<Longrightarrow> \<exists>c. header_block c \<and> bufio_stream s1 = c @ bufio_stream s'" by blast
        have "\<exists>c. header_block c \<and> bufio_stream s = c @ bufio_stream s'" if "x = None"
        proof -
          from x(3) [OF that] obtain c where c: "header_block c" "bufio_stream s1 = c @ bufio_stream s'" by blast
          then obtain ls' t where t: "lines_ok ls'" "t = [] \<or> t = [13]" "c = lines_bytes ls' @ t @ [10]"
            by (auto simp: header_block_def)
          then have "bufio_stream s1 \<noteq> []" using c(2) by simp
          with kv(2) obtain ls where ls: "lines_ok ls" "bufio_stream s = lines_bytes ls @ bufio_stream s1" by blast
          then have "header_block (lines_bytes (ls @ ls') @ t @ [10])"
            using t unfolding header_block_def by (intro exI [of _ "ls @ ls'"] exI [of _ t]) simp
          moreover have "bufio_stream s = (lines_bytes (ls @ ls') @ t @ [10]) @ bufio_stream s'"
            using ls(2) c(2) t(3) by simp
          ultimately show ?thesis by blast
        qed
        moreover have "readMIMEHeader_loop (Suc fuel) s = (Ret x, s')" using y(1) Inr False None x(1) by simp
        ultimately show ?thesis using bsame_trans [OF y(2) x(2)] by blast
      qed
    qed
  qed
qed simp

lemma ReadMIMEHeader_spec:
  assumes "length (fst s) \<le> bufio_size"
  shows "\<exists>x s'. ReadMIMEHeader s = (x, s') \<and> bsame s s' \<and> (\<forall>p. x \<noteq> Pan p) \<and>
    (x = Ret () \<longrightarrow> (\<exists>c. header_block c \<and> bufio_stream s = c @ bufio_stream s'))"
proof -
  obtain b0 s0 where p0: "bufio_Peek1 s = (b0, s0)" by (cases "bufio_Peek1 s")
  obtain b s1 where p1: "bufio_Peek1 s0 = (b, s1)" by (cases "bufio_Peek1 s0")
  note q0 = bufio_Peek1_spec [OF assms p0]
  from q0 have d0: "bsame s s0" "bufio_stream s0 = bufio_stream s" by blast+
  from bufio_Peek1_spec [OF bsame_bok [OF d0(1)] p1] have d1: "bsame s0 s1" "bufio_stream s1 = bufio_stream s0" by blast+
  have d: "bsame s s1" "bufio_stream s1 = bufio_stream s" using d0 d1 bsame_trans by auto
  show ?thesis
  proof (cases "case b of None \<Rightarrow> False | Some x \<Rightarrow> is_blank x")
    case True
    obtain x s2 where x: "readLineSlice (Some 80) s1 = (Ret x, s2)" "bsame s1 s2"
      using readLineSlice_spec [OF bsame_bok [OF d(1)]] by blast
    with p0 p1 True bsame_trans [OF d(1) x(2)] show ?thesis
      by (cases s2) (auto simp: ReadMIMEHeader_def split: sum.splits option.splits)
  next
    case False
    obtain x s2 where x: "readMIMEHeader_loop (Suc (length (bufio_stream s1))) s1 = (Ret x, s2)" "bsame s1 s2"
      "x = None \<longrightarrow> (\<exists>c. header_block c \<and> bufio_stream s1 = c @ bufio_stream s2)"
      using readMIMEHeader_loop_spec [OF bsame_bok [OF d(1)]] by blast
    have "ReadMIMEHeader s = (Throw x, s2)"
      using p0 p1 False x(1) by (simp add: ReadMIMEHeader_def split: option.splits del: readMIMEHeader_loop.simps)
    with x(3) d bsame_trans [OF d(1) x(2)] show ?thesis by (cases x) auto
  qed
qed

section \<open>Plain headers are accepted\<close>

text \<open>A field of a response that is not folded: it does not start with a blank and passes the checks.\<close>

definition plain_field :: "bytes \<Rightarrow> bool" where
  "plain_field l \<longleftrightarrow> 10 \<notin> set l \<and> 58 \<in> set l \<and> \<not> is_blank (hd l) \<and> check_field (trim_blank l) = None"

definition crlf_block :: "bytes list \<Rightarrow> bytes" where
  "crlf_block hs = lines_bytes (map (\<lambda>l. l @ [13]) hs) @ [13, 10]"

lemma newline_unique:
  assumes "t @ [10] @ (S'::bytes) = u @ [10] @ r" "10 \<notin> set t" "10 \<notin> set u"
  shows "t = u" "S' = r"
proof -
  have "takeWhile (\<lambda>b. b \<noteq> 10) (t @ 10 # S') = t" "takeWhile (\<lambda>b. b \<noteq> 10) (u @ 10 # r) = u"
    using assms(2,3) by (auto intro!: takeWhile_append_stop(1))
  with assms(1) show "t = u" by simp
  with assms(1) show "S' = r" by simp
qed

lemma readLineSlice_line:
  assumes "length (fst s) \<le> bufio_size" "bufio_stream s = t @ [10] @ r" "10 \<notin> set t"
  shows "\<exists>s'. readLineSlice None s = (Ret (Inr (strip_cr t)), s') \<and> bsame s s' \<and> bufio_stream s' = r"
proof -
  obtain x s' where x: "readLineSlice None s = (Ret x, s')" "bsame s s'"
    and w: "whole_line_spec None [] (bufio_stream s) x (bufio_stream s')"
    using readLineSlice_spec [OF assms(1)] by blast
  have has: "10 \<in> set (bufio_stream s)" using assms(2) by simp
  with w obtain line u where u: "x = Inr line" "bufio_stream s = u @ [10] @ bufio_stream s'" "10 \<notin> set u" "line = strip_cr u"
    by (cases x) (simp_all add: whole_line_spec_def, blast)
  have "u @ [10] @ bufio_stream s' = t @ [10] @ r" using u(2) assms(2) by simp
  from newline_unique [OF this u(3) assms(3)] have "u = t" "bufio_stream s' = r" by simp_all
  with x u show ?thesis by blast
qed

lemma strip_cr_snoc: "strip_cr (l @ [13]) = l"
  by (simp add: strip_cr_def)

lemma readContinued_plain:
  assumes "length (fst s) \<le> bufio_size" "bufio_stream s = (l @ [13]) @ [10] @ r" "10 \<notin> set l" "58 \<in> set l"
    "r \<noteq> []" "\<not> is_blank (hd r)"
  shows "\<exists>s'. readContinuedLineSlice s = (Ret (Inr (trim_blank l)), s') \<and> bsame s s' \<and> bufio_stream s' = r"
proof -
  obtain s1 where s1: "readLineSlice None s = (Ret (Inr l), s1)" "bsame s s1" "bufio_stream s1 = r"
    using readLineSlice_line [OF assms(1,2)] assms(3) by (auto simp: strip_cr_snoc)
  obtain n s2 where n: "skipSpace s1 = (Ret n, s2)" "bsame s1 s2" "skip_spec (bufio_stream s1) n (bufio_stream s2)"
    using skipSpace_spec [OF bsame_bok [OF s1(2)]] by blast
  from n(3) obtain sp where sp: "r = sp @ bufio_stream s2" "length sp = n" "\<forall>b \<in> set sp. is_blank b"
    unfolding s1(3) by (auto simp: skip_spec_def)
  with assms(5,6) have "sp = []" by (cases sp) auto
  then have n0: "n = 0" "bufio_stream s2 = r" using sp by auto
  have ne: "l \<noteq> []" using assms(4) by auto
  show ?thesis
  proof (cases "next_is_header (fst s1)")
    case True
    with s1 ne assms(4) show ?thesis by (cases s1) (auto simp: readContinuedLineSlice_def)
  next
    case False
    with s1 ne assms(4) n n0 have "readContinuedLineSlice s = (Ret (Inr (trim_blank l)), s2)"
      by (simp add: readContinuedLineSlice_def)
    with bsame_trans [OF s1(2) n(2)] n0 show ?thesis by blast
  qed
qed

lemma crlf_block_Cons: "crlf_block (l # hs) = (l @ [13]) @ [10] @ crlf_block hs"
  by (simp add: crlf_block_def)

lemma readMIMEHeader_plain:
  "length (fst s) \<le> bufio_size \<Longrightarrow> length hs < fuel \<Longrightarrow> (\<forall>l \<in> set hs. plain_field l) \<Longrightarrow>
     bufio_stream s = crlf_block hs @ tail \<Longrightarrow>
     \<exists>s'. readMIMEHeader_loop fuel s = (Ret None, s') \<and> bsame s s' \<and> bufio_stream s' = tail"
proof (induction hs arbitrary: s fuel)
  case Nil
  then obtain f where f: "fuel = Suc f" by (cases fuel) auto
  have "bufio_stream s = [13] @ [10] @ tail" using Nil.prems(4) by (simp add: crlf_block_def)
  from readLineSlice_line [OF Nil.prems(1) this] obtain s' where
    "readLineSlice None s = (Ret (Inr []), s')" "bsame s s'" "bufio_stream s' = tail" by (auto simp: strip_cr_def)
  then show ?case by (cases s') (auto simp: f readContinuedLineSlice_def)
next
  case (Cons l hs)
  then obtain f where f: "fuel = Suc f" by (cases fuel) auto
  have l: "plain_field l" using Cons.prems(3) by simp
  have hd: "crlf_block hs @ tail \<noteq> [] \<and> \<not> is_blank (hd (crlf_block hs @ tail))"
  proof (cases hs)
    case (Cons h hs')
    with Cons.prems(3) have "plain_field h" by simp
    then show ?thesis using Cons by (cases h) (auto simp: crlf_block_Cons plain_field_def)
  qed (simp add: crlf_block_def is_blank_def)
  have "bufio_stream s = (l @ [13]) @ [10] @ crlf_block hs @ tail" using Cons.prems(4) by (simp add: crlf_block_Cons)
  from readContinued_plain [OF Cons.prems(1) this] l hd obtain s1 where
    s1: "readContinuedLineSlice s = (Ret (Inr (trim_blank l)), s1)" "bsame s s1" "bufio_stream s1 = crlf_block hs @ tail"
    by (auto simp: plain_field_def)
  obtain s' where s': "readMIMEHeader_loop f s1 = (Ret None, s')" "bsame s1 s'" "bufio_stream s' = tail"
    using Cons.IH [OF bsame_bok [OF s1(2)] _ _ s1(3), of f] Cons.prems f by auto
  have "readMIMEHeader_loop fuel s = (Ret None, s')"
    using s1 s' l by (simp add: f plain_field_def trim_blank_nonempty)
  with bsame_trans [OF s1(2) s'(2)] s'(3) show ?case by blast
qed

lemma length_crlf_block: "length hs \<le> length (crlf_block hs @ tail)"
  by (induction hs) (auto simp: crlf_block_def)

lemma ReadMIMEHeader_plain:
  assumes "length (fst s) \<le> bufio_size" "\<forall>l \<in> set hs. plain_field l" "bufio_stream s = crlf_block hs @ tail"
  shows "\<exists>s'. ReadMIMEHeader s = (Ret (), s') \<and> bsame s s' \<and> bufio_stream s' = tail"
proof -
  obtain b0 s0 where p0: "bufio_Peek1 s = (b0, s0)" by (cases "bufio_Peek1 s")
  obtain b s1 where p1: "bufio_Peek1 s0 = (b, s1)" by (cases "bufio_Peek1 s0")
  from bufio_Peek1_spec [OF assms(1) p0] have d0: "bsame s s0" "bufio_stream s0 = bufio_stream s" by blast+
  from bufio_Peek1_spec [OF bsame_bok [OF d0(1)] p1] have d1: "bsame s0 s1" "bufio_stream s1 = bufio_stream s0"
    "case b of None \<Rightarrow> True | Some x \<Rightarrow> hd (bufio_stream s0) = x" by (auto split: option.splits)
  have "\<not> is_blank (hd (bufio_stream s))"
    using assms(2,3) by (cases hs) (auto simp: crlf_block_def plain_field_def is_blank_def hd_append)
  then have nb: "\<not> (case b of None \<Rightarrow> False | Some x \<Rightarrow> is_blank x)" using d0 d1 by (auto split: option.splits)
  have "bufio_stream s1 = crlf_block hs @ tail" using d0 d1 assms(3) by simp
  from readMIMEHeader_plain [OF bsame_bok [OF d1(1)] _ assms(2) this, of "Suc (length (bufio_stream s1))"]
  obtain s' where s': "readMIMEHeader_loop (Suc (length (bufio_stream s1))) s1 = (Ret None, s')" "bsame s1 s'" "bufio_stream s' = tail"
    using length_crlf_block [of hs tail] unfolding \<open>bufio_stream s1 = crlf_block hs @ tail\<close> by auto
  have "ReadMIMEHeader s = (Ret (), s')"
    using p0 p1 nb s'(1) by (simp add: ReadMIMEHeader_def split: option.splits del: readMIMEHeader_loop.simps)
  with s' d0 d1 bsame_trans show ?thesis by blast
qed

end
