(* ===== verification/Socks5.thy ===== *)
theory Socks5
  imports ConnIO
begin

text \<open>
  The SOCKS5 client of \<^verbatim>\<open>src/socks5.go\<close>: the wire format of RFC 1928 and RFC 1929, the two
  negotiations, the UDP datagram wrapper and the CONNECT connector. The lemmas say what is on the wire:
  which bytes leave in which order, which bytes of the proxy's stream are consumed, and that the ones
  after them stay in the stream.
\<close>

section \<open>Definitions\<close>

definition socks5Version :: byte where "socks5Version = 5"
definition socks5AuthVersion :: byte where "socks5AuthVersion = 1"
definition socks5MethodNoAuth :: byte where "socks5MethodNoAuth = 0"
definition socks5MethodUserPass :: byte where "socks5MethodUserPass = 2"
definition socks5CmdConnect :: byte where "socks5CmdConnect = 1"
definition socks5CmdUDPAssociate :: byte where "socks5CmdUDPAssociate = 3"
definition socks5AddrIPv4 :: byte where "socks5AddrIPv4 = 1"
definition socks5AddrDomain :: byte where "socks5AddrDomain = 3"
definition socks5AddrIPv6 :: byte where "socks5AddrIPv6 = 4"
definition socks5Succeeded :: byte where "socks5Succeeded = 0"

definition socks5ReplyText :: "byte \<rightharpoonup> string" where
  "socks5ReplyText =
     [1 \<mapsto> ''general SOCKS server failure'', 2 \<mapsto> ''connection not allowed by ruleset'',
      3 \<mapsto> ''network unreachable'', 4 \<mapsto> ''host unreachable'', 5 \<mapsto> ''connection refused'',
      6 \<mapsto> ''TTL expired'', 7 \<mapsto> ''command not supported'', 8 \<mapsto> ''address type not supported'']"

definition throwSocks5Reply :: "byte \<Rightarrow> 'a res" where
  "throwSocks5Reply rep =
     (case socks5ReplyText rep of
        Some text \<Rightarrow> ThrowFmt ''socks5: %s'' [text]
      | None \<Rightarrow> ThrowFmt ''socks5: reply code %d'' [itoa (unat rep)])"

definition socks5AppendAddr :: "bytes \<Rightarrow> string \<Rightarrow> u16 \<Rightarrow> bytes res" where
  "socks5AppendAddr b host port =
     (let ip = ParseIP host in
      if ip = [] then ThrowFmt ''socks5: %q is not an IP address'' [host]
      else let ip4 = To4 ip in
        Ret ((if ip4 \<noteq> [] then (b @ [socks5AddrIPv4]) @ ip4 else (b @ [socks5AddrIPv6]) @ To16 ip) @ be16 port))"

text \<open>The switch on the address type, and the whole reader.\<close>

definition socks5ReadHost :: "'r reader \<Rightarrow> byte \<Rightarrow> ('r, string) act" where
  "socks5ReadHost r atyp =
     (if atyp = socks5AddrIPv4 then
        act_bind (readFull r 4) (\<lambda>b. act_ret (ip_string b))
      else if atyp = socks5AddrIPv6 then
        act_bind (readFull r 16) (\<lambda>b. act_ret (ip_string b))
      else if atyp = socks5AddrDomain then
        act_bind (readFull r 1) (\<lambda>n.
        act_bind (readFull r (unat (n ! 0))) (\<lambda>b. act_ret (string_of_bytes b)))
      else act_lift (ThrowFmt ''socks5: bad address type %d'' [itoa (unat atyp)]))"

definition socks5ReadAddr :: "'r reader \<Rightarrow> ('r, string \<times> u16) act" where
  "socks5ReadAddr r =
     act_bind (readFull r 1) (\<lambda>atyp.
     act_bind (socks5ReadHost r (atyp ! 0)) (\<lambda>host.
     act_bind (readFull r 2) (\<lambda>p. act_ret (host, be16_get (p ! 0) (p ! 1)))))"

definition socks5Authenticate :: "nat \<Rightarrow> userinfo \<Rightarrow> (world, unit) act" where
  "socks5Authenticate conn auth =
     (let user = ui_username auth; pass = (case ui_password auth of Some p \<Rightarrow> p | None \<Rightarrow> '''') in
      if 255 < length user \<or> 255 < length pass
      then act_lift (ThrowFmt ''socks5: username or password longer than 255 bytes'' [])
      else
        act_bind (act_throw (w_write conn
          ([socks5AuthVersion, of_nat (length user)] @ bytes_of_string user @
           [of_nat (length pass)] @ bytes_of_string pass))) (\<lambda>_.
        act_bind (readFull (w_read conn) 2) (\<lambda>resp.
        if resp ! 1 \<noteq> socks5Succeeded then act_lift (ThrowFmt ''socks5: authentication failed'' [])
        else act_ret ())))"

definition socks5Handshake :: "nat \<Rightarrow> userinfo option \<Rightarrow> (world, unit) act" where
  "socks5Handshake conn auth =
     (let methods = [socks5MethodNoAuth] @ (if auth \<noteq> None then [socks5MethodUserPass] else []) in
      act_bind (act_throw (w_write conn ([socks5Version, of_nat (length methods)] @ methods))) (\<lambda>_.
      act_bind (readFull (w_read conn) 2) (\<lambda>resp.
      if resp ! 0 \<noteq> socks5Version
      then act_lift (ThrowFmt ''socks5: bad version %d'' [itoa (unat (resp ! 0))])
      else if resp ! 1 = socks5MethodNoAuth then act_ret ()
      else if resp ! 1 = socks5MethodUserPass then
        (case auth of
           None \<Rightarrow> act_lift (ThrowFmt ''socks5: proxy requires authentication'' [])
         | Some a \<Rightarrow> socks5Authenticate conn a)
      else act_lift (ThrowFmt ''socks5: no acceptable authentication method (%#x)'' [itoa (unat (resp ! 1))]))))"

definition socks5Request :: "nat \<Rightarrow> byte \<Rightarrow> string \<Rightarrow> u16 \<Rightarrow> (world, string \<times> u16) act" where
  "socks5Request conn cmd host port =
     act_bind (act_lift (socks5AppendAddr [socks5Version, cmd, 0] host port)) (\<lambda>req.
     act_bind (act_throw (w_write conn req)) (\<lambda>_.
     act_bind (readFull (w_read conn) 3) (\<lambda>head.
     if head ! 0 \<noteq> socks5Version
     then act_lift (ThrowFmt ''socks5: bad version %d'' [itoa (unat (head ! 0))])
     else if head ! 1 \<noteq> socks5Succeeded then act_lift (throwSocks5Reply (head ! 1))
     else socks5ReadAddr (w_read conn))))"

definition socks5UDPDatagram :: "string \<Rightarrow> u16 \<Rightarrow> bytes \<Rightarrow> bytes res" where
  "socks5UDPDatagram host port payload =
     res_bind (socks5AppendAddr [0, 0, 0] host port) (\<lambda>b. Ret (b @ payload))"

definition socks5ParseUDPDatagram :: "bytes \<Rightarrow> (string \<times> u16 \<times> bytes) res" where
  "socks5ParseUDPDatagram b =
     (if length b < 4 then ThrowFmt ''socks5: short udp datagram'' []
      else res_bind (index 2 b) (\<lambda>frag.
        if frag \<noteq> 0 then ThrowFmt ''socks5: udp fragmentation is not supported'' []
        else res_bind (slice 3 (length b) b) (\<lambda>rest.
          case socks5ReadAddr bytes_read rest of (x, r) \<Rightarrow>
            res_bind x (\<lambda>(host, port).
            res_bind (slice (length b - length r) (length b) b) (\<lambda>payload.
              Ret (host, port, payload))))))"

definition socks5Connector_connect :: "(world, nat) connector \<Rightarrow> ProxyAddr \<Rightarrow> ctx \<Rightarrow> string \<Rightarrow> string \<Rightarrow> (world, nat) act" where
  "socks5Connector_connect tcpConnector proxy cx network address =
     act_bind (act_lift (hostPort address)) (\<lambda>(host, port).
     act_bind (act_bind (tcpConnector cx ''tcp'' (pa_Address proxy)) (\<lambda>x. act_lift (Throw2 x))) (\<lambda>conn.
     CloseOnThrow (w_close conn)
       (act_bind (applyDeadline cx conn) (\<lambda>_.
        act_bind (socks5Handshake conn (pa_Auth proxy)) (\<lambda>_.
        act_bind (socks5Request conn socks5CmdConnect host port) (\<lambda>_.
        act_bind (act_throw (w_set_deadline conn None)) (\<lambda>_.
        act_ret conn)))))))"

definition socks5Connector_DialContext :: "(world, nat) connector \<Rightarrow> ProxyAddr \<Rightarrow> (world, nat) connector" where
  "socks5Connector_DialContext tcpConnector proxy cx network address =
     act_bind (act_try (socks5Connector_connect tcpConnector proxy cx network address)) (\<lambda>x.
       act_ret (via_error address proxy x))"

definition NewSOCKS5Connector :: "(world, nat) connector \<Rightarrow> ProxyAddr \<Rightarrow> (world, nat) connector" where
  "NewSOCKS5Connector connector proxy = socks5Connector_DialContext connector proxy"

lemmas socks5_consts = socks5Version_def socks5AuthVersion_def socks5MethodNoAuth_def socks5MethodUserPass_def
  socks5CmdConnect_def socks5CmdUDPAssociate_def socks5AddrIPv4_def socks5AddrDomain_def socks5AddrIPv6_def
  socks5Succeeded_def

section \<open>The wire format as a specification\<close>

text \<open>An address of RFC 1928, its bytes on the wire, and the host string the program makes of it.\<close>

datatype saddr = V4 bytes | V6 bytes | Domain bytes

primrec saddr_ok :: "saddr \<Rightarrow> bool" where
  "saddr_ok (V4 b) \<longleftrightarrow> length b = 4"
| "saddr_ok (V6 b) \<longleftrightarrow> length b = 16"
| "saddr_ok (Domain b) \<longleftrightarrow> length b < 256"

primrec saddr_bytes :: "saddr \<Rightarrow> bytes" where
  "saddr_bytes (V4 b) = 1 # b"
| "saddr_bytes (V6 b) = 4 # b"
| "saddr_bytes (Domain b) = 3 # of_nat (length b) # b"

primrec saddr_host :: "saddr \<Rightarrow> string" where
  "saddr_host (V4 b) = ip_string b"
| "saddr_host (V6 b) = ip_string b"
| "saddr_host (Domain b) = string_of_bytes b"

text \<open>
  What a proxy sends before the tunnel starts: the method it picks, the answer to the credentials if it
  picked method 2, and the reply with the bound address.
\<close>

record socks_reply =
  rp_method :: byte
  rp_auth_version :: byte
  rp_rsv :: byte
  rp_bound :: saddr
  rp_port :: u16

definition reply_bytes :: "socks_reply \<Rightarrow> bytes" where
  "reply_bytes rp =
     [5, rp_method rp] @ (if rp_method rp = 2 then [rp_auth_version rp, 0] else []) @
     [5, 0, rp_rsv rp] @ saddr_bytes (rp_bound rp) @ be16 (rp_port rp)"

definition creds_ok :: "userinfo \<Rightarrow> bool" where
  "creds_ok a \<longleftrightarrow> length (ui_username a) < 256 \<and>
     (case ui_password a of None \<Rightarrow> True | Some p \<Rightarrow> length p < 256)"

definition reply_ok :: "userinfo option \<Rightarrow> socks_reply \<Rightarrow> bool" where
  "reply_ok auth rp \<longleftrightarrow>
     (rp_method rp = 0 \<or> rp_method rp = 2 \<and> (case auth of None \<Rightarrow> False | Some a \<Rightarrow> creds_ok a)) \<and>
     saddr_ok (rp_bound rp)"

text \<open>What the client sends: the greeting, the credentials if asked for them, and the request.\<close>

definition greeting_bytes :: "userinfo option \<Rightarrow> bytes" where
  "greeting_bytes auth = (case auth of None \<Rightarrow> [5, 1, 0] | Some _ \<Rightarrow> [5, 2, 0, 2])"

definition auth_bytes :: "userinfo \<Rightarrow> bytes" where
  "auth_bytes a =
     (let p = (case ui_password a of None \<Rightarrow> '''' | Some p \<Rightarrow> p) in
      [1, of_nat (length (ui_username a))] @ bytes_of_string (ui_username a) @
      [of_nat (length p)] @ bytes_of_string p)"

definition literal_addr :: "string \<Rightarrow> saddr" where
  "literal_addr host = (if To4 (ParseIP host) \<noteq> [] then V4 (To4 (ParseIP host)) else V6 (ParseIP host))"

definition request_bytes :: "byte \<Rightarrow> string \<Rightarrow> u16 \<Rightarrow> bytes" where
  "request_bytes cmd host port = [5, cmd, 0] @ saddr_bytes (literal_addr host) @ be16 port"

definition client_writes :: "userinfo option \<Rightarrow> byte \<Rightarrow> byte \<Rightarrow> string \<Rightarrow> u16 \<Rightarrow> bytes list" where
  "client_writes auth m cmd host port =
     [greeting_bytes auth] @ (case auth of Some a \<Rightarrow> if m = 2 then [auth_bytes a] else [] | None \<Rightarrow> []) @
     [request_bytes cmd host port]"

section \<open>Addresses on the wire\<close>

lemma literal_addr_ok:
  assumes "ParseIP host \<noteq> []"
  shows "saddr_ok (literal_addr host)"
  using assms ParseIP_length [of host] To4_length [of "ParseIP host"] by (auto simp: literal_addr_def)

lemma socks5AppendAddr_eq:
  "socks5AppendAddr b host port =
     (if ParseIP host = [] then Exc (Fmt ''socks5: %q is not an IP address'' [host])
      else Ret (b @ saddr_bytes (literal_addr host) @ be16 port))"
  using ParseIP_length [of host]
  by (auto simp: socks5AppendAddr_def literal_addr_def ThrowFmt_def socks5_consts To16_def Let_def)

lemma be16_get_be16: "be16 p = [hi, lo] \<Longrightarrow> be16_get hi lo = p"
  using be16_roundtrip [of p] by (auto simp: be16_def)

lemma be16_get_nth [simp]: "be16_get (be16 p ! 0) (be16 p ! Suc 0) = p"
  using be16_roundtrip [of p] by (simp add: be16_def)

lemma list_one: "length xs = Suc 0 \<Longrightarrow> xs = [xs ! 0]"
  by (cases xs) auto

lemma list_two: "length xs = 2 \<Longrightarrow> xs = [xs ! 0, xs ! 1]"
  by (cases xs; cases "tl xs") auto

lemma list_three: "length xs = 3 \<Longrightarrow> xs = [xs ! 0, xs ! 1, xs ! 2]"
  by (cases xs; cases "tl xs"; cases "tl (tl xs)") auto

lemma keeps_ReadAddr [keeps]:
  "(\<And>n. act_keeps P (readFull r n)) \<Longrightarrow> act_keeps P (socks5ReadAddr r)"
  unfolding socks5ReadAddr_def socks5ReadHost_def by (intro keeps)

context io_reader
begin

lemma readFull_prefix:
  assumes "inv r" "stream r = b @ tail" "n = length b"
  shows "\<exists>r'. readFull rd n r = (Ret b, r') \<and> stream r' = tail \<and> inv r' \<and> same r r'"
  using readFull_ok [of r n] assms by (auto simp: same_def)

lemma readFull_RetD:
  assumes "inv r" "readFull rd n r = (Ret b, r')"
  shows "length b = n" "stream r = b @ stream r'" "same r r'" "inv r'"
  using readFull_Ret_iff [OF assms] unfolding same_def by blast+

lemma ReadHost_accepts:
  assumes "inv r" "saddr_ok a" "saddr_bytes a = t # bs" "stream r = bs @ tail"
  shows "\<exists>r'. socks5ReadHost rd t r = (Ret (saddr_host a), r') \<and> stream r' = tail \<and> inv r' \<and> same r r'"
proof (cases a)
  case (Domain b)
  with assms(2) have len: "unat (of_nat (length b) :: byte) = length b"
    by (simp add: unat_of_nat)
  obtain r2 where r2: "readFull rd 1 r = (Ret [of_nat (length b)], r2)" "stream r2 = b @ tail" "inv r2" "same r r2"
    using readFull_prefix [of r "[of_nat (length b)]" "b @ tail" 1] Domain assms by auto
  obtain r3 where "readFull rd (length b) r2 = (Ret b, r3)" "stream r3 = tail" "inv r3" "same r2 r3"
    using readFull_prefix [OF r2(3,2) refl] by blast
  with r2 Domain assms(3) len show ?thesis
    using same_trans by (auto simp: socks5ReadHost_def socks5_consts)
qed (use readFull_prefix [OF assms(1,4)] assms in \<open>auto simp: socks5ReadHost_def socks5_consts\<close>)

lemma ReadHost_sound:
  assumes "inv r" "socks5ReadHost rd t r = (Ret h, r')"
  shows "\<exists>a bs. saddr_ok a \<and> h = saddr_host a \<and> saddr_bytes a = t # bs \<and> stream r = bs @ stream r' \<and> same r r'"
proof -
  consider (v4) b where "t = 1" "readFull rd 4 r = (Ret b, r')" "h = ip_string b"
    | (v6) b where "t = 4" "readFull rd 16 r = (Ret b, r')" "h = ip_string b"
    | (dom) n r2 b where "t = 3" "readFull rd 1 r = (Ret n, r2)" "readFull rd (unat (n ! 0)) r2 = (Ret b, r')"
        "h = string_of_bytes b"
    using assms(2)
    by (auto simp: socks5ReadHost_def socks5_consts act_bind_Ret_iff res_simps split: if_splits)
  then show ?thesis
  proof cases
    case v4
    with readFull_RetD [OF assms(1) v4(2)] show ?thesis by (intro exI [of _ "V4 b"]) auto
  next
    case v6
    with readFull_RetD [OF assms(1) v6(2)] show ?thesis by (intro exI [of _ "V6 b"]) auto
  next
    case dom
    note n = readFull_RetD [OF assms(1) dom(2)]
    note b = readFull_RetD [OF n(4) dom(3)]
    from n(1) list_one [of n] have "n = [n ! 0]" by simp
    then have "stream r = (n ! 0) # b @ stream r'" using n(2) b(2) by (metis append_Cons append_Nil)
    moreover have "length b < 256" using b(1) unsigned_less [of "n ! 0", where ?'a = nat] by simp
    moreover have "of_nat (length b) = n ! 0" using b(1) by simp
    ultimately show ?thesis using dom n b same_trans by (intro exI [of _ "Domain b"]) auto
  qed
qed

lemma ReadAddr_accepts:
  assumes "inv r" "saddr_ok a" "stream r = saddr_bytes a @ be16 p @ tail"
  shows "\<exists>r'. socks5ReadAddr rd r = (Ret (saddr_host a, p), r') \<and> stream r' = tail \<and> same r r'"
proof -
  obtain t bs where t: "saddr_bytes a = t # bs" by (cases a) auto
  obtain r1 where r1: "readFull rd 1 r = (Ret [t], r1)" "stream r1 = bs @ be16 p @ tail" "inv r1" "same r r1"
    using assms t readFull_prefix [of r "[t]" "bs @ be16 p @ tail" 1] by auto
  obtain r2 where r2: "socks5ReadHost rd t r1 = (Ret (saddr_host a), r2)" "stream r2 = be16 p @ tail" "inv r2" "same r1 r2"
    using ReadHost_accepts [OF r1(3) assms(2) t r1(2)] by blast
  obtain r3 where "readFull rd 2 r2 = (Ret (be16 p), r3)" "stream r3 = tail" "same r2 r3"
    using readFull_prefix [OF r2(3,2), of 2] by auto
  moreover from this r1 r2 have "same r r3" using same_trans by blast
  ultimately show ?thesis using r1 r2 by (auto simp: socks5ReadAddr_def)
qed

lemma ReadAddr_sound:
  assumes "inv r" "socks5ReadAddr rd r = (Ret (h, p), r')"
  shows "\<exists>a. saddr_ok a \<and> h = saddr_host a \<and> stream r = saddr_bytes a @ be16 p @ stream r' \<and> same r r'"
proof -
  from assms(2) obtain t r1 r2 pb where
    r1: "readFull rd 1 r = (Ret t, r1)" and r2: "socks5ReadHost rd (t ! 0) r1 = (Ret h, r2)"
    and r3: "readFull rd 2 r2 = (Ret pb, r')" and p: "p = be16_get (pb ! 0) (pb ! 1)"
    unfolding socks5ReadAddr_def by (auto simp: act_bind_Ret_iff)
  note t = readFull_RetD [OF assms(1) r1]
  from ReadHost_sound [OF t(4) r2] obtain a bs where a: "saddr_ok a" "h = saddr_host a"
    "saddr_bytes a = (t ! 0) # bs" "stream r1 = bs @ stream r2" "same r1 r2" by blast
  then have "inv r2" by (simp add: same_def)
  note e = readFull_RetD [OF this r3]
  have "pb = be16 p" using list_two [OF e(1)] p by (simp add: be16_get_inverse)
  moreover have "t = [t ! 0]" using t(1) list_one [of t] by simp
  ultimately have "stream r = saddr_bytes a @ be16 p @ stream r'"
    using t(2) a(3,4) e(2) by (metis append.assoc append_Cons append_Nil)
  with a t e show ?thesis using same_trans by blast
qed

lemma keeps_same: "act_keeps (same r) (readFull rd n)"
  using readFull_same readFull_no_panic by (intro act_keepsI) (metis same_def same_trans)

lemma ReadAddr_no_panic: "inv r \<Longrightarrow> socks5ReadAddr rd r \<noteq> (Pan q, r')"
  using act_keepsD [OF keeps_ReadAddr [OF keeps_same], of r r] by (auto simp: same_def)

end

section \<open>The negotiation\<close>

lemma keeps_reply [keeps]: "act_keeps P (act_lift (throwSocks5Reply c))"
  by (auto simp: act_keeps_def throwSocks5Reply_def ThrowFmt_def split: option.splits)

lemma keeps_appendAddr [keeps]: "act_keeps P (act_lift (socks5AppendAddr b h p))"
  by (simp add: act_keeps_def socks5AppendAddr_eq)

lemma keeps_authenticate [keeps]: "act_keeps (touched k w) (socks5Authenticate k a)"
  unfolding socks5Authenticate_def Let_def by (intro keeps)

lemma keeps_handshake [keeps]: "act_keeps (touched k w) (socks5Handshake k auth)"
  unfolding socks5Handshake_def Let_def by (intro keeps)

lemma keeps_request [keeps]: "act_keeps (touched k w) (socks5Request k cmd host port)"
  unfolding socks5Request_def by (intro keeps)

lemma ready_authenticate:
  assumes "ready k w" "creds_ok a" "conn_stream (w_conn k w) = [v, 0] @ tail"
  shows "\<exists>w'. socks5Authenticate k a w = (Ret (), w') \<and> ready k w' \<and> advance k w w' [v, 0] [auth_bytes a] \<and>
    conn_stream (w_conn k w') = tail"
proof -
  obtain w1 where w1: "act_throw (w_write k (auth_bytes a)) w = (Ret (), w1)" "ready k w1" "advance k w w1 [] [auth_bytes a]"
    using ready_write [OF assms(1)] by blast
  then have "conn_stream (w_conn k w1) = [v, 0] @ tail" using assms(3) by (simp add: advance_def)
  from ready_readFull [OF w1(2) this, of 2] obtain w2 where
    w2: "readFull (w_read k) 2 w1 = (Ret [v, 0], w2)" "ready k w2" "advance k w1 w2 [v, 0] []" "conn_stream (w_conn k w2) = tail"
    by auto
  from advance_trans [OF w1(3) w2(3)] assms(2) w1(1) w2 show ?thesis
    by (auto simp: socks5Authenticate_def auth_bytes_def creds_ok_def socks5_consts Let_def split: option.splits)
qed

lemma authenticate_sound:
  assumes "conn_open k w" "socks5Authenticate k a w = (Ret u, w')"
  shows "\<exists>v. advance k w w' [v, 0] [auth_bytes a] \<and> creds_ok a"
proof -
  from assms(2) obtain w1 resp where w1: "act_throw (w_write k (auth_bytes a)) w = (Ret (), w1)" "creds_ok a"
    and w2: "readFull (w_read k) 2 w1 = (Ret resp, w')" "resp ! 1 = 0"
    by (auto simp: socks5Authenticate_def auth_bytes_def creds_ok_def socks5_consts act_bind_Ret_iff Let_def
        ThrowFmt_iff split: option.splits if_splits)
  from w1 have a1: "advance k w w1 [] [auth_bytes a]" using write_advance [OF assms(1)] by (simp add: act_throw_iff)
  note a2 = readFull_advance [OF advance_open [OF a1] w2(1)]
  from list_two [OF a2(2)] w2(2) have "resp = [resp ! 0, 0]" by simp
  with advance_trans [OF a1 a2(1)] w1(2) show ?thesis by (metis append_Nil append_Nil2)
qed

text \<open>The bytes of the method negotiation, as far as it is part of a reply.\<close>

definition method_bytes :: "socks_reply \<Rightarrow> bytes" where
  "method_bytes rp = [5, rp_method rp] @ (if rp_method rp = 2 then [rp_auth_version rp, 0] else [])"

definition method_writes :: "userinfo option \<Rightarrow> socks_reply \<Rightarrow> bytes list" where
  "method_writes auth rp =
     [greeting_bytes auth] @ (case auth of Some a \<Rightarrow> if rp_method rp = 2 then [auth_bytes a] else [] | None \<Rightarrow> [])"

definition method_ok :: "userinfo option \<Rightarrow> socks_reply \<Rightarrow> bool" where
  "method_ok auth rp \<longleftrightarrow>
     rp_method rp = 0 \<or> rp_method rp = 2 \<and> (case auth of None \<Rightarrow> False | Some a \<Rightarrow> creds_ok a)"

lemma greeting_eq:
  "[socks5Version, of_nat (length ([socks5MethodNoAuth] @ (if auth \<noteq> None then [socks5MethodUserPass] else [])))] @
     [socks5MethodNoAuth] @ (if auth \<noteq> None then [socks5MethodUserPass] else []) = greeting_bytes auth"
  by (cases auth) (simp_all add: greeting_bytes_def socks5_consts)

lemma ready_handshake:
  assumes "ready k w" "method_ok auth rp" "conn_stream (w_conn k w) = method_bytes rp @ tail"
  shows "\<exists>w'. socks5Handshake k auth w = (Ret (), w') \<and> ready k w' \<and>
    advance k w w' (method_bytes rp) (method_writes auth rp) \<and> conn_stream (w_conn k w') = tail"
proof -
  let ?g = "greeting_bytes auth" and ?m = "rp_method rp"
  let ?more = "if ?m = 2 then [rp_auth_version rp, 0] else []"
  obtain w1 where w1: "act_throw (w_write k ?g) w = (Ret (), w1)" "ready k w1" "advance k w w1 [] [?g]"
    using ready_write [OF assms(1)] by blast
  then have "conn_stream (w_conn k w1) = [5, ?m] @ ?more @ tail"
    using assms(3) by (simp add: advance_def method_bytes_def)
  from ready_readFull [OF w1(2) this, of 2] obtain w2 where
    w2: "readFull (w_read k) 2 w1 = (Ret [5, ?m], w2)" "ready k w2" "advance k w1 w2 [5, ?m] []"
      "conn_stream (w_conn k w2) = ?more @ tail"
    by auto
  note a2 = advance_trans [OF w1(3) w2(3)]
  have run: "socks5Handshake k auth w =
      (if ?m = 0 then (Ret (), w2) else socks5Authenticate k (the auth) w2)"
    using assms(2) w1(1) w2(1) unfolding socks5Handshake_def Let_def greeting_eq
    by (auto simp: method_ok_def socks5_consts split: option.splits)
  show ?thesis
  proof (cases "?m = 0")
    case True
    with run a2 w2 show ?thesis by (auto simp: method_bytes_def method_writes_def split: option.splits)
  next
    case False
    with assms(2) obtain a where a: "?m = 2" "auth = Some a" "creds_ok a"
      by (auto simp: method_ok_def split: option.splits)
    with w2 ready_authenticate [of k w2 a "rp_auth_version rp" tail] obtain w3 where
      "socks5Authenticate k a w2 = (Ret (), w3)" "ready k w3" "advance k w2 w3 [rp_auth_version rp, 0] [auth_bytes a]"
      "conn_stream (w_conn k w3) = tail" by auto
    with advance_trans [OF a2 this(3)] run a False show ?thesis
      by (auto simp: method_bytes_def method_writes_def)
  qed
qed

lemma handshake_sound:
  assumes "conn_open k w" "socks5Handshake k auth w = (Ret u, w')"
  shows "\<exists>m v. advance k w w' (method_bytes (rp\<lparr>rp_method := m, rp_auth_version := v\<rparr>))
      (method_writes auth (rp\<lparr>rp_method := m, rp_auth_version := v\<rparr>)) \<and>
    method_ok auth (rp\<lparr>rp_method := m, rp_auth_version := v\<rparr>)"
proof -
  let ?g = "greeting_bytes auth"
  from assms(2) obtain w1 w2 resp where w1: "act_throw (w_write k ?g) w = (Ret (), w1)"
    and w2: "readFull (w_read k) 2 w1 = (Ret resp, w2)" "resp ! 0 = 5"
    and end1: "resp ! 1 = 0 \<and> w' = w2 \<or> resp ! 1 = 2 \<and> auth \<noteq> None \<and> socks5Authenticate k (the auth) w2 = (Ret u, w')"
    unfolding socks5Handshake_def Let_def greeting_eq
    by (auto simp: socks5_consts act_bind_Ret_iff ThrowFmt_iff split: option.splits if_splits)
  from w1 have a1: "advance k w w1 [] [?g]" using write_advance [OF assms(1)] by (simp add: act_throw_iff)
  note a2 = readFull_advance [OF advance_open [OF a1] w2(1)]
  from list_two [OF a2(2)] w2(2) have resp: "resp = [5, resp ! 1]" by simp
  note a3 = advance_trans [OF a1 a2(1)]
  from end1 show ?thesis
  proof (elim disjE conjE)
    assume "resp ! 1 = 0" "w' = w2"
    with a3 resp show ?thesis
      by (intro exI [of _ 0] exI) (auto simp: method_bytes_def method_writes_def method_ok_def split: option.splits)
  next
    assume m: "resp ! 1 = 2" "auth \<noteq> None" "socks5Authenticate k (the auth) w2 = (Ret u, w')"
    then obtain a where a: "auth = Some a" by auto
    with authenticate_sound [OF advance_open [OF a2(1)] m(3)] obtain v where
      "advance k w2 w' [v, 0] [auth_bytes a]" "creds_ok a" by auto
    with advance_trans [OF a3 this(1)] a m resp show ?thesis
      by (intro exI [of _ 2] exI [of _ v]) (auto simp: method_bytes_def method_writes_def method_ok_def)
  qed
qed

definition request_ok_bytes :: "socks_reply \<Rightarrow> bytes" where
  "request_ok_bytes rp = [5, 0, rp_rsv rp] @ saddr_bytes (rp_bound rp) @ be16 (rp_port rp)"

lemma reply_bytes_split: "reply_bytes rp = method_bytes rp @ request_ok_bytes rp"
  by (simp add: reply_bytes_def method_bytes_def request_ok_bytes_def)

lemma client_writes_split: "client_writes auth (rp_method rp) cmd host port = method_writes auth rp @ [request_bytes cmd host port]"
  by (simp add: client_writes_def method_writes_def split: option.split)

lemma ready_ReadAddr:
  assumes "ready k w" "saddr_ok a" "conn_stream (w_conn k w) = saddr_bytes a @ be16 p @ tail"
  shows "\<exists>w'. socks5ReadAddr (w_read k) w = (Ret (saddr_host a, p), w') \<and> ready k w' \<and>
    advance k w w' (saddr_bytes a @ be16 p) [] \<and> conn_stream (w_conn k w') = tail"
proof -
  from conn_rd.ReadAddr_accepts [OF ready_open [OF assms(1)] assms(2,3)] obtain w' where
    w': "socks5ReadAddr (w_read k) w = (Ret (saddr_host a, p), w')" "conn_stream (w_conn k w') = tail"
      "conn_rd.same k w w'" by blast
  note same_advanceD [OF ready_open [OF assms(1)] w'(3)]
  with assms w' show ?thesis by (auto simp: advance_def)
qed

lemma request_sound_addr:
  assumes "conn_open k w" "socks5ReadAddr (w_read k) w = (Ret (h, p), w')"
  shows "\<exists>a. saddr_ok a \<and> h = saddr_host a \<and> advance k w w' (saddr_bytes a @ be16 p) []"
proof -
  from conn_rd.ReadAddr_sound [OF assms] obtain a where a: "saddr_ok a" "h = saddr_host a"
    "conn_stream (w_conn k w) = saddr_bytes a @ be16 p @ conn_stream (w_conn k w')" "conn_rd.same k w w'" by blast
  with same_advanceD(1,2) [OF assms(1) a(4)] show ?thesis by (auto simp: advance_def)
qed

lemma ready_request:
  assumes "ready k w" "ParseIP host \<noteq> []" "saddr_ok (rp_bound rp)"
    "conn_stream (w_conn k w) = request_ok_bytes rp @ tail"
  shows "\<exists>w'. socks5Request k cmd host port w = (Ret (saddr_host (rp_bound rp), rp_port rp), w') \<and> ready k w' \<and>
    advance k w w' (request_ok_bytes rp) [request_bytes cmd host port] \<and> conn_stream (w_conn k w') = tail"
proof -
  let ?b = "request_bytes cmd host port" and ?h = "[5, 0, rp_rsv rp]"
  let ?a = "saddr_bytes (rp_bound rp) @ be16 (rp_port rp)"
  obtain w1 where w1: "act_throw (w_write k ?b) w = (Ret (), w1)" "ready k w1" "advance k w w1 [] [?b]"
    using ready_write [OF assms(1)] by blast
  then have "conn_stream (w_conn k w1) = ?h @ ?a @ tail"
    using assms(4) by (simp add: advance_def request_ok_bytes_def)
  from ready_readFull [OF w1(2) this, of 3] obtain w2 where
    w2: "readFull (w_read k) 3 w1 = (Ret ?h, w2)" "ready k w2" "advance k w1 w2 ?h []" "conn_stream (w_conn k w2) = ?a @ tail"
    by auto
  from ready_ReadAddr [OF w2(2) assms(3)] w2(4) obtain w3 where
    w3: "socks5ReadAddr (w_read k) w2 = (Ret (saddr_host (rp_bound rp), rp_port rp), w3)" "ready k w3"
      "advance k w2 w3 ?a []" "conn_stream (w_conn k w3) = tail" by auto
  have "socks5Request k cmd host port w = (Ret (saddr_host (rp_bound rp), rp_port rp), w3)"
    using assms(2) w1(1) w2(1) w3(1)
    by (simp add: socks5Request_def socks5AppendAddr_eq socks5_consts request_bytes_def)
  with advance_trans [OF advance_trans [OF w1(3) w2(3)] w3(3)] w3 show ?thesis
    by (auto simp: request_ok_bytes_def)
qed

lemma request_sound:
  assumes "conn_open k w" "socks5Request k cmd host port w = (Ret (h, p), w')"
  shows "\<exists>rsv a. advance k w w' (request_ok_bytes (rp\<lparr>rp_rsv := rsv, rp_bound := a, rp_port := p\<rparr>)) [request_bytes cmd host port] \<and>
    saddr_ok a \<and> h = saddr_host a \<and> ParseIP host \<noteq> []"
proof -
  let ?b = "request_bytes cmd host port"
  from assms(2) obtain w1 w2 head where ip: "ParseIP host \<noteq> []" and w1: "act_throw (w_write k ?b) w = (Ret (), w1)"
    and w2: "readFull (w_read k) 3 w1 = (Ret head, w2)" "head ! 0 = 5" "head ! 1 = 0"
    and w3: "socks5ReadAddr (w_read k) w2 = (Ret (h, p), w')"
    unfolding socks5Request_def socks5AppendAddr_eq
    by (auto simp: socks5_consts request_bytes_def act_bind_Ret_iff ThrowFmt_iff throwSocks5Reply_def
        split: option.splits if_splits)
  from w1 have a1: "advance k w w1 [] [?b]" using write_advance [OF assms(1)] by (simp add: act_throw_iff)
  note a2 = readFull_advance [OF advance_open [OF a1] w2(1)]
  from list_three [OF a2(2)] w2(2,3) have head: "head = [5, 0, head ! 2]" by simp
  from request_sound_addr [OF advance_open [OF a2(1)] w3] obtain a where
    a: "saddr_ok a" "h = saddr_host a" "advance k w2 w' (saddr_bytes a @ be16 p) []" by blast
  from advance_trans [OF advance_trans [OF a1 a2(1)] a(3)] head a ip show ?thesis
    by (intro exI [of _ "head ! 2"] exI [of _ a]) (simp add: request_ok_bytes_def)
qed

section \<open>The connector\<close>

definition socks5_body :: "ProxyAddr \<Rightarrow> ctx \<Rightarrow> string \<Rightarrow> u16 \<Rightarrow> nat \<Rightarrow> (world, nat) act" where
  "socks5_body proxy cx host port conn =
     act_bind (applyDeadline cx conn) (\<lambda>_.
     act_bind (socks5Handshake conn (pa_Auth proxy)) (\<lambda>_.
     act_bind (socks5Request conn socks5CmdConnect host port) (\<lambda>_.
     act_bind (act_throw (w_set_deadline conn None)) (\<lambda>_.
     act_ret conn))))"

lemma socks5_connect_eq:
  "socks5Connector_connect tcp proxy cx network address w =
     act_bind (act_lift (hostPort address)) (\<lambda>(host, port).
       dial_then tcp cx (pa_Address proxy) (socks5_body proxy cx host port)) w"
  by (simp add: socks5Connector_connect_def dial_then_def socks5_body_def)

lemma socks5_negotiates: "negotiates (socks5_body proxy cx host port)"
proof -
  have "act_keeps (touched k w) (socks5_body proxy cx host port k)" for k w
    unfolding socks5_body_def by (intro keeps)
  then show ?thesis by (auto simp: negotiates_def socks5_body_def act_bind_Ret_iff)
qed

lemma hostPort_no_panic: "hostPort a \<noteq> Pan p"
  by (auto simp: hostPort_def res_bind_Pan_iff Throw3_iff Throw2_iff split: prod.split_asm)

lemma socks5_hop:
  "NewSOCKS5Connector tcp proxy =
     hop tcp proxy (\<lambda>cx address. res_bind (hostPort address) (\<lambda>(host, port). Ret (socks5_body proxy cx host port)))"
proof (intro ext)
  fix cx network address w
  have "socks5Connector_connect tcp proxy cx network address w =
      act_bind (act_lift (res_bind (hostPort address) (\<lambda>(host, port). Ret (socks5_body proxy cx host port))))
        (dial_then tcp cx (pa_Address proxy)) w"
    by (cases "hostPort address") (auto simp: socks5_connect_eq act_bind_def split: prod.split)
  then show "NewSOCKS5Connector tcp proxy cx network address w =
      hop tcp proxy (\<lambda>cx address. res_bind (hostPort address) (\<lambda>(host, port). Ret (socks5_body proxy cx host port)))
        cx network address w"
    by (simp add: NewSOCKS5Connector_def socks5Connector_DialContext_def hop_def act_bind_def act_try_def)
qed

lemma socks5_contract:
  assumes "connector_contract dial entry"
  shows "connector_contract (NewSOCKS5Connector dial proxy) (\<lambda>_ _. entry ''tcp'' (pa_Address proxy))"
  unfolding socks5_hop
  by (rule hop_contract [OF assms])
    (auto simp: res_bind_Ret_iff res_bind_Pan_iff hostPort_no_panic socks5_negotiates split: prod.split_asm)

lemma socks5_dial_eq:
  assumes "hostPort address = Ret (host, port)" "tcp cx ''tcp'' (pa_Address proxy) w = (Ret (Inr k), w1)"
  shows "NewSOCKS5Connector tcp proxy cx network address w =
    act_bind (act_try (CloseOnThrow (w_close k) (socks5_body proxy cx host port k))) (\<lambda>x. act_ret (via_error address proxy x)) w1"
  using assms by (simp add: socks5_hop hop_def dial_then_def act_bind_def act_try_def)

lemma ready_body:
  assumes "ready k w1" "ParseIP host \<noteq> []" "reply_ok (pa_Auth proxy) rp" "conn_stream (w_conn k w1) = reply_bytes rp @ tail"
  shows "\<exists>w'. socks5_body proxy cx host port k w1 = (Ret k, w') \<and> conn_stream (w_conn k w') = tail \<and>
    deadline (conn_raw (w_conn k w')) = None \<and>
    advance k w1 w' (reply_bytes rp) (client_writes (pa_Auth proxy) (rp_method rp) socks5CmdConnect host port)"
proof -
  let ?a = "pa_Auth proxy"
  from assms(3) have m: "method_ok ?a rp" "saddr_ok (rp_bound rp)" by (simp_all add: reply_ok_def method_ok_def)
  obtain w2 where w2: "applyDeadline cx k w1 = (Ret (), w2)" "ready k w2" "advance k w1 w2 [] []"
    using ready_applyDeadline [OF assms(1)] by blast
  then have "conn_stream (w_conn k w2) = method_bytes rp @ request_ok_bytes rp @ tail"
    using assms(4) by (simp add: advance_def reply_bytes_split)
  from ready_handshake [OF w2(2) m(1) this] obtain w3 where w3: "socks5Handshake k ?a w2 = (Ret (), w3)" "ready k w3"
    "advance k w2 w3 (method_bytes rp) (method_writes ?a rp)" "conn_stream (w_conn k w3) = request_ok_bytes rp @ tail" by blast
  from ready_request [OF w3(2) assms(2) m(2) w3(4)] obtain w4 where
    w4: "socks5Request k socks5CmdConnect host port w3 = (Ret (saddr_host (rp_bound rp), rp_port rp), w4)" "ready k w4"
    "advance k w3 w4 (request_ok_bytes rp) [request_bytes socks5CmdConnect host port]" "conn_stream (w_conn k w4) = tail" by blast
  obtain w5 where w5: "act_throw (w_set_deadline k None) w4 = (Ret (), w5)" "advance k w4 w5 [] []"
    "deadline (conn_raw (w_conn k w5)) = None" using ready_set_deadline [OF w4(2)] by blast
  from advance_trans [OF advance_trans [OF w2(3) w3(3)] advance_trans [OF w4(3) w5(2)]]
  have "advance k w1 w5 (reply_bytes rp) (client_writes ?a (rp_method rp) socks5CmdConnect host port)"
    by (simp add: reply_bytes_split client_writes_split)
  moreover have "conn_stream (w_conn k w5) = tail" using w4(4) w5(2) by (simp add: advance_def)
  ultimately show ?thesis using w2(1) w3(1) w4(1) w5 by (simp add: socks5_body_def)
qed

lemma body_sound:
  assumes "conn_open k w1" "socks5_body proxy cx host port k w1 = (Ret r, w')"
  shows "\<exists>rp. reply_ok (pa_Auth proxy) rp \<and> ParseIP host \<noteq> [] \<and> deadline (conn_raw (w_conn k w')) = None \<and>
    advance k w1 w' (reply_bytes rp) (client_writes (pa_Auth proxy) (rp_method rp) socks5CmdConnect host port)"
proof -
  let ?a = "pa_Auth proxy"
  from assms(2) obtain u2 w2 u3 w3 h p w4 u5 where
    w2: "applyDeadline cx k w1 = (Ret u2, w2)" and w3: "socks5Handshake k ?a w2 = (Ret u3, w3)"
    and w4: "socks5Request k socks5CmdConnect host port w3 = (Ret (h, p), w4)"
    and w5: "w_set_deadline k None w4 = (None, w')"
    by (auto simp: socks5_body_def act_bind_Ret_iff act_throw_iff)
  note a2 = applyDeadline_advance [OF assms(1) w2]
  obtain rp1 where a3: "advance k w2 w3 (method_bytes rp1) (method_writes ?a rp1)" "method_ok ?a rp1"
    using handshake_sound [OF advance_open [OF a2] w3] by blast
  obtain rsv a where a4: "advance k w3 w4 (request_ok_bytes (rp1\<lparr>rp_rsv := rsv, rp_bound := a, rp_port := p\<rparr>))
      [request_bytes socks5CmdConnect host port]" "saddr_ok a" "ParseIP host \<noteq> []"
    using request_sound [OF advance_open [OF a3(1)] w4, of rp1] by blast
  note a5 = set_deadline_advance [OF advance_open [OF a4(1)] w5]
  define rp where "rp = rp1\<lparr>rp_rsv := rsv, rp_bound := a, rp_port := p\<rparr>"
  have rp: "method_bytes rp = method_bytes rp1" "method_writes ?a rp = method_writes ?a rp1" "method_ok ?a rp = method_ok ?a rp1"
    by (simp_all add: rp_def method_bytes_def method_writes_def method_ok_def split: option.split)
  from advance_trans [OF advance_trans [OF a2 a3(1)] advance_trans [OF a4(1) a5]]
  have "advance k w1 w' (reply_bytes rp) (client_writes ?a (rp_method rp) socks5CmdConnect host port)"
    by (simp add: reply_bytes_split client_writes_split rp) (simp add: rp_def)
  moreover have "reply_ok ?a rp" using a3(2) a4(2) rp(3) by (simp add: reply_ok_def method_ok_def) (simp add: rp_def)
  moreover have "deadline (conn_raw (w_conn k w')) = None"
    using w5 advance_open [OF a4(1)] by (auto simp: w_set_deadline_def w_conn_def conn_open_def split: option.splits)
  ultimately show ?thesis using a4(3) by blast
qed

lemma handshake_first_writes:
  assumes "conn_open k w" "socks5Handshake k auth w = (x, w')"
  shows "wlog w' = wlog w @ [(k, greeting_bytes auth)] \<or> take 2 (conn_stream (w_conn k w)) = [5, 2]"
proof -
  obtain e w1 where w1: "w_write k (greeting_bytes auth) w = (e, w1)" by (cases "w_write k (greeting_bytes auth) w")
  note a1 = write_advance [OF assms(1) w1]
  obtain y w2 where w2: "readFull (w_read k) 2 w1 = (y, w2)" by (cases "readFull (w_read k) 2 w1")
  have log2: "wlog w2 = wlog w @ [(k, greeting_bytes auth)]"
    using readFull_conn(2) [OF advance_open [OF a1] w2] a1 by (simp add: advance_def)
  have st: "conn_stream (w_conn k w) = conn_stream (w_conn k w1)" using a1 by (simp add: advance_def)
  have take2: "resp = take 2 (conn_stream (w_conn k w))" if "y = Ret resp" for resp
    unfolding st by (rule conn_rd.readFull_Ret_iff [OF advance_open [OF a1] w2 [unfolded that], THEN conjunct1])
  show ?thesis
  proof (cases e)
    case None
    show ?thesis
    proof (cases y)
      case (Ret resp)
      have len: "length resp = 2" using readFull_advance(2) [OF advance_open [OF a1]] w2 Ret by blast
      show ?thesis
      proof (cases "resp ! 0 = 5 \<and> resp ! 1 = 2")
        case True
        with list_two [OF len] take2 [OF Ret] show ?thesis by simp
      next
        case False
        with assms(2) w1 w2 None Ret have "w' = w2"
          unfolding socks5Handshake_def Let_def greeting_eq
          by (auto simp: act_throw_def act_bind_def socks5_consts ThrowFmt_def split: if_splits)
        with log2 show ?thesis by simp
      qed
    qed (use assms(2) [unfolded socks5Handshake_def Let_def greeting_eq] w1 w2 None log2 in
        \<open>simp_all add: act_throw_def act_bind_def\<close>)
  next
    case (Some er)
    with assms(2) w1 a1 show ?thesis
      unfolding socks5Handshake_def Let_def greeting_eq by (simp add: act_throw_def act_bind_def advance_def)
  qed
qed

lemma saddr_host_literal: "ParseIP host \<noteq> [] \<Longrightarrow> saddr_host (literal_addr host) = ip_string (ParseIP host)"
  using ParseIP_length [of host] To4_length [of "ParseIP host"]
  by (auto simp: literal_addr_def ip_string_def)

lemma parse_udp_cases:
  "socks5ParseUDPDatagram b = Ret (h, p, d) \<longleftrightarrow>
     (\<exists>r1 r2 bs. b = [r1, r2, 0] @ bs \<and> socks5ReadAddr bytes_read bs = (Ret (h, p), d) \<and> bs \<noteq> [])"
proof
  assume r: "socks5ParseUDPDatagram b = Ret (h, p, d)"
  then have "4 \<le> length b" "b ! 2 = 0"
    by (auto simp: socks5ParseUDPDatagram_def res_simps split: if_splits)
  then have b: "b = [b ! 0, b ! 1, 0] @ drop 3 b" "drop 3 b \<noteq> []"
    by (cases b; cases "tl b"; cases "tl (tl b)"; auto)+
  obtain x rest where x: "socks5ReadAddr bytes_read (drop 3 b) = (x, rest)" by (cases "socks5ReadAddr bytes_read (drop 3 b)")
  with r have hp: "x = Ret (h, p)" "d = drop (length b - length rest) b"
    by (auto simp: socks5ParseUDPDatagram_def res_simps split: if_splits)
  with bytes_rd.ReadAddr_sound [of "drop 3 b" h p rest] x obtain a where
    "drop 3 b = saddr_bytes a @ be16 p @ rest" by auto
  then have "b = ([b ! 0, b ! 1, 0] @ saddr_bytes a @ be16 p) @ rest" using b(1) by simp
  then have "drop (length b - length rest) b = rest" by (metis append_eq_conv_conj length_append add_diff_cancel_right')
  with x hp have "socks5ReadAddr bytes_read (drop 3 b) = (Ret (h, p), d)" by simp
  with b show "\<exists>r1 r2 bs. b = [r1, r2, 0] @ bs \<and> socks5ReadAddr bytes_read bs = (Ret (h, p), d) \<and> bs \<noteq> []"
    by blast
next
  assume "\<exists>r1 r2 bs. b = [r1, r2, 0] @ bs \<and> socks5ReadAddr bytes_read bs = (Ret (h, p), d) \<and> bs \<noteq> []"
  then obtain r1 r2 bs where b: "b = [r1, r2, 0] @ bs" "socks5ReadAddr bytes_read bs = (Ret (h, p), d)" "bs \<noteq> []" by blast
  with bytes_rd.ReadAddr_sound [of bs h p d] obtain a where "bs = saddr_bytes a @ be16 p @ d" by auto
  then have "length b - length d = length ([r1, r2, 0] @ saddr_bytes a @ be16 p)"
    "b = ([r1, r2, 0] @ saddr_bytes a @ be16 p) @ d" using b(1) by auto
  then have "drop (length b - length d) b = d" "length d \<le> length b" by (metis append_eq_conv_conj, simp)
  with b show "socks5ParseUDPDatagram b = Ret (h, p, d)"
    by (auto simp: socks5ParseUDPDatagram_def index_def slice_def res_simps Suc_le_eq)
qed

lemma parse_udp_datagram:
  assumes "saddr_ok a"
  shows "socks5ParseUDPDatagram ([r1, r2, 0] @ saddr_bytes a @ be16 p @ d) = Ret (saddr_host a, p, d)"
proof -
  have "socks5ReadAddr bytes_read (saddr_bytes a @ be16 p @ d) = (Ret (saddr_host a, p), d)"
    using bytes_rd.ReadAddr_accepts [where a = a and p = p and tail = d] assms by auto
  moreover have "saddr_bytes a \<noteq> []" by (cases a) auto
  ultimately show ?thesis unfolding parse_udp_cases by fastforce
qed

section \<open>Properties\<close>

text \<open>
  C13: A SOCKS5 dial succeeds on every well-formed acceptance, however the proxy's bytes are cut into
  segments, and is transparent afterwards: the bytes the client put on the wire are the greeting, the
  credentials if the proxy asked for them and the CONNECT request, the bytes it consumed are exactly the
  proxy's reply, so that what the destination sends right after it is still there, and the dial's deadline
  is gone.
\<close>

theorem socks5_dial_transparent:
  assumes "tcp cx ''tcp'' (pa_Address proxy) w = (Ret (Inr k), w1)" and "ready k w1"
    and "hostPort address = Ret (host, port)" and "ParseIP host \<noteq> []"
    and "reply_ok (pa_Auth proxy) rp"
    and "conn_stream (w_conn k w1) = reply_bytes rp @ tail"
  shows "\<exists>w'. NewSOCKS5Connector tcp proxy cx network address w = (Ret (Inr k), w') \<and>
    conn_open k w' \<and> conn_stream (w_conn k w') = tail \<and> deadline (conn_raw (w_conn k w')) = None \<and>
    wlog w' = wlog w1 @ map (Pair k) (client_writes (pa_Auth proxy) (rp_method rp) socks5CmdConnect host port)"
proof -
  from ready_body [OF assms(2,4-6), of cx port] obtain w' where
    "socks5_body proxy cx host port k w1 = (Ret k, w')" "conn_stream (w_conn k w') = tail"
    "deadline (conn_raw (w_conn k w')) = None"
    "advance k w1 w' (reply_bytes rp) (client_writes (pa_Auth proxy) (rp_method rp) socks5CmdConnect host port)" by blast
  then show ?thesis
    using socks5_dial_eq [where tcp = tcp and cx = cx and proxy = proxy, OF assms(3,1)] advance_open
    by (auto simp: act_bind_def act_try_def CloseOnThrow_def via_error_def advance_def)
qed

text \<open>
  C14: A SOCKS5 dial succeeds on nothing else. When it returns a connection, what was read from the proxy
  is a reply the client may accept (version 5, a method that was offered, credentials confirmed, reply code 0, a
  well-formed bound address), and what was written is the greeting, the credentials if asked for, and the request.
\<close>

theorem socks5_dial_sound:
  assumes "tcp cx ''tcp'' (pa_Address proxy) w = (Ret (Inr k), w1)" and "conn_open k w1"
    and "NewSOCKS5Connector tcp proxy cx network address w = (Ret (Inr r), w')"
  shows "\<exists>host port rp. r = k \<and> hostPort address = Ret (host, port) \<and> reply_ok (pa_Auth proxy) rp \<and>
    conn_stream (w_conn k w1) = reply_bytes rp @ conn_stream (w_conn k w') \<and>
    wlog w' = wlog w1 @ map (Pair k) (client_writes (pa_Auth proxy) (rp_method rp) socks5CmdConnect host port)"
proof (cases "hostPort address")
  case (Ret hp)
  obtain host port where hp: "hostPort address = Ret (host, port)" using Ret by (cases hp) auto
  from assms(3) have b: "socks5_body proxy cx host port k w1 = (Ret r, w')"
    unfolding socks5_dial_eq [where tcp = tcp and cx = cx and proxy = proxy, OF hp assms(1)]
    by (auto simp: act_bind_Ret_iff act_try_iff CloseOnThrow_iff)
  moreover from b have "r = k" using socks5_negotiates unfolding negotiates_def by blast
  ultimately show ?thesis
    using body_sound [OF assms(2) b] hp by (auto simp: advance_def)
qed (use assms(3) in \<open>auto simp: socks5_hop hop_def act_bind_def act_try_def via_error_def\<close>)

text \<open>
  C37: The credentials of a hop are written only to a proxy that asked for them: unless the first two bytes the
  proxy sent are version 5 and method 2, the greeting is all the handshake writes, however it ends.
\<close>

theorem socks5_credentials_on_request_only:
  assumes "conn_open k w" and "socks5Handshake k auth w = (x, w')"
    and "take 2 (conn_stream (w_conn k w)) \<noteq> [5, 2]"
  shows "wlog w' = wlog w @ [(k, greeting_bytes auth)]"
  using handshake_first_writes [OF assms(1,2)] assms(3) by blast

text \<open>
  The UDP wrapper round trips: a datagram wrapped for any IP literal parses back to that address, the port and
  the payload, with the address in canonical form.
\<close>

lemma socks5_udp_roundtrip:
  assumes "ParseIP host \<noteq> []"
  shows "res_bind (socks5UDPDatagram host port payload) socks5ParseUDPDatagram
    = Ret (ip_string (ParseIP host), port, payload)"
proof -
  note parse_udp_datagram [OF literal_addr_ok [OF assms], of 0 0 port payload]
  with assms show ?thesis by (simp add: socks5UDPDatagram_def socks5AppendAddr_eq saddr_host_literal)
qed

text \<open>
  C36: The UDP parser accepts exactly the datagrams of RFC 1928 that are not fragments: two reserved bytes, a zero
  fragment number, an address, a port and the payload. No datagram, whatever its bytes, makes it panic.
\<close>

theorem socks5_udp_parse_exact:
  "(socks5ParseUDPDatagram b = Ret (h, p, d) \<longleftrightarrow>
     (\<exists>r1 r2 a. saddr_ok a \<and> h = saddr_host a \<and> b = [r1, r2, 0] @ saddr_bytes a @ be16 p @ d)) \<and>
   socks5ParseUDPDatagram b \<noteq> Pan q" (is "?exact \<and> ?nopanic")
proof
  show ?exact
  proof
    assume "socks5ParseUDPDatagram b = Ret (h, p, d)"
    then obtain r1 r2 bs where "b = [r1, r2, 0] @ bs" "socks5ReadAddr bytes_read bs = (Ret (h, p), d)"
      by (auto simp: parse_udp_cases)
    with bytes_rd.ReadAddr_sound [of bs h p d]
    show "\<exists>r1 r2 a. saddr_ok a \<and> h = saddr_host a \<and> b = [r1, r2, 0] @ saddr_bytes a @ be16 p @ d" by auto
  next
    assume "\<exists>r1 r2 a. saddr_ok a \<and> h = saddr_host a \<and> b = [r1, r2, 0] @ saddr_bytes a @ be16 p @ d"
    with parse_udp_datagram show "socks5ParseUDPDatagram b = Ret (h, p, d)" by blast
  qed
  show ?nopanic
  proof
    assume "socks5ParseUDPDatagram b = Pan q"
    then obtain bs r' where r: "4 \<le> length b" "bs = drop 3 b" "socks5ReadAddr bytes_read bs = (Pan q, r')"
      by (auto simp: socks5ParseUDPDatagram_def res_simps not_less split: if_splits prod.split_asm)
    with bytes_rd.ReadAddr_no_panic show False by simp
  qed
qed

text \<open>
  A concrete proxy for the witnesses: it asks for credentials, confirms them, accepts, and the destination's first
  bytes (\<^verbatim>\<open>SSH\<close>) come in the same segment as the end of the reply.
\<close>

definition demo_net :: netenv where
  "demo_net k network address =
     Inr \<lparr>segs = [[5], [2, 1, 0], [5, 0, 0, 1, 0, 0], [0, 0, 0, 0, 83, 83, 72]], fin = EOF, werrs = [],
          deadline = None, dlerr = None\<rparr>"

definition demo_world :: world where
  "demo_world = \<lparr>heap = Map.empty, dials = [], closed = [], wlog = []\<rparr>"

definition demo_proxy :: ProxyAddr where
  "demo_proxy = \<lparr>pa_Scheme = ''socks5'', pa_Address = ''192.0.2.1:1080'',
     pa_Auth = Some \<lparr>ui_username = ''u'', ui_password = Some ''pw''\<rparr>\<rparr>"

definition demo_ctx :: ctx where
  "demo_ctx = \<lparr>ctx_deadline = Some 10, ctx_udp_source = None\<rparr>"

definition demo_reply :: socks_reply where
  "demo_reply = \<lparr>rp_method = 2, rp_auth_version = 1, rp_rsv = 0, rp_bound = V4 [0, 0, 0, 0], rp_port = 0\<rparr>"

lemma demo_dial:
  "\<exists>w1. NewDirectConnector demo_net demo_ctx ''tcp'' (pa_Address demo_proxy) demo_world = (Ret (Inr 0), w1) \<and>
     ready 0 w1 \<and> conn_stream (w_conn 0 w1) = reply_bytes demo_reply @ [83, 83, 72] \<and> wlog w1 = []"
  by (simp add: NewDirectConnector_def demo_net_def demo_world_def demo_reply_def ready_def conn_open_def w_conn_def
      reply_bytes_def be16_def)

lemma demo_reply_ok: "reply_ok (pa_Auth demo_proxy) demo_reply"
  by (simp add: reply_ok_def demo_proxy_def demo_reply_def creds_ok_def)

lemma demo_hostPort: "hostPort ''198.51.100.7:22'' = Ret (''198.51.100.7'', 22)" "ParseIP ''198.51.100.7'' \<noteq> []"
  by code_simp+

theorem socks5_dial_transparent_witness:
  "\<exists>w'. NewSOCKS5Connector (NewDirectConnector demo_net) demo_proxy demo_ctx ''tcp'' ''198.51.100.7:22'' demo_world
      = (Ret (Inr 0), w') \<and> conn_stream (w_conn 0 w') = [83, 83, 72] \<and>
    wlog w' = map (Pair 0) (client_writes (pa_Auth demo_proxy) 2 socks5CmdConnect ''198.51.100.7'' 22)"
proof -
  from demo_dial obtain w1 where w1: "NewDirectConnector demo_net demo_ctx ''tcp'' (pa_Address demo_proxy) demo_world = (Ret (Inr 0), w1)"
    "ready 0 w1" "conn_stream (w_conn 0 w1) = reply_bytes demo_reply @ [83, 83, 72]" "wlog w1 = []" by blast
  have "rp_method demo_reply = 2" by (simp add: demo_reply_def)
  with socks5_dial_transparent [where tcp = "NewDirectConnector demo_net", OF w1(1,2) demo_hostPort demo_reply_ok w1(3)] w1(4)
  show ?thesis by auto
qed

theorem socks5_dial_sound_witness:
  "\<exists>w1 w' rp. NewDirectConnector demo_net demo_ctx ''tcp'' (pa_Address demo_proxy) demo_world = (Ret (Inr 0), w1) \<and>
    NewSOCKS5Connector (NewDirectConnector demo_net) demo_proxy demo_ctx ''tcp'' ''198.51.100.7:22'' demo_world
      = (Ret (Inr 0), w') \<and>
    reply_ok (pa_Auth demo_proxy) rp \<and> conn_stream (w_conn 0 w1) = reply_bytes rp @ conn_stream (w_conn 0 w')"
proof -
  from demo_dial obtain w1 where w1: "NewDirectConnector demo_net demo_ctx ''tcp'' (pa_Address demo_proxy) demo_world = (Ret (Inr 0), w1)"
    "ready 0 w1" "conn_stream (w_conn 0 w1) = reply_bytes demo_reply @ [83, 83, 72]" by blast
  obtain w' where w': "NewSOCKS5Connector (NewDirectConnector demo_net) demo_proxy demo_ctx ''tcp'' ''198.51.100.7:22'' demo_world
      = (Ret (Inr 0), w')"
    using ready_body [OF w1(2) demo_hostPort(2) demo_reply_ok w1(3), of demo_ctx 22]
      socks5_dial_eq [where tcp = "NewDirectConnector demo_net", OF demo_hostPort(1) w1(1)]
    by (auto simp: act_bind_def act_try_def CloseOnThrow_def via_error_def)
  from socks5_dial_sound [where tcp = "NewDirectConnector demo_net", OF w1(1) ready_open [OF w1(2)] w'] w1(1) w'
  show ?thesis by blast
qed

theorem socks5_credentials_on_request_only_witness:
  "\<exists>w x w'. conn_open 0 w \<and> conn_stream (w_conn 0 w) = [5, 0] \<and>
    socks5Handshake 0 (pa_Auth demo_proxy) w = (x, w') \<and> wlog w' = wlog w @ [(0, [5, 2, 0, 2])]"
proof -
  let ?r = "\<lparr>segs = [[5, 0]], fin = EOF, werrs = [], deadline = None, dlerr = None\<rparr> :: raw"
  let ?w = "demo_world\<lparr>heap := [0 \<mapsto> RawC ?r]\<rparr>"
  have w: "conn_open 0 ?w" "conn_stream (w_conn 0 ?w) = [5, 0]"
    by (simp_all add: conn_open_def w_conn_def demo_world_def)
  obtain x w' where r: "socks5Handshake 0 (pa_Auth demo_proxy) ?w = (x, w')"
    by (cases "socks5Handshake 0 (pa_Auth demo_proxy) ?w")
  have "take 2 (conn_stream (w_conn 0 ?w)) \<noteq> [5, 2]" unfolding w(2) by simp
  from socks5_credentials_on_request_only [OF w(1) r this] w r show ?thesis
    by (intro exI [of _ ?w] exI [of _ x] exI [of _ w']) (simp add: greeting_bytes_def demo_proxy_def)
qed

end
