(* ===== verification/HttpProxy.thy ===== *)
theory HttpProxy
  imports TextProto Socks5
begin

text \<open>
  The HTTP CONNECT connector of \<^verbatim>\<open>src/httpproxy.go\<close>. The response is read through a
  \<^verbatim>\<open>bufio.Reader\<close> that may already hold bytes of the tunnel; \<^verbatim>\<open>httpTunnel\<close> keeps
  reading through it, which is \<open>TunnelC\<close> of the connection model.
\<close>

section \<open>Definitions\<close>

definition crlf :: string where
  "crlf = [char_of (13::nat), char_of (10::nat)]"

definition http_request :: "userinfo option \<Rightarrow> string \<Rightarrow> string" where
  "http_request auth address =
     ''CONNECT '' @ address @ '' HTTP/1.1'' @ crlf @ ''Host: '' @ address @ crlf @
     (case auth of
        None \<Rightarrow> ''''
      | Some a \<Rightarrow>
          let pass = (case ui_password a of Some p \<Rightarrow> p | None \<Rightarrow> ''''); 
              credentials = base64_encode (bytes_of_string (ui_username a @ '':'' @ pass))
          in ''Proxy-Authorization: Basic '' @ credentials @ crlf) @
     crlf"

text \<open>\<^verbatim>\<open>bufio.NewReader(conn)\<close>, and an operation of that reader.\<close>

definition w_bufio_new :: "nat \<Rightarrow> (world, unit) act" where
  "w_bufio_new k w = (Ret (), w\<lparr>heap := (heap w)(k \<mapsto> TunnelC [] (w_conn k w))\<rparr>)"

definition w_bufio :: "nat \<Rightarrow> (bufio, 'a) act \<Rightarrow> (world, 'a) act" where
  "w_bufio k m w =
     (case w_conn k w of
        TunnelC buf c \<Rightarrow>
          (case m (buf, c) of (x, (buf', c')) \<Rightarrow> (x, w\<lparr>heap := (heap w)(k \<mapsto> TunnelC buf' c')\<rparr>))
      | RawC r \<Rightarrow> (Pan ''not a reader'', w))"

definition httpConnect :: "ctx \<Rightarrow> nat \<Rightarrow> userinfo option \<Rightarrow> string \<Rightarrow> (world, nat) act" where
  "httpConnect cx conn auth address =
     act_bind (applyDeadline cx conn) (\<lambda>_.
     act_bind (act_throw (w_write conn (bytes_of_string (http_request auth address)))) (\<lambda>_.
     act_bind (w_bufio_new conn) (\<lambda>_.
     act_bind (w_bufio conn textproto_ReadLine) (\<lambda>status.
     let parts = split_n CHR '' '' 3 status in
     if length parts < 2 \<or> \<not> has_prefix (parts ! 0) ''HTTP/''
     then act_lift (ThrowFmt ''http proxy: malformed response %q'' [status])
     else
       act_bind (w_bufio conn ReadMIMEHeader) (\<lambda>_.
       if parts ! 1 \<noteq> ''200''
       then act_lift (ThrowFmt ''http proxy: %s'' [trim_prefix status (parts ! 0 @ '' '')])
       else
         act_bind (act_throw (w_set_deadline conn None)) (\<lambda>_.
         act_ret conn))))))"

definition httpConnector_connect :: "(world, nat) connector \<Rightarrow> ProxyAddr \<Rightarrow> ctx \<Rightarrow> string \<Rightarrow> string \<Rightarrow> (world, nat) act" where
  "httpConnector_connect tcpConnector proxy cx network address =
     act_bind (act_bind (tcpConnector cx ''tcp'' (pa_Address proxy)) (\<lambda>x. act_lift (Throw2 x))) (\<lambda>conn.
       CloseOnThrow (w_close conn) (httpConnect cx conn (pa_Auth proxy) address))"

definition httpConnector_DialContext :: "(world, nat) connector \<Rightarrow> ProxyAddr \<Rightarrow> (world, nat) connector" where
  "httpConnector_DialContext tcpConnector proxy cx network address =
     act_bind (act_try (httpConnector_connect tcpConnector proxy cx network address)) (\<lambda>x.
       act_ret (via_error address proxy x))"

definition NewHTTPConnector :: "(world, nat) connector \<Rightarrow> ProxyAddr \<Rightarrow> (world, nat) connector" where
  "NewHTTPConnector connector proxy = httpConnector_DialContext connector proxy"

section \<open>The request\<close>

text \<open>A base64 decoder, for what the proxy makes of the credentials.\<close>

definition b64_val :: "char \<Rightarrow> nat option" where
  "b64_val c =
     (let n = of_char c in
      if 65 \<le> n \<and> n \<le> 90 then Some (n - 65) else if 97 \<le> n \<and> n \<le> 122 then Some (n - 71)
      else if 48 \<le> n \<and> n \<le> 57 then Some (n + 4) else if c = CHR ''+'' then Some 62
      else if c = CHR ''/'' then Some 63 else None)"

fun base64_decode :: "string \<Rightarrow> bytes option" where
  "base64_decode [] = Some []"
| "base64_decode (p # q # r # s # t) =
     (case (b64_val p, b64_val q, b64_val r, b64_val s) of
        (Some a, Some b, Some c, Some d) \<Rightarrow>
          (let n = a * 262144 + b * 4096 + c * 64 + d in
           map_option (\<lambda>u. [of_nat (n div 65536), of_nat (n div 256 mod 256), of_nat (n mod 256)] @ u) (base64_decode t))
      | (Some a, Some b, Some c, None) \<Rightarrow>
          if s = CHR ''='' \<and> t = [] then
            (let n = a * 262144 + b * 4096 + c * 64 in Some [of_nat (n div 65536), of_nat (n div 256 mod 256)])
          else None
      | (Some a, Some b, None, None) \<Rightarrow>
          if r = CHR ''='' \<and> s = CHR ''='' \<and> t = [] then
            (let n = a * 262144 + b * 4096 in Some [of_nat (n div 65536)])
          else None
      | _ \<Rightarrow> None)"
| "base64_decode _ = None"

lemma b64_table: "list_all (\<lambda>n. b64_val (b64_char n) = Some n) [0..<64]" "b64_val CHR ''='' = None"
  by code_simp+

lemma b64_val_char [simp]: "n < 64 \<Longrightarrow> b64_val (b64_char n) = Some n"
  using b64_table(1) by (simp add: list_all_iff)

lemma sextets: "(n::nat) div 262144 * 262144 + n div 4096 mod 64 * 4096 + n div 64 mod 64 * 64 + n mod 64 = n"
proof -
  have "n div 4096 = n div 262144 * 64 + n div 4096 mod 64"
    using div_mult_mod_eq [of "n div 4096" 64] by (simp add: div_mult2_eq [symmetric])
  moreover have "n div 64 = n div 4096 * 64 + n div 64 mod 64"
    using div_mult_mod_eq [of "n div 64" 64] by (simp add: div_mult2_eq [symmetric])
  moreover have "n = n div 64 * 64 + n mod 64" by simp
  ultimately show ?thesis by linarith
qed

lemma byte_bound: "unat (b :: byte) < 256"
  using unsigned_less [of b, where ?'a = nat] by simp

lemma octets:
  assumes "a < 256" "b < 256" "c < (256::nat)"
  shows "(a * 65536 + b * 256 + c) div 262144 < 64" "(a * 65536 + b * 256 + c) div 65536 = a"
    "(a * 65536 + b * 256 + c) div 256 mod 256 = b" "(a * 65536 + b * 256 + c) mod 256 = c"
proof -
  have "a * 65536 + b * 256 + c < 64 * 262144" using assms by linarith
  then show "(a * 65536 + b * 256 + c) div 262144 < 64" by (simp add: less_mult_imp_div_less)
  have "a * 65536 + b * 256 + c = (b * 256 + c) + a * 65536" "b * 256 + c < 65536" using assms by linarith+
  then show "(a * 65536 + b * 256 + c) div 65536 = a" by simp
  define m where "m = a * 256 + b"
  have "a * 65536 + b * 256 + c = c + m * 256" by (simp add: m_def)
  then have "(a * 65536 + b * 256 + c) div 256 = a * 256 + b" "(a * 65536 + b * 256 + c) mod 256 = c"
    using assms(3) by (simp_all add: m_def [symmetric])
  then show "(a * 65536 + b * 256 + c) div 256 mod 256 = b" "(a * 65536 + b * 256 + c) mod 256 = c"
    using assms(2) by simp_all
qed

lemma base64_roundtrip: "base64_decode (base64_encode b) = Some b"
proof (induction b rule: base64_encode.induct)
  case (1 a b c r)
  let ?n = "unat a * 65536 + unat b * 256 + unat c"
  note n = octets [OF byte_bound byte_bound byte_bound, of a b c]
  show ?case using 1 n sextets [of ?n] b64_table(2) by (simp add: Let_def)
next
  case (2 a b)
  let ?n = "unat a * 65536 + unat b * 256"
  have "?n = (unat a * 1024 + unat b * 4) * 64" by simp
  then have "?n mod 64 = 0" by (metis mod_mult_self2_is_0)
  with octets [OF byte_bound byte_bound, of 0 a b] have n: "?n div 262144 < 64" "?n div 65536 = unat a"
    "?n div 256 mod 256 = unat b" "?n mod 64 = 0" by simp_all
  show ?case using n sextets [of ?n] b64_table(2) by (simp add: Let_def)
next
  case (3 a)
  let ?n = "unat a * 65536"
  have n: "?n div 262144 < 64" "?n div 65536 = unat a" "?n mod 64 = 0" "?n div 64 mod 64 = 0"
    using octets [OF byte_bound, of 0 0 a] by auto
  show ?case using n sextets [of ?n] b64_table(2) by (simp add: Let_def)
qed simp

section \<open>The response\<close>

lemma w_bufio_keeps:
  assumes "\<And>s. length (fst s) \<le> bufio_size \<Longrightarrow> \<exists>x s'. m s = (x, s') \<and> bsame s s' \<and> (\<forall>p. x \<noteq> Pan p)"
  shows "act_keeps (\<lambda>v. touched k w v \<and> (\<exists>buf c. w_conn k v = TunnelC buf c \<and> length buf \<le> bufio_size)) (w_bufio k m)"
proof (rule act_keepsI)
  fix s x s'
  assume p: "touched k w s \<and> (\<exists>buf c. w_conn k s = TunnelC buf c \<and> length buf \<le> bufio_size)" and r: "w_bufio k m s = (x, s')"
  from p obtain buf c where t: "touched k w s" "w_conn k s = TunnelC buf c" "length buf \<le> bufio_size" by blast
  from assms [of "(buf, c)"] t(3) obtain y buf' c' where m: "m (buf, c) = (y, (buf', c'))" "bsame (buf, c) (buf', c')" "\<forall>p. y \<noteq> Pan p"
    by auto
  from m(2) obtain ss where raw: "conn_raw c' = (conn_raw c)\<lparr>segs := ss\<rparr>" "length buf' \<le> bufio_size" by (auto simp: bsame_def)
  from r t(2) m(1) have s': "x = y" "s' = s\<lparr>heap := (heap s)(k \<mapsto> TunnelC buf' c')\<rparr>" by (auto simp: w_bufio_def)
  have c: "w_conn k s' = TunnelC buf' c'" by (simp add: s' w_conn_def)
  moreover have "touched k w s'" using t(1,2) raw by (auto simp: s' touched_def conn_open_def w_conn_def conn_fin_def)
  ultimately show "(touched k w s' \<and> (\<exists>buf c. w_conn k s' = TunnelC buf c \<and> length buf \<le> bufio_size)) \<and> (\<forall>p. x \<noteq> Pan p)"
    using raw(2) m(3) s'(1) by simp
qed

lemma ReadLine_total:
  assumes "length (fst s) \<le> bufio_size"
  shows "\<exists>x s'. textproto_ReadLine s = (x, s') \<and> bsame s s' \<and> (\<forall>p. x \<noteq> Pan p) \<and>
    (\<forall>status. x = Ret status \<longrightarrow> bufio_stream s' = [] \<or>
      (\<exists>t. bufio_stream s = t @ [10] @ bufio_stream s' \<and> 10 \<notin> set t \<and> status = string_of_bytes (strip_cr t)))"
proof -
  obtain x s' where x: "readLineSlice None s = (Ret x, s')" "bsame s s'"
    "whole_line_spec None [] (bufio_stream s) x (bufio_stream s')"
    using readLineSlice_spec [OF assms] by blast
  then show ?thesis
    by (cases x; cases s') (auto simp: textproto_ReadLine_def whole_line_spec_def)
qed

text \<open>The part of \<^verbatim>\<open>httpConnect\<close> that reads the response.\<close>

definition http_response :: "nat \<Rightarrow> (world, nat) act" where
  "http_response conn =
     act_bind (w_bufio conn textproto_ReadLine) (\<lambda>status.
     let parts = split_n CHR '' '' 3 status in
     if length parts < 2 \<or> \<not> has_prefix (parts ! 0) ''HTTP/''
     then act_lift (ThrowFmt ''http proxy: malformed response %q'' [status])
     else
       act_bind (w_bufio conn ReadMIMEHeader) (\<lambda>_.
       if parts ! 1 \<noteq> ''200''
       then act_lift (ThrowFmt ''http proxy: %s'' [trim_prefix status (parts ! 0 @ '' '')])
       else
         act_bind (act_throw (w_set_deadline conn None)) (\<lambda>_.
         act_ret conn)))"

lemma httpConnect_eq:
  "httpConnect cx conn auth address =
     act_bind (applyDeadline cx conn) (\<lambda>_.
     act_bind (act_throw (w_write conn (bytes_of_string (http_request auth address)))) (\<lambda>_.
     act_bind (w_bufio_new conn) (\<lambda>_. http_response conn)))"
  by (simp add: httpConnect_def http_response_def)

abbreviation reading :: "nat \<Rightarrow> world \<Rightarrow> world \<Rightarrow> bool" where
  "reading k w v \<equiv> touched k w v \<and> (\<exists>buf c. w_conn k v = TunnelC buf c \<and> length buf \<le> bufio_size)"

lemma conn_map_raw_tunnel: "\<exists>c'. conn_map_raw f (TunnelC buf c) = TunnelC buf c'"
  by simp

lemma keeps_set_deadline_reading [keeps]: "act_keeps (reading k w) (act_throw (w_set_deadline k d))"
proof (rule act_keepsI)
  fix s x s' assume s: "reading k w s" "act_throw (w_set_deadline k d) s = (x, s')"
  from act_keepsD [OF keeps_set_deadline, of k w s d x s'] s have t: "touched k w s' \<and> (\<forall>p. x \<noteq> Pan p)" by blast
  from s have "\<exists>buf c. w_conn k s' = TunnelC buf c \<and> length buf \<le> bufio_size"
    by (auto simp: act_throw_def w_set_deadline_def w_conn_def split: if_splits option.splits)
  with t show "reading k w s' \<and> (\<forall>p. x \<noteq> Pan p)" by blast
qed

lemma keeps_bufio [keeps]:
  "act_keeps (reading k w) (w_bufio k textproto_ReadLine)" "act_keeps (reading k w) (w_bufio k ReadMIMEHeader)"
  using ReadLine_total ReadMIMEHeader_spec by (blast intro!: w_bufio_keeps)+

lemma keeps_response: "act_keeps (reading k w) (http_response k)"
  unfolding http_response_def Let_def by (intro keeps)

lemma bufio_new_reading:
  "touched k w s \<Longrightarrow> w_bufio_new k s = (x, s') \<Longrightarrow> reading k w s' \<and> x = Ret () \<and>
     conn_stream (w_conn k s') = conn_stream (w_conn k s) \<and> wlog s' = wlog s \<and> conn_ctl (w_conn k s') = conn_ctl (w_conn k s)"
  by (auto simp: w_bufio_new_def touched_def conn_open_def w_conn_def conn_fin_def conn_ctl_def)

lemma keeps_httpConnect: "act_keeps (touched k w) (httpConnect cx k auth address)"
proof -
  have "act_keeps (touched k w) (act_bind (w_bufio_new k) (\<lambda>_. http_response k))"
  proof (rule act_keepsI)
    fix s x s' assume s: "touched k w s" "act_bind (w_bufio_new k) (\<lambda>_. http_response k) s = (x, s')"
    obtain y s1 where n: "w_bufio_new k s = (y, s1)" by (cases "w_bufio_new k s")
    with bufio_new_reading [OF s(1) n] s(2) act_keepsD [OF keeps_response, of k w s1 x s']
    show "touched k w s' \<and> (\<forall>p. x \<noteq> Pan p)" by auto
  qed
  then show ?thesis
    unfolding httpConnect_eq by (intro act_keeps_bind [OF keeps_applyDeadline] act_keeps_bind [OF keeps_write])
qed

lemma http_negotiates: "negotiates (\<lambda>k. httpConnect cx k auth address)"
  using keeps_httpConnect
  by (auto simp: negotiates_def httpConnect_eq http_response_def act_bind_Ret_iff Let_def ThrowFmt_iff split: if_splits)

lemma http_hop:
  "NewHTTPConnector tcp proxy = hop tcp proxy (\<lambda>cx address. Ret (\<lambda>k. httpConnect cx k (pa_Auth proxy) address))"
  by (intro ext) (simp add: NewHTTPConnector_def httpConnector_DialContext_def httpConnector_connect_def hop_def dial_then_def
      act_bind_def act_try_def)

lemma http_contract:
  assumes "connector_contract dial entry"
  shows "connector_contract (NewHTTPConnector dial proxy) (\<lambda>_ _. entry ''tcp'' (pa_Address proxy))"
  unfolding http_hop by (rule hop_contract [OF assms]) (auto simp: http_negotiates)

text \<open>A status line the client takes for success.\<close>

definition http_ok :: "string \<Rightarrow> bool" where
  "http_ok status \<longleftrightarrow>
     (let parts = split_n CHR '' '' 3 status in
      2 \<le> length parts \<and> has_prefix (parts ! 0) ''HTTP/'' \<and> parts ! 1 = ''200'')"

lemma w_bufio_run:
  assumes "conn_open k w" "w_conn k w = TunnelC buf c" "m (buf, c) = (x, s')" "bsame (buf, c) s'"
  shows "\<exists>w'. w_bufio k m w = (x, w') \<and> w_conn k w' = TunnelC (fst s') (snd s') \<and> touched k w w' \<and> wlog w' = wlog w \<and>
    conn_ctl (w_conn k w') = conn_ctl (w_conn k w)"
proof -
  obtain buf' c' where s': "s' = (buf', c')" by (cases s')
  from assms(4) s' obtain ss where "conn_raw c' = (conn_raw c)\<lparr>segs := ss\<rparr>" by (auto simp: bsame_def)
  with assms(1-3) s' show ?thesis
    by (auto simp: w_bufio_def touched_def conn_open_def w_conn_def conn_fin_def conn_ctl_def)
qed

lemma touched_ready:
  "ready k w \<Longrightarrow> touched k w w' \<Longrightarrow> conn_ctl (w_conn k w') = conn_ctl (w_conn k w) \<Longrightarrow> ready k w'"
  by (simp add: ready_def touched_def conn_ctl_def)

lemma ReadLine_line:
  assumes "length (fst s) \<le> bufio_size" "bufio_stream s = t @ [13, 10] @ r" "10 \<notin> set t"
  shows "\<exists>s'. textproto_ReadLine s = (Ret (string_of_bytes t), s') \<and> bsame s s' \<and> bufio_stream s' = r"
  using readLineSlice_line [OF assms(1), of "t @ [13]" r] assms(2,3)
  by (auto simp: textproto_ReadLine_def strip_cr_snoc)

lemma conn_stream_tunnel: "conn_stream (TunnelC (fst s) (snd s)) = bufio_stream s"
  by (simp add: bufio_stream_def)

lemma ready_response:
  assumes "ready k w" "w_conn k w = TunnelC buf c" "length buf \<le> bufio_size"
    "conn_stream (w_conn k w) = t @ [13, 10] @ crlf_block hs @ tail" "10 \<notin> set t" "http_ok (string_of_bytes t)"
    "\<forall>l \<in> set hs. plain_field l"
  shows "\<exists>w'. http_response k w = (Ret k, w') \<and> touched k w w' \<and> wlog w' = wlog w \<and>
    conn_stream (w_conn k w') = tail \<and> deadline (conn_raw (w_conn k w')) = None"
proof -
  have st: "bufio_stream (buf, c) = t @ [13, 10] @ crlf_block hs @ tail" using assms(2,4) by (simp add: bufio_stream_def)
  obtain s1 where s1: "textproto_ReadLine (buf, c) = (Ret (string_of_bytes t), s1)" "bsame (buf, c) s1"
    "bufio_stream s1 = crlf_block hs @ tail"
    using ReadLine_line [of "(buf, c)", OF _ st assms(5)] assms(3) by auto
  obtain w1 where w1: "w_bufio k textproto_ReadLine w = (Ret (string_of_bytes t), w1)" "w_conn k w1 = TunnelC (fst s1) (snd s1)"
    "touched k w w1" "wlog w1 = wlog w" "conn_ctl (w_conn k w1) = conn_ctl (w_conn k w)"
    using w_bufio_run [where m = textproto_ReadLine, OF ready_open [OF assms(1)] assms(2) s1(1,2)] by blast
  obtain s2 where s2: "ReadMIMEHeader s1 = (Ret (), s2)" "bsame s1 s2" "bufio_stream s2 = tail"
    using ReadMIMEHeader_plain [OF bsame_bok [OF s1(2)] assms(7) s1(3)] by blast
  obtain w2 where w2: "w_bufio k ReadMIMEHeader w1 = (Ret (), w2)" "w_conn k w2 = TunnelC (fst s2) (snd s2)"
    "touched k w1 w2" "wlog w2 = wlog w1" "conn_ctl (w_conn k w2) = conn_ctl (w_conn k w1)"
    using w_bufio_run [OF touched_open [OF w1(3)] w1(2), of ReadMIMEHeader "Ret ()" s2] s2 by auto
  have "ready k w2" using touched_ready touched_ready w1 w2 assms(1) by blast
  from ready_set_deadline [OF this] obtain w3 where w3: "act_throw (w_set_deadline k None) w2 = (Ret (), w3)"
    "advance k w2 w3 [] []" "deadline (conn_raw (w_conn k w3)) = None" by blast
  have "http_response k w = (Ret k, w3)"
    using w1(1) w2(1) w3(1) assms(6) by (simp add: http_response_def http_ok_def Let_def not_less)
  moreover have "conn_stream (w_conn k w3) = tail" using w3(2) w2(2) s2(3) conn_stream_tunnel by (simp add: advance_def)
  moreover have "touched k w w3" using w1(3) w2(3) w3(2) touched_trans by (auto simp: advance_def)
  moreover have "wlog w3 = wlog w" using w1(4) w2(4) w3(2) by (simp add: advance_def)
  ultimately show ?thesis using w3(3) by blast
qed

lemma response_sound:
  assumes "conn_open k w" "w_conn k w = TunnelC buf c" "length buf \<le> bufio_size" "http_response k w = (Ret r, w')"
  shows "\<exists>t b. conn_stream (w_conn k w) = t @ [10] @ b @ conn_stream (w_conn k w') \<and> 10 \<notin> set t \<and>
    http_ok (string_of_bytes (strip_cr t)) \<and> header_block b \<and> wlog w' = wlog w"
proof -
  from assms(4) obtain status w1 w2 where w1: "w_bufio k textproto_ReadLine w = (Ret status, w1)"
    and w2: "w_bufio k ReadMIMEHeader w1 = (Ret (), w2)" and ok: "http_ok status"
    and w3: "act_throw (w_set_deadline k None) w2 = (Ret (), w')"
    by (auto simp: http_response_def http_ok_def act_bind_Ret_iff Let_def ThrowFmt_iff not_less split: if_splits)
  obtain x s1 where s1: "textproto_ReadLine (buf, c) = (x, s1)" "bsame (buf, c) s1"
    "\<And>status. x = Ret status \<Longrightarrow> bufio_stream s1 = [] \<or>
      (\<exists>t. bufio_stream (buf, c) = t @ [10] @ bufio_stream s1 \<and> 10 \<notin> set t \<and> status = string_of_bytes (strip_cr t))"
    using ReadLine_total [of "(buf, c)"] assms(3) by auto
  from w_bufio_run [where m = textproto_ReadLine, OF assms(1,2) s1(1,2)] w1 have v1: "x = Ret status" "w_conn k w1 = TunnelC (fst s1) (snd s1)"
    "touched k w w1" "wlog w1 = wlog w" by auto
  obtain y s2 where s2: "ReadMIMEHeader s1 = (y, s2)" "bsame s1 s2"
    "y = Ret () \<Longrightarrow> \<exists>b. header_block b \<and> bufio_stream s1 = b @ bufio_stream s2"
    using ReadMIMEHeader_spec [OF bsame_bok [OF s1(2)]] by blast
  from w_bufio_run [OF touched_open [OF v1(3)] v1(2), of ReadMIMEHeader y s2] s2 w2
  have v2: "y = Ret ()" "w_conn k w2 = TunnelC (fst s2) (snd s2)" "touched k w1 w2" "wlog w2 = wlog w1" by auto
  from s2(3) [OF v2(1)] obtain b where b: "header_block b" "bufio_stream s1 = b @ bufio_stream s2" by blast
  then have "bufio_stream s1 \<noteq> []" by (auto simp: header_block_def)
  with s1(3) [OF v1(1)] obtain t where t: "bufio_stream (buf, c) = t @ [10] @ bufio_stream s1" "10 \<notin> set t"
    "status = string_of_bytes (strip_cr t)" by blast
  from w3 have "advance k w2 w' [] []" using set_deadline_advance [OF touched_open [OF v2(3)]] by (simp add: act_throw_iff)
  then have "conn_stream (w_conn k w') = bufio_stream s2" "wlog w' = wlog w2"
    using v2(2) conn_stream_tunnel by (simp_all add: advance_def)
  moreover have "conn_stream (w_conn k w) = bufio_stream (buf, c)" using assms(2) by (simp add: bufio_stream_def)
  ultimately show ?thesis using t b ok v1(4) v2(4) by (intro exI [of _ t] exI [of _ b]) simp
qed

lemma http_dial_eq:
  assumes "tcp cx ''tcp'' (pa_Address proxy) w = (Ret (Inr k), w1)"
  shows "NewHTTPConnector tcp proxy cx network address w =
    act_bind (act_try (CloseOnThrow (w_close k) (httpConnect cx k (pa_Auth proxy) address))) (\<lambda>x. act_ret (via_error address proxy x)) w1"
  using assms by (simp add: http_hop hop_def dial_then_def act_bind_def act_try_def)

lemma ready_httpConnect:
  assumes "ready k w1" "conn_stream (w_conn k w1) = t @ [13, 10] @ crlf_block hs @ tail" "10 \<notin> set t"
    "http_ok (string_of_bytes t)" "\<forall>l \<in> set hs. plain_field l"
  shows "\<exists>w'. httpConnect cx k auth address w1 = (Ret k, w') \<and> conn_open k w' \<and> conn_stream (w_conn k w') = tail \<and>
    deadline (conn_raw (w_conn k w')) = None \<and> wlog w' = wlog w1 @ [(k, bytes_of_string (http_request auth address))]"
proof -
  let ?b = "bytes_of_string (http_request auth address)"
  obtain w2 where w2: "applyDeadline cx k w1 = (Ret (), w2)" "ready k w2" "advance k w1 w2 [] []"
    using ready_applyDeadline [OF assms(1)] by blast
  obtain w3 where w3: "act_throw (w_write k ?b) w2 = (Ret (), w3)" "ready k w3" "advance k w2 w3 [] [?b]"
    using ready_write [OF w2(2)] by blast
  obtain w4 where w4: "w_bufio_new k w3 = (Ret (), w4)" by (simp add: w_bufio_new_def)
  from bufio_new_reading [OF touched_refl [OF ready_open [OF w3(2)]] w4]
  have v4: "touched k w3 w4" "conn_stream (w_conn k w4) = conn_stream (w_conn k w3)" "wlog w4 = wlog w3"
    "conn_ctl (w_conn k w4) = conn_ctl (w_conn k w3)" by blast+
  have c4: "w_conn k w4 = TunnelC [] (w_conn k w3)" using w4 by (auto simp: w_bufio_new_def w_conn_def)
  have "conn_stream (w_conn k w4) = t @ [13, 10] @ crlf_block hs @ tail"
    using v4(2) w2(3) w3(3) assms(2) by (simp add: advance_def)
  from ready_response [OF touched_ready [OF w3(2) v4(1,4)] c4 _ this assms(3-5)] obtain w' where
    "http_response k w4 = (Ret k, w')" "touched k w4 w'" "wlog w' = wlog w4" "conn_stream (w_conn k w') = tail"
    "deadline (conn_raw (w_conn k w')) = None" by auto
  then show ?thesis using w2 w3 w4 v4 by (auto simp: httpConnect_eq advance_def touched_def)
qed

lemma b64_char_safe: "n < 64 \<Longrightarrow> b64_char n \<noteq> char_of (13::nat) \<and> b64_char n \<noteq> char_of (10::nat)"
proof -
  have "list_all (\<lambda>n. b64_char n \<noteq> char_of (13::nat) \<and> b64_char n \<noteq> char_of (10::nat)) [0..<64]" by code_simp
  then show "n < 64 \<Longrightarrow> ?thesis" by (simp add: list_all_iff)
qed

lemma b64_pad_safe: "CHR ''='' \<noteq> char_of (13::nat)" "CHR ''='' \<noteq> char_of (10::nat)"
  by code_simp+

lemma base64_encode_safe: "c \<in> set (base64_encode b) \<Longrightarrow> c \<noteq> char_of (13::nat) \<and> c \<noteq> char_of (10::nat)"
proof (induction b arbitrary: c rule: base64_encode.induct)
  case (1 x y z r)
  have "(unat x * 65536 + unat y * 256 + unat z) div 262144 < 64" using octets(1) [OF byte_bound byte_bound byte_bound] .
  with 1 show ?case using b64_char_safe by (auto simp: Let_def)
next
  case (2 x y)
  have "(unat x * 65536 + unat y * 256) div 262144 < 64" using octets(1) [OF byte_bound byte_bound, of 0 x y] by simp
  with 2 show ?case using b64_char_safe b64_pad_safe by (auto simp: Let_def)
next
  case (3 x)
  have "unat x * 65536 div 262144 < 64" using octets(1) [OF byte_bound, of 0 0 x] by simp
  with 3 show ?case using b64_char_safe b64_pad_safe by (auto simp: Let_def)
qed simp

section \<open>Properties\<close>

text \<open>
  C15: An HTTP CONNECT dial succeeds on every 200 response with unfolded headers, however the bytes are cut into
  segments and wherever the 4096-byte buffer ends, and the tunnel loses nothing: what the proxy sent right after the
  header block, in the reader's buffer or not, is what the connection delivers next.
\<close>

theorem http_tunnel_transparent:
  assumes "tcp cx ''tcp'' (pa_Address proxy) w = (Ret (Inr k), w1)" and "ready k w1"
    and "conn_stream (w_conn k w1) = t @ [13, 10] @ crlf_block hs @ tail" and "10 \<notin> set t"
    and "http_ok (string_of_bytes t)" and "\<forall>l \<in> set hs. plain_field l"
  shows "\<exists>w'. NewHTTPConnector tcp proxy cx network address w = (Ret (Inr k), w') \<and> conn_open k w' \<and>
    conn_stream (w_conn k w') = tail \<and> deadline (conn_raw (w_conn k w')) = None \<and>
    wlog w' = wlog w1 @ [(k, bytes_of_string (http_request (pa_Auth proxy) address))]"
  using ready_httpConnect [OF assms(2-6), of cx "pa_Auth proxy" address]
    http_dial_eq [where tcp = tcp and cx = cx and proxy = proxy, OF assms(1)]
  by (auto simp: act_bind_def act_try_def CloseOnThrow_def via_error_def)

text \<open>
  C16: An HTTP dial succeeds on nothing but a 200 response, and consumes exactly its header block: the status line,
  the header lines and the first blank line after them.
\<close>

theorem http_dial_sound:
  assumes "tcp cx ''tcp'' (pa_Address proxy) w = (Ret (Inr k), w1)" and "conn_open k w1"
    and "NewHTTPConnector tcp proxy cx network address w = (Ret (Inr r), w')"
  shows "\<exists>t b. conn_stream (w_conn k w1) = t @ [10] @ b @ conn_stream (w_conn k w') \<and> 10 \<notin> set t \<and>
    http_ok (string_of_bytes (strip_cr t)) \<and> header_block b \<and>
    wlog w' = wlog w1 @ [(k, bytes_of_string (http_request (pa_Auth proxy) address))]"
proof -
  let ?b = "bytes_of_string (http_request (pa_Auth proxy) address)"
  have "httpConnect cx k (pa_Auth proxy) address w1 = (Ret r, w')"
    using assms(3) unfolding http_dial_eq [where tcp = tcp and cx = cx and proxy = proxy, OF assms(1)]
    by (auto simp: act_bind_Ret_iff act_try_iff CloseOnThrow_iff)
  then obtain u w2 w3 w4 where w2: "applyDeadline cx k w1 = (Ret u, w2)" and w3: "w_write k ?b w2 = (None, w3)"
    and w4: "w_bufio_new k w3 = (Ret (), w4)" and r: "http_response k w4 = (Ret r, w')"
    by (auto simp: httpConnect_eq act_bind_Ret_iff act_throw_iff)
  note a2 = applyDeadline_advance [OF assms(2) w2]
  note a3 = advance_trans [OF a2 write_advance [OF advance_open [OF a2] w3]]
  from bufio_new_reading [OF touched_refl [OF advance_open [OF a3]] w4]
  have v4: "touched k w3 w4" "conn_stream (w_conn k w4) = conn_stream (w_conn k w3)" "wlog w4 = wlog w3" by blast+
  have c4: "w_conn k w4 = TunnelC [] (w_conn k w3)" using w4 by (auto simp: w_bufio_new_def w_conn_def)
  from response_sound [OF touched_open [OF v4(1)] c4 _ r] v4 a3 show ?thesis by (auto simp: advance_def)
qed

text \<open>
  The CONNECT request carries the hop's credentials intact and nothing else of them: the
  \<^verbatim>\<open>Proxy-Authorization\<close> value decodes to user, colon and password, and no byte of the credentials can end
  the header line.
\<close>

lemma http_request_credentials:
  "\<exists>X. http_request (Some a) address =
      ''CONNECT '' @ address @ '' HTTP/1.1'' @ crlf @ ''Host: '' @ address @ crlf @
      ''Proxy-Authorization: Basic '' @ X @ crlf @ crlf \<and>
    base64_decode X = Some (bytes_of_string
      (ui_username a @ '':'' @ (case ui_password a of Some p \<Rightarrow> p | None \<Rightarrow> ''''))) \<and>
    set crlf \<inter> set X = {}"
proof (rule exI, intro conjI)
  let ?X = "base64_encode (bytes_of_string (ui_username a @ '':'' @ (case ui_password a of Some p \<Rightarrow> p | None \<Rightarrow> '''')))"
  show "http_request (Some a) address = ''CONNECT '' @ address @ '' HTTP/1.1'' @ crlf @ ''Host: '' @ address @ crlf @
      ''Proxy-Authorization: Basic '' @ ?X @ crlf @ crlf"
    by (simp add: http_request_def Let_def)
  show "set crlf \<inter> set ?X = {}" using base64_encode_safe unfolding crlf_def by fastforce
qed (rule base64_roundtrip)

text \<open>
  A concrete proxy for the witnesses: its response comes in three segments, the last one with the end of the header
  block and the first bytes of the tunnel.
\<close>

definition demo_status :: bytes where
  "demo_status = bytes_of_string ''HTTP/1.1 200 Connection established''"

definition demo_fields :: "bytes list" where
  "demo_fields = [bytes_of_string ''Via: p'']"

definition demo_http_net :: netenv where
  "demo_http_net k network address =
     Inr \<lparr>segs = [take 4 demo_status, drop 4 demo_status @ [13], [10] @ crlf_block demo_fields @ [83, 83, 72]],
          fin = EOF, werrs = [], deadline = None, dlerr = None\<rparr>"

lemma demo_http_dial:
  "\<exists>w1. NewDirectConnector demo_http_net demo_ctx ''tcp'' (pa_Address demo_proxy) demo_world = (Ret (Inr 0), w1) \<and>
     ready 0 w1 \<and> conn_stream (w_conn 0 w1) = demo_status @ [13, 10] @ crlf_block demo_fields @ [83, 83, 72] \<and> wlog w1 = []"
proof -
  have "take 4 demo_status @ drop 4 demo_status @ x = demo_status @ x" for x
    by (simp flip: append_assoc)
  then show ?thesis
    by (simp add: NewDirectConnector_def demo_http_net_def demo_world_def ready_def conn_open_def w_conn_def)
qed

lemma demo_http_ok:
  "10 \<notin> set demo_status" "http_ok (string_of_bytes demo_status)" "\<forall>l \<in> set demo_fields. plain_field l"
  by code_simp+

theorem http_tunnel_transparent_witness:
  "\<exists>w'. NewHTTPConnector (NewDirectConnector demo_http_net) demo_proxy demo_ctx ''tcp'' ''198.51.100.7:22'' demo_world
      = (Ret (Inr 0), w') \<and> conn_stream (w_conn 0 w') = [83, 83, 72]"
proof -
  from demo_http_dial obtain w1 where w1:
    "NewDirectConnector demo_http_net demo_ctx ''tcp'' (pa_Address demo_proxy) demo_world = (Ret (Inr 0), w1)" "ready 0 w1"
    "conn_stream (w_conn 0 w1) = demo_status @ [13, 10] @ crlf_block demo_fields @ [83, 83, 72]" by blast
  from http_tunnel_transparent [where tcp = "NewDirectConnector demo_http_net", OF w1 demo_http_ok] show ?thesis by blast
qed

theorem http_dial_sound_witness:
  "\<exists>w1 w' t b. NewHTTPConnector (NewDirectConnector demo_http_net) demo_proxy demo_ctx ''tcp'' ''198.51.100.7:22'' demo_world
      = (Ret (Inr 0), w') \<and> conn_stream (w_conn 0 w1) = t @ [10] @ b @ conn_stream (w_conn 0 w') \<and>
    http_ok (string_of_bytes (strip_cr t)) \<and> header_block b"
proof -
  from demo_http_dial obtain w1 where w1:
    "NewDirectConnector demo_http_net demo_ctx ''tcp'' (pa_Address demo_proxy) demo_world = (Ret (Inr 0), w1)" "ready 0 w1"
    "conn_stream (w_conn 0 w1) = demo_status @ [13, 10] @ crlf_block demo_fields @ [83, 83, 72]" by blast
  obtain w' where w': "NewHTTPConnector (NewDirectConnector demo_http_net) demo_proxy demo_ctx ''tcp'' ''198.51.100.7:22'' demo_world
      = (Ret (Inr 0), w')"
    using ready_httpConnect [OF w1(2,3) demo_http_ok, of demo_ctx "pa_Auth demo_proxy" "''198.51.100.7:22''"]
      http_dial_eq [where tcp = "NewDirectConnector demo_http_net", OF w1(1)]
    by (auto simp: act_bind_def act_try_def CloseOnThrow_def via_error_def)
  from http_dial_sound [where tcp = "NewDirectConnector demo_http_net", OF w1(1) ready_open [OF w1(2)] w'] w' show ?thesis by blast
qed

end
