(* ===== verification/Chain.thy ===== *)
theory Chain
  imports HttpProxy
begin

text \<open>
  \<^verbatim>\<open>buildProxyChain\<close> of \<^verbatim>\<open>src/run.go\<close>: the \<^verbatim>\<open>-F\<close> hops stacked into one TCP
  connector and one UDP connector, and what the whole stack shows to the operating system. The TCP connectors
  are functions that keep the connector contract; a UDP connector is kept as the structure the code
  builds, so that it can be said which hop dials what through which.
\<close>

section \<open>Definitions\<close>

datatype udpConnector =
    UDPDirect
  | UDPUnsupported string
  | UDPSocks5 "(world, nat) connector" udpConnector ProxyAddr

definition NewSOCKS5UDPConnector :: "(world, nat) connector \<Rightarrow> udpConnector \<Rightarrow> ProxyAddr \<Rightarrow> udpConnector" where
  "NewSOCKS5UDPConnector tcp udp proxy = UDPSocks5 tcp udp proxy"

text \<open>The loop over the hops: the connector so far, the connectors made, and whether one was HTTP.\<close>

fun tcp_hops :: "ProxyAddr list \<Rightarrow> (world, nat) connector \<Rightarrow> (world, nat) connector list \<Rightarrow> bool \<Rightarrow>
    (world, nat) connector \<times> (world, nat) connector list \<times> bool" where
  "tcp_hops [] tcpConn tcpHops httpHop = (tcpConn, tcpHops, httpHop)"
| "tcp_hops (proxy # proxies) tcpConn tcpHops httpHop =
     (if pa_Scheme proxy = ''http''
      then let c = NewHTTPConnector tcpConn proxy in tcp_hops proxies c (tcpHops @ [c]) True
      else let c = NewSOCKS5Connector tcpConn proxy in tcp_hops proxies c (tcpHops @ [c]) httpHop)"

fun udp_hops :: "nat \<Rightarrow> ProxyAddr list \<Rightarrow> (world, nat) connector list \<Rightarrow> udpConnector \<Rightarrow> udpConnector res" where
  "udp_hops i [] tcpHops udpConn = Ret udpConn"
| "udp_hops i (proxy # proxies) tcpHops udpConn =
     res_bind (index i tcpHops) (\<lambda>hop. udp_hops (Suc i) proxies tcpHops (NewSOCKS5UDPConnector hop udpConn proxy))"

definition buildProxyChain :: "netenv \<Rightarrow> ProxyAddr list \<Rightarrow> ((world, nat) connector \<times> udpConnector) res" where
  "buildProxyChain env proxies =
     (let direct = NewDirectConnector env in
      case tcp_hops proxies direct [direct] False of (tcpConn, tcpHops, httpHop) \<Rightarrow>
        if httpHop then Ret (tcpConn, UDPUnsupported ''udp is not supported through an HTTP proxy'')
        else res_bind (udp_hops 0 proxies tcpHops UDPDirect) (\<lambda>udpConn. Ret (tcpConn, udpConn)))"

section \<open>The stack as a fold\<close>

definition new_hop :: "ProxyAddr \<Rightarrow> (world, nat) connector \<Rightarrow> (world, nat) connector" where
  "new_hop proxy c = (if pa_Scheme proxy = ''http'' then NewHTTPConnector c proxy else NewSOCKS5Connector c proxy)"

definition through :: "netenv \<Rightarrow> ProxyAddr list \<Rightarrow> (world, nat) connector" where
  "through env proxies = foldl (\<lambda>c p. new_hop p c) (NewDirectConnector env) proxies"

fun udp_spec :: "netenv \<Rightarrow> ProxyAddr list \<Rightarrow> ProxyAddr list \<Rightarrow> udpConnector \<Rightarrow> udpConnector" where
  "udp_spec env before [] u = u"
| "udp_spec env before (p # ps) u = udp_spec env (before @ [p]) ps (UDPSocks5 (through env before) u p)"

lemma tcp_hops_eq:
  "tcp_hops proxies c hops h =
     (foldl (\<lambda>c p. new_hop p c) c proxies,
      hops @ map (\<lambda>i. foldl (\<lambda>c p. new_hop p c) c (take (Suc i) proxies)) [0..<length proxies],
      h \<or> (\<exists>p \<in> set proxies. pa_Scheme p = ''http''))"
proof (induction proxies arbitrary: c hops h)
  case (Cons p ps)
  have split: "[0..<length (p # ps)] = 0 # map Suc [0..<length ps]"
    by (simp add: upt_conv_Cons map_Suc_upt del: upt_Suc)
  show ?case
    using Cons.IH by (simp only: tcp_hops.simps split) (auto simp: new_hop_def Let_def comp_def)
qed simp

lemma udp_hops_eq:
  "tcpHops = map (\<lambda>i. through env (take i all)) [0..<Suc (length all)] \<Longrightarrow> all = before @ proxies \<Longrightarrow>
     udp_hops (length before) proxies tcpHops u = Ret (udp_spec env before proxies u)"
proof (induction proxies arbitrary: before u)
  case (Cons p ps)
  have "index (length before) tcpHops = Ret (through env before)"
    using Cons.prems by (simp add: index_def del: upt_Suc)
  with Cons.IH [of "before @ [p]"] Cons.prems show ?case
    by (simp add: NewSOCKS5UDPConnector_def del: upt_Suc)
qed simp

lemma buildProxyChain_eq:
  "buildProxyChain env proxies = Ret (through env proxies,
     if \<exists>p \<in> set proxies. pa_Scheme p = ''http'' then UDPUnsupported ''udp is not supported through an HTTP proxy''
     else udp_spec env [] proxies UDPDirect)"
proof -
  let ?hops = "NewDirectConnector env # map (\<lambda>i. through env (take (Suc i) proxies)) [0..<length proxies]"
  have hops: "?hops = map (\<lambda>i. through env (take i proxies)) [0..<Suc (length proxies)]"
    by (subst upt_conv_Cons) (simp_all add: through_def map_Suc_upt [symmetric] comp_def del: upt_Suc)
  have "udp_hops 0 proxies ?hops UDPDirect = Ret (udp_spec env [] proxies UDPDirect)"
    using udp_hops_eq [OF hops, where before = "[]" and u = UDPDirect] by simp
  then show ?thesis
    by (simp add: buildProxyChain_def tcp_hops_eq Let_def through_def)
qed

section \<open>The contract of the stack\<close>

lemma new_hop_contract:
  "connector_contract dial entry \<Longrightarrow> connector_contract (new_hop p dial) (\<lambda>_ _. entry ''tcp'' (pa_Address p))"
  by (simp add: new_hop_def http_contract socks5_contract)

text \<open>What the operating system is asked for when the chain is dialled.\<close>

definition chain_entry :: "ProxyAddr list \<Rightarrow> string \<Rightarrow> string \<Rightarrow> string \<times> string" where
  "chain_entry proxies network address =
     (case proxies of [] \<Rightarrow> (network, address) | p # _ \<Rightarrow> (''tcp'', pa_Address p))"

lemma chain_contract: "connector_contract (through env proxies) (chain_entry proxies)"
proof (induction proxies rule: rev_induct)
  case Nil
  have "chain_entry [] = Pair" by (intro ext) (simp add: chain_entry_def)
  then show ?case using direct.connector_contract_axioms by (simp add: through_def)
next
  case (snoc p ps)
  have "(\<lambda>_ _. chain_entry ps ''tcp'' (pa_Address p)) = chain_entry (ps @ [p])"
    by (intro ext) (cases ps; simp add: chain_entry_def)
  then show ?case using new_hop_contract [OF snoc, of p] by (simp add: through_def)
qed

interpretation chain: connector_contract "through env proxies" "chain_entry proxies" for env proxies
  by (rule chain_contract)

text \<open>What the router over the chain asks the operating system for, by the route of the destination.\<close>

definition asks_for :: "world \<Rightarrow> string \<times> string \<Rightarrow> world \<Rightarrow> bool" where
  "asks_for w d w' \<longleftrightarrow> dials w' = dials w \<or> dials w' = dials w @ [d]"

text \<open>The router over any connector that keeps the contract, and over the chain.\<close>

lemma router_dial:
  assumes "endpoint_ok e" and "pred_option nat64_prefix nat64"
  shows "localForwarding_DialContext (NewLocalForwardingConnector (NewDirectConnector env) c nt bypass tun nat64) cx network (render e) w =
    (case route_of nt bypass tun nat64 network e of
       Mapped t \<Rightarrow> NewDirectConnector env cx network t w
     | Refused \<Rightarrow> (Ret (Inl (Wrapped ''%s: %w'' [render (unmap_endpoint nat64 e)] TUNRefused)), w)
     | Direct d \<Rightarrow> NewDirectConnector env cx network (render d) w
     | Proxied d \<Rightarrow> c cx network (render d) w)"
  using assms by (subst local_forwarding_route [OF assms(1)]) (auto simp: NewLocalForwardingConnector_def split: route.split)

lemma router_out_any:
  assumes "connector_contract c entry" and "endpoint_ok e" and "pred_option nat64_prefix nat64" and "world_ok w"
    and "localForwarding_DialContext (NewLocalForwardingConnector (NewDirectConnector env) c nt bypass tun nat64) cx network (render e) w = (x, w')"
  shows "case route_of nt bypass tun nat64 network e of
      Mapped t \<Rightarrow> asks_for w (network, t) w'
    | Refused \<Rightarrow> w' = w \<and> (\<exists>er. x = Ret (Inl er))
    | Direct d \<Rightarrow> asks_for w (network, render d) w'
    | Proxied d \<Rightarrow> asks_for w (entry network (render d)) w'"
  using assms(5) direct.dial_out [OF assms(4), of env cx network _ x w'] connector_contract.dial_out [OF assms(1,4), of cx network _ x w']
  unfolding router_dial [OF assms(2,3)] by (auto simp: asks_for_def split: route.splits)

lemmas router_out = router_out_any [OF chain_contract]

lemma router_held_any:
  assumes "connector_contract c entry" and "endpoint_ok e" and "pred_option nat64_prefix nat64" and "held v S w"
    and "localForwarding_DialContext (NewLocalForwardingConnector (NewDirectConnector env) c nt bypass tun nat64) cx nw (render e) w = (x, w')"
  shows "(\<exists>k. x = Ret (Inr k) \<and> k \<notin> S \<and> held v (insert k S) w') \<or> (\<exists>er. x = Ret (Inl er) \<and> held v S w')"
proof (cases "route_of nt bypass tun nat64 nw e")
  case Refused
  with assms show ?thesis unfolding router_dial [OF assms(2,3)] by auto
qed (use assms(5) held_dial [OF direct.connector_contract_axioms assms(4)] held_dial [OF assms(1,4)] in \<open>auto simp: router_dial [OF assms(2,3)]\<close>)

lemmas router_held = router_held_any [OF chain_contract]

text \<open>
  The UDP connectors that can be followed to the host's sockets as a function: without a proxy the direct one, and behind an HTTP hop the one that refuses. The
  connector of a SOCKS5 hop shares its associations among the flows and is no such function; it is the state machine of \<open>UdpAssoc\<close>, and \<open>None\<close> here.
\<close>

primrec udp_dialer :: "netenv \<Rightarrow> udpConnector \<Rightarrow> (world, nat) connector option" where
  "udp_dialer env UDPDirect = Some (NewDirectConnector env)"
| "udp_dialer env (UDPUnsupported reason) = Some (unsupportedConnector reason)"
| "udp_dialer env (UDPSocks5 tcp udp proxy) = None"

interpretation unsupported: connector_contract "unsupportedConnector reason" Pair for reason
  by unfold_locales (auto simp: unsupportedConnector_def world_ok_def old_kept_def new_open_def conn_open_def)

section \<open>Properties\<close>

text \<open>
  C6: A chain shows the operating system nothing but its first proxy. Whatever is dialled through the TCP connector
  that \<^verbatim>\<open>buildProxyChain\<close> makes of at least one hop, over any network, the only socket the program opens is a TCP
  connection to the first hop's address; a dial never panics or throws; when it fails every connection made on the
  way is closed, when it succeeds the returned one is the only one left open; connections that were there
  before are untouched.
\<close>

theorem chain_dials_first_proxy_only:
  assumes "buildProxyChain env (p # ps) = Ret (tcp, udp)" and "world_ok w" and "tcp cx network address w = (x, w')"
  shows "(dials w' = dials w \<or> dials w' = dials w @ [(''tcp'', pa_Address p)]) \<and> world_ok w' \<and> old_kept w w' \<and>
    (case x of Ret (Inr k) \<Rightarrow> new_open w w' = {k} | Ret (Inl e) \<Rightarrow> new_open w w' = {} | _ \<Rightarrow> False)"
proof -
  have t: "through env (p # ps) cx network address w = (x, w')" using assms(1,3) by (simp add: buildProxyChain_eq)
  obtain r where r: "x = Ret r" using chain.dial_answers [OF assms(2) t] by blast
  have "chain_entry (p # ps) network address = (''tcp'', pa_Address p)" by (simp add: chain_entry_def)
  moreover have "case x of Ret (Inr k) \<Rightarrow> new_open w w' = {k} | Ret (Inl e) \<Rightarrow> new_open w w' = {} | _ \<Rightarrow> False"
    using chain.dial_opens [OF assms(2)] chain.dial_fails [OF assms(2)] t r by (cases r) auto
  ultimately show ?thesis
    using chain.dial_out [OF assms(2) t] chain.dial_world [OF assms(2) t] by auto
qed

text \<open>
  UDP rides on the same stack or is refused. \<^verbatim>\<open>buildProxyChain\<close> never fails; with an HTTP hop anywhere in the
  chain the UDP connector is the refusing one, otherwise hop \<open>i\<close> opens its control connection through the TCP stack
  of the hops before it and its relay socket through the UDP connector of the hop before it, the first one through
  the direct connector.
\<close>

lemma chain_structure:
  "buildProxyChain env proxies = Ret (foldl (\<lambda>c p. new_hop p c) (NewDirectConnector env) proxies,
     if \<exists>p \<in> set proxies. pa_Scheme p = ''http'' then UDPUnsupported ''udp is not supported through an HTTP proxy''
     else udp_spec env [] proxies UDPDirect)"
  by (simp add: buildProxyChain_eq through_def)

text \<open>Witnesses.\<close>

lemma demo_chain: "\<exists>tcp udp. buildProxyChain demo_net [demo_proxy] = Ret (tcp, udp)"
  by (simp add: buildProxyChain_eq)

lemma demo_world_ok: "world_ok demo_world"
  by (simp add: world_ok_def demo_world_def)

theorem chain_dials_first_proxy_only_witness:
  "\<exists>tcp udp x w'. buildProxyChain demo_net [demo_proxy] = Ret (tcp, udp) \<and>
    tcp demo_ctx ''tcp'' ''198.51.100.7:22'' demo_world = (x, w') \<and>
    (dials w' = [] \<or> dials w' = [(''tcp'', ''192.0.2.1:1080'')]) \<and> world_ok w'"
proof -
  from demo_chain obtain tcp udp where c: "buildProxyChain demo_net [demo_proxy] = Ret (tcp, udp)" by blast
  obtain x w' where d: "tcp demo_ctx ''tcp'' ''198.51.100.7:22'' demo_world = (x, w')"
    by (cases "tcp demo_ctx ''tcp'' ''198.51.100.7:22'' demo_world")
  from chain_dials_first_proxy_only [OF c demo_world_ok d] c d show ?thesis
    by (auto simp: demo_world_def demo_proxy_def)
qed

end
