(* ===== verification/UdpAssoc.thy ===== *)
theory UdpAssoc
  imports Chain "HOL-Library.AList"
begin

text \<open>
  SOCKS5 UDP associations: \<^verbatim>\<open>src/udp_assoc.go\<close> and the UDP half of \<^verbatim>\<open>src/socks5.go\<close>. The objects the
  goroutines share (slots, associations, flows) live in a store, by number; every region the code runs under a mutex
  is one function on the store, and \<open>ustep\<close> interleaves them with the program counters of the dialling
  goroutines, so that the orders the scheduler may choose are the paths of the relation. What \<^verbatim>\<open>closeFlow\<close> and
  \<^verbatim>\<open>shutdown\<close> do after the unlock is left in \<open>u_todo\<close> and runs, one close at a time, as \<open>closing_step\<close>.
\<close>

section \<open>Opening an association\<close>

text \<open>\<^verbatim>\<open>associate\<close>: the control connection and the relay socket, up to starting the goroutine that watches them.\<close>

definition relay_host :: "ProxyAddr \<Rightarrow> string \<Rightarrow> string res" where
  "relay_host proxy bindHost =
     (let ip = ParseIP bindHost in
      if ip \<noteq> [] \<and> IsUnspecified ip
      then res_bind (Throw3 (SplitHostPort (pa_Address proxy))) (\<lambda>(host, _). Ret host)
      else Ret bindHost)"

definition associate :: "(world, nat) connector \<Rightarrow> (world, nat) connector \<Rightarrow> ProxyAddr \<Rightarrow> ctx \<Rightarrow> (world, nat \<times> nat) act" where
  "associate tcpConnector udpConnector proxy cx =
     act_bind (act_bind (tcpConnector cx ''tcp'' (pa_Address proxy)) (\<lambda>x. act_lift (Throw2 x))) (\<lambda>control.
     CloseOnThrow (w_close control)
       (act_bind (applyDeadline cx control) (\<lambda>_.
        act_bind (socks5Handshake control (pa_Auth proxy)) (\<lambda>_.
        act_bind (socks5Request control socks5CmdUDPAssociate ''0.0.0.0'' 0) (\<lambda>(bindHost, bindPort).
        act_bind (act_lift (relay_host proxy bindHost)) (\<lambda>bindHost.
        act_bind (act_bind (udpConnector cx ''udp'' (JoinHostPort bindHost (itoa (unat bindPort)))) (\<lambda>x. act_lift (Throw2 x))) (\<lambda>relay.
        CloseOnThrow (w_close relay)
          (act_bind (act_throw (w_set_deadline control None)) (\<lambda>_.
           act_ret (control, relay))))))))))"

section \<open>The store\<close>

definition udpFlowQueue :: nat where
  "udpFlowQueue = 1024"

record udpFlow =
  f_a :: nat
  f_key :: string
  f_host :: string
  f_port :: u16
  f_in :: "bytes list"
  f_done :: bool
  f_deadline :: "nat option"

record udpAssociation =
  a_control :: nat
  a_relay :: nat
  a_src :: string
  a_flows :: "(string \<times> nat) list"
  a_closed :: bool

record associationSlot =
  s_ready :: bool
  s_assoc :: "nat option"
  s_exc :: "err option"

record udp_dial =
  d_src :: string
  d_host :: string
  d_port :: u16

text \<open>
  What a goroutine that closed an association still has to run after it released the mutex: the connections it has yet
  to close, in order, and then the flows whose \<^verbatim>\<open>done\<close> channels it has yet to close.
\<close>

record closing =
  t_conns :: "nat list"
  t_flows :: "nat list"

text \<open>Where a goroutine inside \<^verbatim>\<open>dial\<close> is.\<close>

datatype pc =
    Idle
  | Looking udp_dial
  | Waiting udp_dial nat
  | Associating udp_dial nat
  | Made udp_dial nat nat
  | Publishing udp_dial nat
  | Opening udp_dial nat
  | Returned nat
  | Threw err

record ust =
  u_slots :: "string \<rightharpoonup> nat"
  u_slot :: "nat \<rightharpoonup> associationSlot"
  u_assoc :: "nat \<rightharpoonup> udpAssociation"
  u_flow :: "nat \<rightharpoonup> udpFlow"
  u_next :: nat
  u_shut :: "nat list"
  u_todo :: "closing list"
  u_pc :: "nat \<Rightarrow> pc"

definition ust_init :: ust where
  "ust_init = \<lparr>u_slots = Map.empty, u_slot = Map.empty, u_assoc = Map.empty, u_flow = Map.empty, u_next = 0,
     u_shut = [], u_todo = [], u_pc = (\<lambda>_. Idle)\<rparr>"

definition udpFlowKey :: "string \<Rightarrow> u16 \<Rightarrow> string" where
  "udpFlowKey host port =
     (let ip = ParseIP host; host = (if ip \<noteq> [] then ip_string ip else host)
      in JoinHostPort host (itoa (unat port)))"

section \<open>Operations\<close>

text \<open>\<^verbatim>\<open>newUDPAssociation\<close>: a fresh association, open, with no flows.\<close>

definition newUDPAssociation :: "nat \<Rightarrow> nat \<Rightarrow> string \<Rightarrow> ust \<Rightarrow> nat \<times> ust" where
  "newUDPAssociation control relay src s =
     (u_next s, s\<lparr>u_assoc := (u_assoc s)(u_next s \<mapsto>
        \<lparr>a_control = control, a_relay = relay, a_src = src, a_flows = [], a_closed = False\<rparr>),
        u_next := Suc (u_next s)\<rparr>)"

text \<open>\<^verbatim>\<open>open\<close>: \<open>None\<close> once the association is closed.\<close>

definition assoc_open :: "nat \<Rightarrow> string \<Rightarrow> u16 \<Rightarrow> ust \<Rightarrow> nat option \<times> ust" where
  "assoc_open a host port s =
     (case u_assoc s a of
        None \<Rightarrow> (None, s)
      | Some as \<Rightarrow>
          if a_closed as then (None, s)
          else
            (let f = u_next s; key = udpFlowKey host port;
                 fl = \<lparr>f_a = a, f_key = key, f_host = host, f_port = port, f_in = [], f_done = False, f_deadline = None\<rparr>
             in (Some f, s\<lparr>u_flow := (u_flow s)(f \<mapsto> fl), u_next := Suc f,
                   u_assoc := (u_assoc s)(a \<mapsto> as\<lparr>a_flows := AList.update key f (a_flows as)\<rparr>)\<rparr>)))"

text \<open>One datagram of \<^verbatim>\<open>readLoop\<close>.\<close>

definition flow_enqueue :: "bytes \<Rightarrow> udpFlow \<Rightarrow> udpFlow" where
  "flow_enqueue p fl = (if length (f_in fl) < udpFlowQueue then fl\<lparr>f_in := f_in fl @ [p]\<rparr> else fl)"

definition readLoop_datagram :: "nat \<Rightarrow> bytes \<Rightarrow> ust \<Rightarrow> ust" where
  "readLoop_datagram a b s =
     (case Try (socks5ParseUDPDatagram b) of
        Ret (Inr (host, port, payload)) \<Rightarrow>
          (case u_assoc s a of
             None \<Rightarrow> s
           | Some as \<Rightarrow>
               (case map_of (a_flows as) (udpFlowKey host port) of
                  None \<Rightarrow> s
                | Some f \<Rightarrow> s\<lparr>u_flow := (u_flow s)(f := map_option (flow_enqueue payload) (u_flow s f))\<rparr>))
      | _ \<Rightarrow> s)"

text \<open>\<^verbatim>\<open>forget\<close>, which runs inside the association's critical sections.\<close>

definition slot_holds :: "ust \<Rightarrow> nat \<Rightarrow> nat \<Rightarrow> bool" where
  "slot_holds s sl a \<longleftrightarrow> (case u_slot s sl of None \<Rightarrow> False | Some x \<Rightarrow> s_assoc x = Some a)"

definition forget :: "nat \<Rightarrow> string \<Rightarrow> ust \<Rightarrow> ust" where
  "forget a src s =
     (case u_slots s src of
        None \<Rightarrow> s
      | Some sl \<Rightarrow> if slot_holds s sl a then s\<lparr>u_slots := (u_slots s)(src := None)\<rparr> else s)"

definition remove_flow :: "nat \<Rightarrow> string \<Rightarrow> (string \<times> nat) list \<Rightarrow> (string \<times> nat) list" where
  "remove_flow f key flows = (if map_of flows key = Some f then AList.delete key flows else flows)"

text \<open>
  \<^verbatim>\<open>closeFlow\<close> and \<^verbatim>\<open>shutdown\<close> up to the release of the mutex; the closes that follow it are left in \<open>u_todo\<close>, for
  \<open>closing_step\<close> to run.
\<close>

definition closeFlow :: "nat \<Rightarrow> ust \<Rightarrow> ust" where
  "closeFlow f s =
     (case u_flow s f of
        None \<Rightarrow> s
      | Some fl \<Rightarrow>
          (case u_assoc s (f_a fl) of
             None \<Rightarrow> s
           | Some as \<Rightarrow>
               (let flows = remove_flow f (f_key fl) (a_flows as);
                    last = (flows = [] \<and> \<not> a_closed as);
                    s1 = s\<lparr>u_assoc := (u_assoc s)(f_a fl \<mapsto> as\<lparr>a_flows := flows, a_closed := a_closed as \<or> last\<rparr>)\<rparr>
                in if last
                   then (forget (f_a fl) (a_src as) s1)
                     \<lparr>u_todo := u_todo s @ [\<lparr>t_conns = [a_relay as, a_control as], t_flows = []\<rparr>]\<rparr>
                   else s1)))"

definition shutdown :: "nat \<Rightarrow> ust \<Rightarrow> ust" where
  "shutdown a s =
     (case u_assoc s a of
        None \<Rightarrow> s
      | Some as \<Rightarrow>
          if a_closed as then s
          else
            (let flows = a_flows as;
                 s1 = forget a (a_src as)
                   (s\<lparr>u_assoc := (u_assoc s)(a \<mapsto> as\<lparr>a_flows := [], a_closed := True\<rparr>)\<rparr>)
             in s1\<lparr>u_todo := u_todo s @ [\<lparr>t_conns = [a_relay as, a_control as], t_flows = map snd flows\<rparr>]\<rparr>))"

text \<open>Closing a flow's \<^verbatim>\<open>done\<close> channel, once.\<close>

definition flow_end :: "nat \<Rightarrow> ust \<Rightarrow> ust" where
  "flow_end f s = s\<lparr>u_flow := (u_flow s)(f := map_option (\<lambda>fl. fl\<lparr>f_done := True\<rparr>) (u_flow s f))\<rparr>"

text \<open>
  The closes of \<^verbatim>\<open>closeFlow\<close> and \<^verbatim>\<open>shutdown\<close> outside the mutex, one call at a time, in any interleaving with the other
  goroutines: first the relay, then the control connection, then the flows in whatever order the map is ranged over.
\<close>

inductive closing_step :: "ust \<Rightarrow> ust \<Rightarrow> bool" where
  close_conn: "i < length (u_todo s) \<Longrightarrow> u_todo s ! i = \<lparr>t_conns = c # cs, t_flows = fs\<rparr> \<Longrightarrow>
    closing_step s (s\<lparr>u_shut := u_shut s @ [c], u_todo := (u_todo s)[i := \<lparr>t_conns = cs, t_flows = fs\<rparr>]\<rparr>)"
| wake_flow: "i < length (u_todo s) \<Longrightarrow> u_todo s ! i = \<lparr>t_conns = [], t_flows = fs\<rparr> \<Longrightarrow> f \<in> set fs \<Longrightarrow>
    closing_step s (flow_end f (s\<lparr>u_todo := (u_todo s)[i := \<lparr>t_conns = [], t_flows = remove1 f fs\<rparr>]\<rparr>))"

text \<open>The \<^verbatim>\<open>net.Conn\<close> of a flow. \<open>flow_Read\<close> lists the cases of the \<^verbatim>\<open>select\<close> that are ready at time \<open>now\<close>.\<close>

definition flow_Close :: "nat \<Rightarrow> ust \<Rightarrow> ust" where
  "flow_Close f s = closeFlow f (flow_end f s)"

definition flow_Read :: "nat \<Rightarrow> nat \<Rightarrow> udpFlow \<Rightarrow> ((err + bytes) \<times> udpFlow) list" where
  "flow_Read n now fl =
     (case f_in fl of [] \<Rightarrow> [] | p # ps \<Rightarrow> [(Inr (take n p), fl\<lparr>f_in := ps\<rparr>)]) @
     (if f_done fl then [(Inl ErrClosed, fl)] else []) @
     (case f_deadline fl of None \<Rightarrow> [] | Some d \<Rightarrow> if d \<le> now then [(Inl DeadlineExceeded, fl)] else [])"

definition flow_Write :: "udpFlow \<Rightarrow> (bytes \<Rightarrow> err + nat) \<Rightarrow> bytes \<Rightarrow> (err + nat) res" where
  "flow_Write fl relay_write b =
     Try (if f_done fl then Exc ErrClosed
          else res_bind (socks5UDPDatagram (f_host fl) (f_port fl) b) (\<lambda>d.
               res_bind (Throw2 (relay_write d)) (\<lambda>_. Ret (length b))))"

definition flow_SetDeadline :: "nat option \<Rightarrow> udpFlow \<Rightarrow> udpFlow" where
  "flow_SetDeadline t fl = fl\<lparr>f_deadline := t\<rparr>"

definition flow_SetReadDeadline :: "nat option \<Rightarrow> udpFlow \<Rightarrow> udpFlow" where
  "flow_SetReadDeadline t fl = flow_SetDeadline t fl"

definition flow_SetWriteDeadline :: "nat option \<Rightarrow> udpFlow \<Rightarrow> udpFlow" where
  "flow_SetWriteDeadline t fl = fl"

section \<open>The connector's goroutines\<close>

definition goto :: "nat \<Rightarrow> pc \<Rightarrow> ust \<Rightarrow> ust" where
  "goto t p s = s\<lparr>u_pc := (u_pc s)(t := p)\<rparr>"

definition set_slot :: "nat \<Rightarrow> associationSlot \<Rightarrow> ust \<Rightarrow> ust" where
  "set_slot sl x s = s\<lparr>u_slot := (u_slot s)(sl \<mapsto> x)\<rparr>"

definition new_slot :: "string \<Rightarrow> ust \<Rightarrow> nat \<times> ust" where
  "new_slot src s =
     (u_next s, s\<lparr>u_slot := (u_slot s)(u_next s \<mapsto> \<lparr>s_ready = False, s_assoc = None, s_exc = None\<rparr>),
        u_slots := (u_slots s)(src \<mapsto> u_next s), u_next := Suc (u_next s)\<rparr>)"

text \<open>What a goroutine does with a slot that is ready.\<close>

definition slot_result :: "udp_dial \<Rightarrow> associationSlot \<Rightarrow> pc" where
  "slot_result d x = (case s_exc x of Some e \<Rightarrow> Threw e | None \<Rightarrow> (case s_assoc x of Some a \<Rightarrow> Opening d a | None \<Rightarrow> Idle))"

text \<open>
  The steps, for any goroutine \<open>t\<close>: \<^verbatim>\<open>dial\<close> and \<^verbatim>\<open>association\<close> cut at their critical sections, the association's
  read loop, the closes after its mutex is released, and a flow's owner, whose \<^verbatim>\<open>Close\<close> ends the flow and then calls
  \<^verbatim>\<open>closeFlow\<close> (which does what a second \<^verbatim>\<open>Close\<close> of an ended flow does). The outcome of \<^verbatim>\<open>associate\<close> and the arrival of datagrams and errors are the environment's.
\<close>

inductive ustep :: "ust \<Rightarrow> ust \<Rightarrow> bool" where
  dial_start: "u_pc s t = Idle \<Longrightarrow> ustep s (goto t (Looking d) s)"
| lookup_hit: "u_pc s t = Looking d \<Longrightarrow> u_slots s (d_src d) = Some sl \<Longrightarrow> ustep s (goto t (Waiting d sl) s)"
| lookup_miss: "u_pc s t = Looking d \<Longrightarrow> u_slots s (d_src d) = None \<Longrightarrow> new_slot (d_src d) s = (sl, s1) \<Longrightarrow>
    ustep s (goto t (Associating d sl) s1)"
| associate_fail: "u_pc s t = Associating d sl \<Longrightarrow> u_slot s sl = Some x \<Longrightarrow>
    ustep s (goto t (Publishing d sl) (set_slot sl (x\<lparr>s_exc := Some e\<rparr>) (s\<lparr>u_slots := (u_slots s)(d_src d := None)\<rparr>)))"
| associate_ok: "u_pc s t = Associating d sl \<Longrightarrow> newUDPAssociation control relay (d_src d) s = (a, s1) \<Longrightarrow>
    ustep s (goto t (Made d sl a) s1)"
| assign: "u_pc s t = Made d sl a \<Longrightarrow> u_slot s sl = Some x \<Longrightarrow>
    ustep s (goto t (Publishing d sl) (set_slot sl (x\<lparr>s_assoc := Some a\<rparr>) s))"
| publish: "u_pc s t = Publishing d sl \<Longrightarrow> u_slot s sl = Some x \<Longrightarrow>
    ustep s (goto t (slot_result d x) (set_slot sl (x\<lparr>s_ready := True\<rparr>) s))"
| wait_ready: "u_pc s t = Waiting d sl \<Longrightarrow> u_slot s sl = Some x \<Longrightarrow> s_ready x \<Longrightarrow> ustep s (goto t (slot_result d x) s)"
| wait_cancelled: "u_pc s t = Waiting d sl \<Longrightarrow> ustep s (goto t (Threw e) s)"
| open_flow: "u_pc s t = Opening d a \<Longrightarrow> assoc_open a (d_host d) (d_port d) s = (Some f, s1) \<Longrightarrow> ustep s (goto t (Returned f) s1)"
| open_closed: "u_pc s t = Opening d a \<Longrightarrow> assoc_open a (d_host d) (d_port d) s = (None, s1) \<Longrightarrow> ustep s (goto t (Looking d) s1)"
| relay_data: "ustep s (readLoop_datagram a b s)"
| relay_fail: "ustep s (shutdown a s)"
| closing: "closing_step s s' \<Longrightarrow> ustep s s'"
| flow_done: "ustep s (flow_end f s)"
| close_flow: "u_flow s f = Some fl \<Longrightarrow> f_done fl \<Longrightarrow> ustep s (closeFlow f s)"

inductive reach :: "ust \<Rightarrow> ust \<Rightarrow> bool" for s0 where
  reach_refl: "reach s0 s0"
| reach_step: "reach s0 s \<Longrightarrow> ustep s s' \<Longrightarrow> reach s0 s'"

section \<open>Invariants\<close>

text \<open>A goroutine that is setting up slot \<open>sl\<close> and has not stored its association yet.\<close>

definition creates :: "ust \<Rightarrow> nat \<Rightarrow> nat \<Rightarrow> bool" where
  "creates s sl t \<longleftrightarrow> (\<exists>d. u_pc s t = Associating d sl) \<or> (\<exists>d a. u_pc s t = Made d sl a)"

definition pending_slot :: "ust \<Rightarrow> string \<Rightarrow> nat \<Rightarrow> bool" where
  "pending_slot s src sl \<longleftrightarrow> u_slots s src = Some sl \<and> (\<exists>x. u_slot s sl = Some x \<and> s_assoc x = None \<and> s_exc x = None)"

definition fresh_ok :: "ust \<Rightarrow> bool" where
  "fresh_ok s \<longleftrightarrow> (\<forall>i. u_next s \<le> i \<longrightarrow> u_slot s i = None \<and> u_assoc s i = None \<and> u_flow s i = None) \<and>
     (\<forall>src sl. u_slots s src = Some sl \<longrightarrow> sl < u_next s) \<and> (\<forall>t sl. creates s sl t \<longrightarrow> sl < u_next s) \<and>
     (\<forall>src src' sl. u_slots s src = Some sl \<longrightarrow> u_slots s src' = Some sl \<longrightarrow> src = src')"

definition creators_ok :: "ust \<Rightarrow> bool" where
  "creators_ok s \<longleftrightarrow>
     (\<forall>t d sl. u_pc s t = Associating d sl \<longrightarrow> pending_slot s (d_src d) sl) \<and>
     (\<forall>t d sl a. u_pc s t = Made d sl a \<longrightarrow> pending_slot s (d_src d) sl \<and>
        (\<exists>as. u_assoc s a = Some as \<and> a_src as = d_src d)) \<and>
     (\<forall>sl t t'. creates s sl t \<longrightarrow> creates s sl t' \<longrightarrow> t = t')"

definition slots_ok :: "ust \<Rightarrow> bool" where
  "slots_ok s \<longleftrightarrow>
     (\<forall>src sl a. u_slots s src = Some sl \<longrightarrow> slot_holds s sl a \<longrightarrow> (\<exists>as. u_assoc s a = Some as \<and> a_src as = src)) \<and>
     (\<forall>a as. u_assoc s a = Some as \<longrightarrow> \<not> a_closed as \<longrightarrow>
        (\<exists>sl. u_slots s (a_src as) = Some sl \<and> (slot_holds s sl a \<or> (\<exists>t d. u_pc s t = Made d sl a))))"

definition uinv :: "ust \<Rightarrow> bool" where
  "uinv s \<longleftrightarrow> fresh_ok s \<and> creators_ok s \<and> slots_ok s"

lemma uinvD:
  assumes "uinv s"
  shows "u_pc s t = Associating d sl \<Longrightarrow> pending_slot s (d_src d) sl \<and> creates s sl t"
    "u_pc s t = Made d sl a \<Longrightarrow> pending_slot s (d_src d) sl \<and> creates s sl t \<and> (\<exists>as. u_assoc s a = Some as \<and> a_src as = d_src d)"
    "creates s sl t \<Longrightarrow> creates s sl t' \<Longrightarrow> t = t'"
    "u_slots s src = Some sl \<Longrightarrow> slot_holds s sl a \<Longrightarrow> \<exists>as. u_assoc s a = Some as \<and> a_src as = src"
    "u_assoc s a = Some as \<Longrightarrow> \<not> a_closed as \<Longrightarrow>
       \<exists>sl. u_slots s (a_src as) = Some sl \<and> (slot_holds s sl a \<or> (\<exists>t d. u_pc s t = Made d sl a))"
proof -
  have "creators_ok s" "slots_ok s" using assms by (simp_all add: uinv_def)
  then show "u_pc s t = Associating d sl \<Longrightarrow> pending_slot s (d_src d) sl \<and> creates s sl t"
    "u_pc s t = Made d sl a \<Longrightarrow> pending_slot s (d_src d) sl \<and> creates s sl t \<and> (\<exists>as. u_assoc s a = Some as \<and> a_src as = d_src d)"
    "creates s sl t \<Longrightarrow> creates s sl t' \<Longrightarrow> t = t'"
    "u_slots s src = Some sl \<Longrightarrow> slot_holds s sl a \<Longrightarrow> \<exists>as. u_assoc s a = Some as \<and> a_src as = src"
    "u_assoc s a = Some as \<Longrightarrow> \<not> a_closed as \<Longrightarrow>
       \<exists>sl. u_slots s (a_src as) = Some sl \<and> (slot_holds s sl a \<or> (\<exists>t d. u_pc s t = Made d sl a))"
    unfolding creators_ok_def slots_ok_def by (auto simp: creates_def)
qed

text \<open>Two associations of one source that are both open are the same.\<close>

lemma uinv_unique:
  assumes "uinv s" "u_assoc s a = Some as" "\<not> a_closed as" "u_assoc s b = Some bs" "\<not> a_closed bs" "a_src as = a_src bs"
  shows "a = b"
proof -
  from assms obtain sl where sl: "u_slots s (a_src as) = Some sl"
    and a: "slot_holds s sl a \<or> (\<exists>t d. u_pc s t = Made d sl a)" unfolding uinv_def slots_ok_def by blast
  from assms sl have b: "slot_holds s sl b \<or> (\<exists>t d. u_pc s t = Made d sl b)" unfolding uinv_def slots_ok_def by fastforce
  have no: "\<not> slot_holds s sl x" if "u_pc s t = Made d sl y" for t d x y
    using assms(1) that unfolding uinv_def creators_ok_def pending_slot_def slot_holds_def by fastforce
  show ?thesis
  proof (cases "\<exists>t d. u_pc s t = Made d sl a")
    case True
    then obtain t d where t: "u_pc s t = Made d sl a" by blast
    with b no obtain t' d' where t': "u_pc s t' = Made d' sl b" by blast
    with t assms(1) have "t = t'" unfolding uinv_def creators_ok_def creates_def by blast
    with t t' show ?thesis by simp
  next
    case False
    with a b no show ?thesis by (auto simp: slot_holds_def split: option.splits)
  qed
qed

lemma uinv_init: "uinv ust_init"
  by (simp add: uinv_def fresh_ok_def creators_ok_def slots_ok_def ust_init_def creates_def)

text \<open>Operations that leave the slots, the goroutines and the open associations alone.\<close>

lemma uinv_frame:
  assumes "uinv s" "u_slots s' = u_slots s" "u_slot s' = u_slot s" "u_pc s' = u_pc s" "u_next s \<le> u_next s'"
    "\<And>a as. u_assoc s a = Some as \<Longrightarrow> \<exists>as'. u_assoc s' a = Some as' \<and> a_src as' = a_src as"
    "\<And>a as'. u_assoc s' a = Some as' \<Longrightarrow> \<exists>as. u_assoc s a = Some as \<and> a_src as' = a_src as \<and> (a_closed as \<longrightarrow> a_closed as')"
    "\<And>i. u_next s' \<le> i \<Longrightarrow> u_flow s' i = None"
  shows "uinv s'"
proof -
  have eq: "creates s' = creates s" "pending_slot s' = pending_slot s" "slot_holds s' = slot_holds s"
    by (intro ext, simp add: creates_def pending_slot_def slot_holds_def assms(2-4))+
  from assms(1) have o: "\<And>i. u_next s \<le> i \<Longrightarrow> u_slot s i = None \<and> u_assoc s i = None"
    "\<And>src sl. u_slots s src = Some sl \<Longrightarrow> sl < u_next s" "\<And>t sl. creates s sl t \<Longrightarrow> sl < u_next s"
    "\<And>src src' sl. u_slots s src = Some sl \<Longrightarrow> u_slots s src' = Some sl \<Longrightarrow> src = src'"
    unfolding uinv_def fresh_ok_def by blast+
  have "u_assoc s' i = None" if "u_next s' \<le> i" for i
    using assms(5) assms(7) [of i] o(1) [of i] that by (cases "u_assoc s' i") auto
  then have "fresh_ok s'"
    using o assms(5,8) by (fastforce simp: fresh_ok_def eq assms(2,3))
  moreover have "creators_ok s'"
    using assms(1) assms(6) unfolding uinv_def creators_ok_def eq assms(4) by metis
  moreover have "slots_ok s'"
    unfolding slots_ok_def eq assms(2,4)
  proof (intro conjI allI impI)
    fix src sl a assume "u_slots s src = Some sl" "slot_holds s sl a"
    then show "\<exists>as. u_assoc s' a = Some as \<and> a_src as = src"
      using assms(1) assms(6) [of a] unfolding uinv_def slots_ok_def by metis
  next
    fix a as' assume "u_assoc s' a = Some as'" "\<not> a_closed as'"
    with assms(7) obtain as where "u_assoc s a = Some as" "a_src as' = a_src as" "\<not> a_closed as" by blast
    with assms(1) show "\<exists>sl. u_slots s (a_src as') = Some sl \<and> (slot_holds s sl a \<or> (\<exists>t d. u_pc s t = Made d sl a))"
      unfolding uinv_def slots_ok_def by metis
  qed
  ultimately show ?thesis by (simp add: uinv_def)
qed

definition plain_pc :: "pc \<Rightarrow> bool" where
  "plain_pc p \<longleftrightarrow> (case p of Associating _ _ \<Rightarrow> False | Made _ _ _ \<Rightarrow> False | _ \<Rightarrow> True)"

lemma plain_pc_simps [simp]:
  "plain_pc Idle" "plain_pc (Looking d)" "plain_pc (Waiting d sl)" "plain_pc (Publishing d sl)" "plain_pc (Opening d a)"
  "plain_pc (Returned f)" "plain_pc (Threw e)" "\<not> plain_pc (Associating d sl)" "\<not> plain_pc (Made d sl a)"
  "plain_pc (slot_result d x)"
  by (simp_all add: plain_pc_def slot_result_def split: option.split)

lemma creates_plain: "creates s sl t \<Longrightarrow> \<not> plain_pc (u_pc s t)"
  by (auto simp: creates_def)

lemma goto_simps [simp]:
  "u_slots (goto t p s) = u_slots s" "u_slot (goto t p s) = u_slot s" "u_assoc (goto t p s) = u_assoc s"
  "u_flow (goto t p s) = u_flow s" "u_next (goto t p s) = u_next s" "u_pc (goto t p s) = (u_pc s)(t := p)"
  "u_shut (goto t p s) = u_shut s"
  "slot_holds (goto t p s) = slot_holds s" "pending_slot (goto t p s) = pending_slot s" "u_todo (goto t p s) = u_todo s"
  by (simp_all add: goto_def slot_holds_def pending_slot_def fun_eq_iff)

lemma set_slot_simps [simp]:
  "u_slots (set_slot sl x s) = u_slots s" "u_slot (set_slot sl x s) = (u_slot s)(sl \<mapsto> x)" "u_assoc (set_slot sl x s) = u_assoc s"
  "u_flow (set_slot sl x s) = u_flow s" "u_next (set_slot sl x s) = u_next s" "u_pc (set_slot sl x s) = u_pc s"
  "u_shut (set_slot sl x s) = u_shut s" "u_todo (set_slot sl x s) = u_todo s"
  by (simp_all add: set_slot_def)

lemma creates_goto_plain: "plain_pc p \<Longrightarrow> creates (goto t p s) sl t' \<longleftrightarrow> t' \<noteq> t \<and> creates s sl t'"
  by (auto simp: creates_def)

lemma uinv_goto:
  assumes "uinv s" "plain_pc (u_pc s t)" "plain_pc p"
  shows "uinv (goto t p s)"
proof -
  have m: "u_pc (goto t p s) t' = Made d sl a \<longleftrightarrow> u_pc s t' = Made d sl a"
    "u_pc (goto t p s) t' = Associating d sl \<longleftrightarrow> u_pc s t' = Associating d sl" for t' d sl a
    using assms(2,3) by auto
  have c: "creates (goto t p s) = creates s" by (intro ext) (simp only: creates_def m)
  show ?thesis
    using assms(1) unfolding uinv_def fresh_ok_def creators_ok_def slots_ok_def c m goto_simps(1-5,8,9) .
qed

lemma uinv_publish:
  assumes "uinv s" "u_slot s sl = Some x" "s_assoc y = s_assoc x" "s_exc y = s_exc x"
  shows "uinv (set_slot sl y s)"
proof -
  have e: "slot_holds (set_slot sl y s) = slot_holds s" "pending_slot (set_slot sl y s) = pending_slot s"
    "creates (set_slot sl y s) = creates s"
    using assms(2-4) by (auto simp: fun_eq_iff slot_holds_def pending_slot_def creates_def set_slot_def)
  have "u_next s \<le> i \<longrightarrow> i \<noteq> sl" for i using assms(1,2) by (auto simp: uinv_def fresh_ok_def)
  then have "fresh_ok (set_slot sl y s)" using assms(1) unfolding uinv_def fresh_ok_def e by (auto simp: set_slot_def)
  moreover have "creators_ok (set_slot sl y s)" using assms(1) unfolding uinv_def creators_ok_def e by (simp add: set_slot_def)
  moreover have "slots_ok (set_slot sl y s)" using assms(1) unfolding uinv_def slots_ok_def e by (simp add: set_slot_def)
  ultimately show ?thesis by (simp add: uinv_def)
qed

lemma uinv_lookup_miss:
  assumes "uinv s" "plain_pc (u_pc s t)" "u_slots s (d_src d) = None" "new_slot (d_src d) s = (sl, s1)"
  shows "uinv (goto t (Associating d sl) s1)"
proof -
  let ?s = "goto t (Associating d sl) s1"
  from assms(4) have s1: "sl = u_next s" "u_slots s1 = (u_slots s)(d_src d \<mapsto> sl)" "u_pc s1 = u_pc s" "u_assoc s1 = u_assoc s"
    "u_flow s1 = u_flow s" "u_next s1 = Suc sl"
    "u_slot s1 = (u_slot s)(sl \<mapsto> \<lparr>s_ready = False, s_assoc = None, s_exc = None\<rparr>)"
    by (auto simp: new_slot_def)
  have f: "fresh_ok s" "creators_ok s" "slots_ok s" using assms(1) by (simp_all add: uinv_def)
  have cr: "creates ?s sl' t' \<longleftrightarrow> (if t' = t then sl' = sl else creates s sl' t')" for sl' t'
    by (auto simp: creates_def s1)
  have old: "creates s sl' t' \<Longrightarrow> sl' < sl" "u_slots s src = Some sl' \<Longrightarrow> sl' < sl" for sl' t' src
    using f(1) s1(1) by (auto simp: fresh_ok_def)
  have pend: "pending_slot s src sl' \<Longrightarrow> pending_slot ?s src sl'" for src sl'
    using old assms(3) by (auto simp: pending_slot_def s1)
  have new: "pending_slot ?s (d_src d) sl" by (simp add: pending_slot_def s1)
  have holds: "slot_holds ?s sl' a \<longleftrightarrow> slot_holds s sl' a" for sl' a
    using f(1) s1(1) by (auto simp: slot_holds_def s1 fresh_ok_def)
  have none: "Suc sl \<le> i \<Longrightarrow> u_slot s i = None \<and> u_assoc s i = None \<and> u_flow s i = None" for i
    using f(1) s1(1) by (auto simp: fresh_ok_def)
  have inj: "u_slots s src = Some sl' \<Longrightarrow> u_slots s src' = Some sl' \<Longrightarrow> src = src'" for src src' sl'
    using f(1) unfolding fresh_ok_def by blast
  have unused: "u_slots s src \<noteq> Some sl" for src using old(2) by blast
  have "fresh_ok ?s"
    unfolding fresh_ok_def cr using none old inj unused by (auto simp: s1(2-7) less_Suc_eq)
  moreover have "creators_ok ?s"
    unfolding creators_ok_def cr
  proof (intro conjI allI impI)
    fix t' d' sl' assume "u_pc ?s t' = Associating d' sl'"
    then show "pending_slot ?s (d_src d') sl'"
      using f(2) new pend by (cases "t' = t") (auto simp: creators_ok_def s1)
  next
    fix t' d' sl' a assume "u_pc ?s t' = Made d' sl' a"
    then have "u_pc s t' = Made d' sl' a" by (simp add: s1 split: if_splits)
    then show "pending_slot ?s (d_src d') sl'" "\<exists>as. u_assoc ?s a = Some as \<and> a_src as = d_src d'"
      using f(2) pend by (auto simp: creators_ok_def s1)
  next
    fix sl' t1 t2 assume "if t1 = t then sl' = sl else creates s sl' t1" "if t2 = t then sl' = sl else creates s sl' t2"
    then show "t1 = t2" using f(2) old by (fastforce simp: creators_ok_def split: if_splits)
  qed
  moreover have "slots_ok ?s"
    unfolding slots_ok_def holds
  proof (intro conjI allI impI)
    fix src sl' a assume "u_slots ?s src = Some sl'" "slot_holds s sl' a"
    moreover have "\<not> slot_holds s sl a" for a using f(1) s1(1) by (simp add: slot_holds_def fresh_ok_def)
    ultimately have "u_slots s src = Some sl'" "slot_holds s sl' a" by (auto simp: s1 split: if_splits)
    then show "\<exists>as. u_assoc ?s a = Some as \<and> a_src as = src" using f(3) by (simp add: slots_ok_def s1)
  next
    fix a as assume "u_assoc ?s a = Some as" "\<not> a_closed as"
    then have "u_assoc s a = Some as" by (simp add: s1)
    from uinvD(5) [OF assms(1) this \<open>\<not> a_closed as\<close>] obtain sl' where sl': "u_slots s (a_src as) = Some sl'"
      "slot_holds s sl' a \<or> (\<exists>t d. u_pc s t = Made d sl' a)" by blast
    have "a_src as \<noteq> d_src d" using sl'(1) assms(3) by auto
    moreover have "u_pc s t' = Made d' sl' a \<Longrightarrow> u_pc ?s t' = Made d' sl' a" for t' d' using assms(2) by (auto simp: s1)
    ultimately show "\<exists>sl. u_slots ?s (a_src as) = Some sl \<and> (slot_holds s sl a \<or> (\<exists>t d. u_pc ?s t = Made d sl a))"
      using sl' unfolding goto_simps(1) s1(2) by (metis fun_upd_other)
  qed
  ultimately show ?thesis by (simp add: uinv_def)
qed

lemma pending_not_holds: "pending_slot s src sl \<Longrightarrow> \<not> slot_holds s sl a"
  by (auto simp: pending_slot_def slot_holds_def)

lemma uinv_associate_fail:
  assumes "uinv s" "u_pc s t = Associating d sl" "u_slot s sl = Some x"
  shows "uinv (goto t (Publishing d sl) (set_slot sl (x\<lparr>s_exc := Some e\<rparr>) (s\<lparr>u_slots := (u_slots s)(d_src d := None)\<rparr>)))"
    (is "uinv ?s")
proof -
  note D = uinvD [OF assms(1)]
  have me: "pending_slot s (d_src d) sl" "creates s sl t" using D(1) [OF assms(2)] by blast+
  have s1: "u_slots ?s = (u_slots s)(d_src d := None)" "u_pc ?s = (u_pc s)(t := Publishing d sl)" "u_assoc ?s = u_assoc s"
    "u_flow ?s = u_flow s" "u_next ?s = u_next s" "u_slot ?s = (u_slot s)(sl \<mapsto> x\<lparr>s_exc := Some e\<rparr>)"
    by simp_all
  have cr: "creates ?s sl' t' \<longleftrightarrow> t' \<noteq> t \<and> creates s sl' t'" for sl' t' by (auto simp: creates_def)
  have holds: "slot_holds ?s sl' a \<longleftrightarrow> slot_holds s sl' a" for sl' a using assms(3) by (auto simp: slot_holds_def)
  have pend: "pending_slot ?s src sl'" if "pending_slot s src sl'" "creates s sl' t'" "t' \<noteq> t" for src sl' t'
  proof -
    have "sl' \<noteq> sl" using that(2,3) me(2) D(3) by blast
    moreover from this have "src \<noteq> d_src d" using that(1) me(1) by (auto simp: pending_slot_def)
    ultimately show ?thesis using that(1) by (simp add: pending_slot_def)
  qed
  have "fresh_ok s" using assms(1) by (simp add: uinv_def)
  then have "fresh_ok ?s" using assms(3) unfolding fresh_ok_def cr s1 by (auto split: if_splits)
  moreover have "creators_ok ?s"
    unfolding creators_ok_def cr
  proof (intro conjI allI impI)
    fix t' d' sl' assume "u_pc ?s t' = Associating d' sl'"
    then have "u_pc s t' = Associating d' sl'" "t' \<noteq> t" by (auto split: if_splits)
    then show "pending_slot ?s (d_src d') sl'" using D(1) pend by blast
  next
    fix t' d' sl' a assume "u_pc ?s t' = Made d' sl' a"
    then have m: "u_pc s t' = Made d' sl' a" "t' \<noteq> t" by (auto split: if_splits)
    then show "pending_slot ?s (d_src d') sl'" using D(2) pend by blast
    show "\<exists>as. u_assoc ?s a = Some as \<and> a_src as = d_src d'" unfolding s1 using D(2) [OF m(1)] by blast
  qed (use D(3) in blast)
  moreover have "slots_ok ?s"
    unfolding slots_ok_def holds
  proof (intro conjI allI impI)
    fix src sl' a assume "u_slots ?s src = Some sl'" "slot_holds s sl' a"
    then show "\<exists>as. u_assoc ?s a = Some as \<and> a_src as = src" unfolding s1 using D(4) by (auto split: if_splits)
  next
    fix a as assume a: "u_assoc ?s a = Some as" "\<not> a_closed as"
    from D(5) [OF a(1) [unfolded s1] a(2)] obtain sl' where sl': "u_slots s (a_src as) = Some sl'"
      "slot_holds s sl' a \<or> (\<exists>t d. u_pc s t = Made d sl' a)" by blast
    have "a_src as \<noteq> d_src d"
    proof
      assume "a_src as = d_src d"
      with sl' me(1) have "sl' = sl" by (simp add: pending_slot_def)
      with sl'(2) pending_not_holds [OF me(1)] obtain t' d' where m: "u_pc s t' = Made d' sl a" by blast
      with D(2,3) me(2) have "t' = t" by blast
      with m assms(2) show False by simp
    qed
    moreover have "u_pc s t' = Made d' sl' a \<Longrightarrow> u_pc ?s t' = Made d' sl' a" for t' d' using assms(2) by auto
    ultimately show "\<exists>sl. u_slots ?s (a_src as) = Some sl \<and> (slot_holds s sl a \<or> (\<exists>t d. u_pc ?s t = Made d sl a))"
      using sl' unfolding s1(1) by (metis fun_upd_other)
  qed
  ultimately show ?thesis by (simp add: uinv_def)
qed

lemma uinv_associate_ok:
  assumes "uinv s" "u_pc s t = Associating d sl" "newUDPAssociation control relay (d_src d) s = (a, s1)"
  shows "uinv (goto t (Made d sl a) s1)" (is "uinv ?s")
proof -
  note D = uinvD [OF assms(1)]
  have me: "pending_slot s (d_src d) sl" "creates s sl t" using D(1) [OF assms(2)] by blast+
  let ?as = "\<lparr>a_control = control, a_relay = relay, a_src = d_src d, a_flows = [], a_closed = False\<rparr>"
  from assms(3) have s1: "a = u_next s" "u_slots s1 = u_slots s" "u_pc s1 = u_pc s"
    "u_assoc s1 = (u_assoc s)(a \<mapsto> ?as)" "u_flow s1 = u_flow s" "u_next s1 = Suc a" "u_slot s1 = u_slot s"
    by (auto simp: newUDPAssociation_def)
  have cr: "creates ?s sl' t' \<longleftrightarrow> creates s sl' t'" for sl' t' using assms(2) by (auto simp: creates_def s1(3))
  have eq: "slot_holds ?s = slot_holds s" "pending_slot ?s = pending_slot s"
    by (simp_all add: fun_eq_iff slot_holds_def pending_slot_def s1(2,7))
  have fr: "fresh_ok s" using assms(1) by (simp add: uinv_def)
  then have new: "u_assoc s a = None" by (simp add: fresh_ok_def s1(1))
  have "fresh_ok ?s" using fr less_SucI unfolding fresh_ok_def cr by (auto simp: s1(2-7)) (auto simp: s1(1) less_Suc_eq)
  moreover have "creators_ok ?s"
    unfolding creators_ok_def cr eq
  proof (intro conjI allI impI)
    fix t' d' sl' assume "u_pc ?s t' = Associating d' sl'"
    then have "u_pc s t' = Associating d' sl'" by (auto simp: s1(3) split: if_splits)
    then show "pending_slot s (d_src d') sl'" using D(1) by blast
  next
    fix t' d' sl' b assume m: "u_pc ?s t' = Made d' sl' b"
    show "pending_slot s (d_src d') sl'" using m D(2) me(1) by (cases "t' = t") (auto simp: s1(3))
    show "\<exists>as. u_assoc ?s b = Some as \<and> a_src as = d_src d'"
      using m D(2) [of t' d' sl' b] new by (cases "t' = t") (auto simp: s1(3,4))
  qed (use D(3) in blast)
  moreover have "slots_ok ?s"
    unfolding slots_ok_def eq
  proof (intro conjI allI impI)
    fix src sl' b assume "u_slots ?s src = Some sl'" "slot_holds s sl' b"
    then show "\<exists>as. u_assoc ?s b = Some as \<and> a_src as = src"
      using D(4) [of src sl' b] new by (cases "b = a") (auto simp: s1(2,4))
  next
    fix b as assume b: "u_assoc ?s b = Some as" "\<not> a_closed as"
    show "\<exists>sl. u_slots ?s (a_src as) = Some sl \<and> (slot_holds s sl b \<or> (\<exists>t d. u_pc ?s t = Made d sl b))"
    proof (cases "b = a")
      case True
      with b(1) me(1) show ?thesis by (auto simp: s1(2,3,4) pending_slot_def)
    next
      case False
      with b D(5) [of b as] obtain sl' where "u_slots s (a_src as) = Some sl'"
        "slot_holds s sl' b \<or> (\<exists>t d. u_pc s t = Made d sl' b)" by (auto simp: s1(4))
      moreover have "u_pc s t' = Made d' sl' b \<Longrightarrow> u_pc ?s t' = Made d' sl' b" for t' d' using assms(2) by (auto simp: s1(3))
      ultimately show ?thesis unfolding goto_simps(1) s1(2) by blast
    qed
  qed
  ultimately show ?thesis by (simp add: uinv_def)
qed

lemma uinv_assign:
  assumes "uinv s" "u_pc s t = Made d sl a" "u_slot s sl = Some x"
  shows "uinv (goto t (Publishing d sl) (set_slot sl (x\<lparr>s_assoc := Some a\<rparr>) s))" (is "uinv ?s")
proof -
  note D = uinvD [OF assms(1)]
  from D(2) [OF assms(2)] have me: "pending_slot s (d_src d) sl" "creates s sl t"
    and as: "\<exists>as. u_assoc s a = Some as \<and> a_src as = d_src d" by blast+
  have cr: "creates ?s sl' t' \<longleftrightarrow> t' \<noteq> t \<and> creates s sl' t'" for sl' t' by (auto simp: creates_def)
  have holds: "slot_holds ?s sl' b \<longleftrightarrow> (if sl' = sl then b = a else slot_holds s sl' b)" for sl' b
    by (auto simp: slot_holds_def)
  have pend: "pending_slot ?s src sl'" if "pending_slot s src sl'" "creates s sl' t'" "t' \<noteq> t" for src sl' t'
  proof -
    have "sl' \<noteq> sl" using that(2,3) me(2) D(3) by blast
    with that(1) show ?thesis by (simp add: pending_slot_def)
  qed
  have "fresh_ok s" using assms(1) by (simp add: uinv_def)
  then have "fresh_ok ?s" using assms(3) unfolding fresh_ok_def cr by auto
  moreover have "creators_ok ?s"
    unfolding creators_ok_def cr
  proof (intro conjI allI impI)
    fix t' d' sl' assume "u_pc ?s t' = Associating d' sl'"
    then have "u_pc s t' = Associating d' sl'" "t' \<noteq> t" by (auto split: if_splits)
    then show "pending_slot ?s (d_src d') sl'" using D(1) pend by blast
  next
    fix t' d' sl' b assume "u_pc ?s t' = Made d' sl' b"
    then have m: "u_pc s t' = Made d' sl' b" "t' \<noteq> t" by (auto split: if_splits)
    then show "pending_slot ?s (d_src d') sl'" using D(2) pend by blast
    show "\<exists>as. u_assoc ?s b = Some as \<and> a_src as = d_src d'" using D(2) [OF m(1)] by simp
  qed (use D(3) in blast)
  moreover have "slots_ok ?s"
    unfolding slots_ok_def holds
  proof (intro conjI allI impI)
    fix src sl' b assume b: "u_slots ?s src = Some sl'" "if sl' = sl then b = a else slot_holds s sl' b"
    show "\<exists>as. u_assoc ?s b = Some as \<and> a_src as = src"
    proof (cases "sl' = sl \<and> src \<noteq> d_src d")
      case False
      then show ?thesis using b as me(1) D(4) [of src sl' b] by (auto simp: pending_slot_def split: if_splits)
    next
      case True
      then show ?thesis
        using b(1) me(1) \<open>fresh_ok s\<close> unfolding fresh_ok_def pending_slot_def by auto
    qed
  next
    fix b bs assume b: "u_assoc ?s b = Some bs" "\<not> a_closed bs"
    from D(5) [of b bs] b obtain sl' where sl': "u_slots s (a_src bs) = Some sl'"
      "slot_holds s sl' b \<or> (\<exists>t d. u_pc s t = Made d sl' b)" by auto
    have "(if sl' = sl then b = a else slot_holds s sl' b) \<or> (\<exists>t d. u_pc ?s t = Made d sl' b)"
    proof (cases "sl' = sl")
      case True
      with sl'(2) pending_not_holds [OF me(1)] obtain t' d' where m: "u_pc s t' = Made d' sl b" by blast
      with D(2,3) me(2) have "t' = t" by blast
      with m assms(2) True show ?thesis by simp
    next
      case False
      have "u_pc s t' = Made d' sl' b \<Longrightarrow> u_pc ?s t' = Made d' sl' b" for t' d' using assms(2) False by auto
      with False sl'(2) show ?thesis by metis
    qed
    with sl'(1) show "\<exists>sl'. u_slots ?s (a_src bs) = Some sl' \<and>
        ((if sl' = sl then b = a else slot_holds s sl' b) \<or> (\<exists>t d. u_pc ?s t = Made d sl' b))" by auto
  qed
  ultimately show ?thesis by (simp add: uinv_def)
qed

text \<open>Closing an open association and forgetting it, as \<^verbatim>\<open>closeFlow\<close> and \<^verbatim>\<open>shutdown\<close> do.\<close>

definition retire :: "nat \<Rightarrow> udpAssociation \<Rightarrow> (string \<times> nat) list \<Rightarrow> ust \<Rightarrow> ust" where
  "retire a as fl s = forget a (a_src as) (s\<lparr>u_assoc := (u_assoc s)(a \<mapsto> as\<lparr>a_flows := fl, a_closed := True\<rparr>)\<rparr>)"

lemma forget_simps [simp]:
  "u_slot (forget a src s) = u_slot s" "u_assoc (forget a src s) = u_assoc s" "u_flow (forget a src s) = u_flow s"
  "u_next (forget a src s) = u_next s" "u_pc (forget a src s) = u_pc s" "u_shut (forget a src s) = u_shut s"
  "u_todo (forget a src s) = u_todo s"
  by (simp_all add: forget_def split: option.split)

lemma forget_slots:
  "u_slots (forget a src s) = (case u_slots s src of None \<Rightarrow> u_slots s
     | Some sl \<Rightarrow> if slot_holds s sl a then (u_slots s)(src := None) else u_slots s)"
  by (simp add: forget_def split: option.split)

lemma uinv_retire:
  assumes "uinv s" "u_assoc s a = Some as" "\<not> a_closed as"
  shows "uinv (retire a as fl s)" (is "uinv ?s")
proof -
  note D = uinvD [OF assms(1)]
  have fr: "fresh_ok s" using assms(1) by (simp add: uinv_def)
  obtain sl where sl: "u_slots s (a_src as) = Some sl" using D(5) [OF assms(2,3)] by blast
  have holds0: "slot_holds (s\<lparr>u_assoc := m\<rparr>) = slot_holds s" for m by (simp add: fun_eq_iff slot_holds_def)
  have s1: "u_slot ?s = u_slot s" "u_flow ?s = u_flow s" "u_next ?s = u_next s" "u_pc ?s = u_pc s"
    "u_assoc ?s = (u_assoc s)(a \<mapsto> as\<lparr>a_flows := fl, a_closed := True\<rparr>)"
    and slots: "u_slots ?s = (if slot_holds s sl a then (u_slots s)(a_src as := None) else u_slots s)"
    using sl by (simp_all add: retire_def forget_slots holds0)
  have eq: "creates ?s = creates s" "slot_holds ?s = slot_holds s"
    by (simp_all add: fun_eq_iff creates_def slot_holds_def s1)
  have pend: "pending_slot ?s src sl'" if "pending_slot s src sl'" for src sl'
    using that sl pending_not_holds [OF that, of a] by (auto simp: pending_slot_def s1(1) slots)
  have "fresh_ok ?s" using fr assms(2) unfolding fresh_ok_def eq s1 slots by (auto split: if_splits)
  moreover have "creators_ok ?s"
    unfolding creators_ok_def eq s1(4)
  proof (intro conjI allI impI)
    fix t d sl' b assume m: "u_pc s t = Made d sl' b"
    show "pending_slot ?s (d_src d) sl'" using D(2) [OF m] pend by blast
    show "\<exists>as. u_assoc ?s b = Some as \<and> a_src as = d_src d" using D(2) [OF m] assms(2) by (auto simp: s1(5))
  qed (use D(1,3) pend in blast)+
  moreover have "slots_ok ?s"
    unfolding slots_ok_def eq s1(4)
  proof (intro conjI allI impI)
    fix src sl' b assume "u_slots ?s src = Some sl'" "slot_holds s sl' b"
    then have "u_slots s src = Some sl'" "slot_holds s sl' b" by (auto simp: slots split: if_splits)
    from D(4) [OF this] assms(2) show "\<exists>as. u_assoc ?s b = Some as \<and> a_src as = src" by (auto simp: s1(5))
  next
    fix b bs assume b: "u_assoc ?s b = Some bs" "\<not> a_closed bs"
    then have b': "b \<noteq> a" "u_assoc s b = Some bs" by (auto simp: s1(5) split: if_splits)
    from uinv_unique [OF assms(1) b'(2) b(2) assms(2,3)] b'(1) have "a_src bs \<noteq> a_src as" by blast
    with D(5) [OF b'(2) b(2)]
    show "\<exists>sl. u_slots ?s (a_src bs) = Some sl \<and> (slot_holds s sl b \<or> (\<exists>t d. u_pc s t = Made d sl b))"
      by (simp add: slots)
  qed
  ultimately show ?thesis by (simp add: uinv_def)
qed

lemma uinv_flow_only:
  assumes "uinv s" "\<And>i. u_flow s i = None \<Longrightarrow> m i = None"
  shows "uinv (s\<lparr>u_flow := m\<rparr>)"
  using assms by (intro uinv_frame [OF assms(1)]) (auto simp: uinv_def fresh_ok_def)

lemma uinv_flow_upd: "uinv s \<Longrightarrow> uinv (s\<lparr>u_flow := (u_flow s)(f := map_option g (u_flow s f))\<rparr>)"
  by (rule uinv_flow_only) auto

lemma uinv_flow_end: "uinv s \<Longrightarrow> uinv (flow_end f s)"
  by (simp add: flow_end_def uinv_flow_upd)

lemma uinv_todo: "uinv s \<Longrightarrow> uinv (s\<lparr>u_todo := td\<rparr>)" "uinv s \<Longrightarrow> uinv (s\<lparr>u_shut := sh, u_todo := td\<rparr>)"
  by (rule uinv_frame; auto simp: uinv_def fresh_ok_def)+

lemma uinv_closing: "closing_step s s' \<Longrightarrow> uinv s \<Longrightarrow> uinv s'"
  by (induction rule: closing_step.induct) (auto intro: uinv_todo uinv_flow_end)

lemma shutdown_retire:
  assumes "u_assoc s a = Some as" "\<not> a_closed as"
  shows "shutdown a s = (retire a as [] s)
    \<lparr>u_todo := u_todo s @ [\<lparr>t_conns = [a_relay as, a_control as], t_flows = map snd (a_flows as)\<rparr>]\<rparr>"
  using assms by (simp add: shutdown_def retire_def Let_def)

lemma closeFlow_retire:
  assumes "u_flow s f = Some fl" "u_assoc s (f_a fl) = Some as" "remove_flow f (f_key fl) (a_flows as) = []" "\<not> a_closed as"
  shows "closeFlow f s = (retire (f_a fl) as [] s)
    \<lparr>u_todo := u_todo s @ [\<lparr>t_conns = [a_relay as, a_control as], t_flows = []\<rparr>]\<rparr>"
  using assms by (simp add: closeFlow_def retire_def Let_def)

lemma closeFlow_stays:
  assumes "u_flow s f = Some fl" "u_assoc s (f_a fl) = Some as" "remove_flow f (f_key fl) (a_flows as) \<noteq> [] \<or> a_closed as"
  shows "closeFlow f s = s\<lparr>u_assoc := (u_assoc s)(f_a fl \<mapsto> as\<lparr>a_flows := remove_flow f (f_key fl) (a_flows as)\<rparr>)\<rparr>"
  using assms by (cases as) (auto simp: closeFlow_def Let_def)

lemma uinv_shutdown:
  assumes "uinv s"
  shows "uinv (shutdown a s)"
proof (cases "u_assoc s a")
  case (Some as)
  show ?thesis
  proof (cases "a_closed as")
    case False
    with shutdown_retire [OF Some] uinv_todo(1) [OF uinv_retire [OF assms Some False]] show ?thesis by simp
  qed (use assms Some in \<open>simp add: shutdown_def\<close>)
qed (use assms in \<open>simp add: shutdown_def\<close>)

lemma uinv_closeFlow:
  assumes "uinv s"
  shows "uinv (closeFlow f s)"
proof (cases "\<exists>fl as. u_flow s f = Some fl \<and> u_assoc s (f_a fl) = Some as")
  case True
  then obtain fl as where f: "u_flow s f = Some fl" "u_assoc s (f_a fl) = Some as" by blast
  show ?thesis
  proof (cases "remove_flow f (f_key fl) (a_flows as) = [] \<and> \<not> a_closed as")
    case True
    with closeFlow_retire [OF f] uinv_todo(1) [OF uinv_retire [OF assms f(2)]] show ?thesis by simp
  next
    case False
    with closeFlow_stays [OF f] f(2) show ?thesis
      by (intro uinv_frame [OF assms]) (use assms in \<open>auto simp: uinv_def fresh_ok_def split: if_splits\<close>)
  qed
qed (use assms in \<open>auto simp: closeFlow_def split: option.splits\<close>)

lemma uinv_readLoop:
  assumes "uinv s"
  shows "uinv (readLoop_datagram a b s)"
  using assms by (simp add: readLoop_datagram_def uinv_flow_upd split: res.split sum.split prod.split option.split)

lemma uinv_open:
  assumes "uinv s" "assoc_open a host port s = (r, s1)"
  shows "uinv s1 \<and> u_pc s1 = u_pc s"
proof (cases "\<exists>as. u_assoc s a = Some as \<and> \<not> a_closed as")
  case True
  then obtain as where as: "u_assoc s a = Some as" "\<not> a_closed as" by blast
  with assms(2) have "u_slots s1 = u_slots s" "u_slot s1 = u_slot s" "u_pc s1 = u_pc s" "u_next s1 = Suc (u_next s)"
    "\<exists>fl. u_assoc s1 = (u_assoc s)(a \<mapsto> as\<lparr>a_flows := fl\<rparr>)" "\<exists>fl. u_flow s1 = (u_flow s)(u_next s \<mapsto> fl)"
    by (auto simp: assoc_open_def Let_def)
  with assms(1) as show ?thesis
    by (intro conjI uinv_frame [OF assms(1)]) (auto simp: uinv_def fresh_ok_def split: if_splits)
qed (use assms in \<open>auto simp: assoc_open_def split: option.splits if_splits\<close>)

lemma uinv_step: "ustep s s' \<Longrightarrow> uinv s \<Longrightarrow> uinv s'"
proof (induction rule: ustep.induct)
  case (publish s t d sl x)
  then show ?case using uinv_goto [OF uinv_publish, of s sl x] by simp
qed (auto intro: uinv_goto uinv_lookup_miss uinv_associate_fail uinv_associate_ok uinv_assign uinv_readLoop uinv_shutdown
      uinv_closing uinv_flow_end uinv_closeFlow simp: uinv_open)

lemma uinv_reach: "reach ust_init s \<Longrightarrow> uinv s"
  by (induction rule: reach.induct) (auto intro: uinv_init uinv_step)

section \<open>Flows\<close>

text \<open>
  A connection, or a flow, that a goroutine has still to close; what holds of the flows of one association, and of a
  flow no goroutine has ended.
\<close>

definition closing_conn :: "ust \<Rightarrow> nat \<Rightarrow> bool" where
  "closing_conn s c \<longleftrightarrow> (\<exists>w \<in> set (u_todo s). c \<in> set (t_conns w))"

definition waking :: "ust \<Rightarrow> nat \<Rightarrow> bool" where
  "waking s f \<longleftrightarrow> (\<exists>w \<in> set (u_todo s). f \<in> set (t_flows w))"

definition conn_ended :: "ust \<Rightarrow> nat \<Rightarrow> bool" where
  "conn_ended s c \<longleftrightarrow> c \<in> set (u_shut s) \<or> closing_conn s c"

definition flows_ok :: "ust \<Rightarrow> nat \<Rightarrow> udpAssociation \<Rightarrow> bool" where
  "flows_ok s a as \<longleftrightarrow>
     (\<forall>k f. map_of (a_flows as) k = Some f \<longrightarrow> (\<exists>fl. u_flow s f = Some fl \<and> f_a fl = a \<and> f_key fl = k)) \<and>
     distinct (map fst (a_flows as)) \<and>
     (a_closed as \<longrightarrow> a_flows as = [] \<and> conn_ended s (a_relay as) \<and> conn_ended s (a_control as))"

definition registered :: "ust \<Rightarrow> nat \<Rightarrow> udpFlow \<Rightarrow> bool" where
  "registered s f fl \<longleftrightarrow> (\<exists>as. u_assoc s (f_a fl) = Some as \<and> map_of (a_flows as) (f_key fl) = Some f)"

definition superseded :: "ust \<Rightarrow> nat \<Rightarrow> udpFlow \<Rightarrow> bool" where
  "superseded s f fl \<longleftrightarrow> (\<exists>g gl. f < g \<and> u_flow s g = Some gl \<and> f_a gl = f_a fl \<and> f_key gl = f_key fl)"

definition flow_ok :: "ust \<Rightarrow> nat \<Rightarrow> udpFlow \<Rightarrow> bool" where
  "flow_ok s f fl \<longleftrightarrow> length (f_in fl) \<le> udpFlowQueue \<and> (f_done fl \<or> registered s f fl \<or> superseded s f fl \<or> waking s f)"

definition finv :: "ust \<Rightarrow> bool" where
  "finv s \<longleftrightarrow> (\<forall>a as. u_assoc s a = Some as \<longrightarrow> flows_ok s a as) \<and> (\<forall>f fl. u_flow s f = Some fl \<longrightarrow> flow_ok s f fl)"

lemma finv_cong:
  assumes "u_assoc s' = u_assoc s" "u_flow s' = u_flow s" "u_shut s' = u_shut s" "u_todo s' = u_todo s"
  shows "finv s' = finv s"
  by (simp add: finv_def flows_ok_def flow_ok_def registered_def superseded_def conn_ended_def closing_conn_def waking_def assms)

text \<open>A change of flows that keeps what identifies them, ends none that was not ended, and drops no registration.\<close>

definition flow_le :: "udpFlow \<Rightarrow> udpFlow \<Rightarrow> bool" where
  "flow_le fl fl' \<longleftrightarrow> f_a fl' = f_a fl \<and> f_key fl' = f_key fl \<and> (f_done fl \<longrightarrow> f_done fl') \<and>
     (length (f_in fl) \<le> udpFlowQueue \<longrightarrow> length (f_in fl') \<le> udpFlowQueue)"

definition flows_le :: "ust \<Rightarrow> ust \<Rightarrow> bool" where
  "flows_le s s' \<longleftrightarrow>
     (\<forall>f fl. u_flow s f = Some fl \<longrightarrow> (\<exists>fl'. u_flow s' f = Some fl' \<and> flow_le fl fl')) \<and>
     (\<forall>f fl'. u_flow s' f = Some fl' \<longrightarrow> (\<exists>fl. u_flow s f = Some fl \<and> flow_le fl fl'))"

lemma flows_leD:
  "flows_le s s' \<Longrightarrow> u_flow s f = Some fl \<Longrightarrow> \<exists>fl'. u_flow s' f = Some fl' \<and> flow_le fl fl'"
  "flows_le s s' \<Longrightarrow> u_flow s' f = Some fl' \<Longrightarrow> \<exists>fl. u_flow s f = Some fl \<and> flow_le fl fl'"
  unfolding flows_le_def by blast+

lemma flows_ok_mono:
  assumes "flows_ok s a as" "\<And>c. conn_ended s c \<Longrightarrow> conn_ended s' c"
    "\<And>f fl. u_flow s f = Some fl \<Longrightarrow> \<exists>fl'. u_flow s' f = Some fl' \<and> f_a fl' = f_a fl \<and> f_key fl' = f_key fl"
  shows "flows_ok s' a as"
proof -
  have "\<exists>fl. u_flow s' f = Some fl \<and> f_a fl = a \<and> f_key fl = k" if m: "map_of (a_flows as) k = Some f" for k f
  proof -
    from m assms(1) obtain fl where "u_flow s f = Some fl" "f_a fl = a" "f_key fl = k" unfolding flows_ok_def by blast
    with assms(3) [OF this(1)] show ?thesis by auto
  qed
  with assms(1,2) show ?thesis unfolding flows_ok_def by blast
qed

lemma superseded_le:
  assumes "flows_le s s'" "flow_le fl fl'" "superseded s f fl"
  shows "superseded s' f fl'"
proof -
  from assms(3) obtain g gl where g: "f < g" "u_flow s g = Some gl" "f_a gl = f_a fl" "f_key gl = f_key fl"
    by (auto simp: superseded_def)
  with flows_leD(1) [OF assms(1) g(2)] assms(2) show ?thesis by (auto simp: superseded_def flow_le_def)
qed

lemma finv_flow_change:
  assumes "finv s" "flows_le s s'" "u_assoc s' = u_assoc s" "\<And>c. conn_ended s c \<Longrightarrow> conn_ended s' c"
    "\<And>f fl'. waking s f \<Longrightarrow> u_flow s' f = Some fl' \<Longrightarrow> waking s' f \<or> f_done fl'"
  shows "finv s'"
  unfolding finv_def
proof (intro conjI allI impI)
  fix a as assume "u_assoc s' a = Some as"
  with assms have "flows_ok s a as" by (simp add: finv_def)
  then show "flows_ok s' a as"
    by (rule flows_ok_mono) (use assms(4) in blast, use flows_leD(1) [OF assms(2)] in \<open>fastforce simp: flow_le_def\<close>)
next
  fix f fl' assume f': "u_flow s' f = Some fl'"
  from flows_leD(2) [OF assms(2) f'] obtain fl where f: "u_flow s f = Some fl" "flow_le fl fl'" by blast
  from assms(1) f(1) have "flow_ok s f fl" by (simp add: finv_def)
  moreover have "registered s f fl \<Longrightarrow> registered s' f fl'" using f(2) assms(3) by (simp add: registered_def flow_le_def)
  ultimately show "flow_ok s' f fl'"
    using f(2) superseded_le [OF assms(2) f(2), of f] assms(5) [OF _ f'] unfolding flow_ok_def flow_le_def by blast
qed

lemma flows_le_upd:
  assumes "\<And>fl. flow_le fl (g fl)"
  shows "flows_le s (s\<lparr>u_flow := (u_flow s)(f := map_option g (u_flow s f))\<rparr>)"
proof -
  have "flow_le fl fl" for fl by (simp add: flow_le_def)
  with assms show ?thesis by (auto simp: flows_le_def)
qed

lemma finv_flow_upd:
  "finv s \<Longrightarrow> (\<And>fl. flow_le fl (g fl)) \<Longrightarrow> finv (s\<lparr>u_flow := (u_flow s)(f := map_option g (u_flow s f))\<rparr>)"
  by (rule finv_flow_change [OF _ flows_le_upd]) (auto simp: conn_ended_def closing_conn_def waking_def)

lemma flow_end_le: "flows_le s (flow_end f s)"
  unfolding flow_end_def by (rule flows_le_upd) (simp add: flow_le_def)

lemma finv_flow_end: "finv s \<Longrightarrow> finv (flow_end f s)"
  unfolding flow_end_def by (rule finv_flow_upd) (auto simp: flow_le_def)

lemma flow_end_simps [simp]:
  "u_assoc (flow_end f s) = u_assoc s" "u_shut (flow_end f s) = u_shut s" "u_todo (flow_end f s) = u_todo s"
  "u_slots (flow_end f s) = u_slots s" "u_slot (flow_end f s) = u_slot s"
  by (simp_all add: flow_end_def)

lemma flow_end_flow:
  "u_flow (flow_end f s) g = Some gl \<longleftrightarrow> (\<exists>gl0. u_flow s g = Some gl0 \<and> gl = (if g = f then gl0\<lparr>f_done := True\<rparr> else gl0))"
  by (auto simp: flow_end_def)

text \<open>What the closes outside the mutex change: the associations stay, and what was to be closed is closed or still to be.\<close>

lemma set_update_covers: "i < length xs \<Longrightarrow> x \<in> set xs \<Longrightarrow> x = xs ! i \<or> x \<in> set (xs[i := y])"
  by (metis in_set_conv_nth length_list_update nth_list_update_neq)

definition closing_frame :: "ust \<Rightarrow> ust \<Rightarrow> bool" where
  "closing_frame s s' \<longleftrightarrow> u_assoc s' = u_assoc s \<and> flows_le s s' \<and> (\<forall>c. conn_ended s c \<longrightarrow> conn_ended s' c) \<and>
     (\<forall>f fl. waking s f \<longrightarrow> u_flow s' f = Some fl \<longrightarrow> waking s' f \<or> f_done fl) \<and> u_slots s' = u_slots s \<and> u_slot s' = u_slot s"

lemma closing_step_frame: "closing_step s s' \<Longrightarrow> closing_frame s s'"
proof (induction rule: closing_step.induct)
  case (close_conn i s c0 cs fs)
  let ?w = "\<lparr>t_conns = cs, t_flows = fs\<rparr>"
  let ?s = "s\<lparr>u_shut := u_shut s @ [c0], u_todo := (u_todo s)[i := ?w]\<rparr>"
  have in': "?w \<in> set (u_todo ?s)" using close_conn by (simp add: set_update_memI)
  have cov: "w = \<lparr>t_conns = c0 # cs, t_flows = fs\<rparr> \<or> w \<in> set (u_todo ?s)" if "w \<in> set (u_todo s)" for w
    using set_update_covers [OF close_conn(1) that, of ?w] close_conn by simp
  have "conn_ended ?s c" if c: "conn_ended s c" for c
    using c in' cov by (fastforce simp: conn_ended_def closing_conn_def)
  moreover have "waking ?s f" if "waking s f" for f
  proof -
    from that obtain x where x: "x \<in> set (u_todo s)" "f \<in> set (t_flows x)" by (auto simp: waking_def)
    from cov [OF x(1)] have "\<exists>x \<in> set (u_todo ?s). f \<in> set (t_flows x)"
      using x(2) in' by (elim disjE) force+
    then show ?thesis by (simp add: waking_def)
  qed
  ultimately show ?case by (simp add: closing_frame_def flows_le_def flow_le_def)
next
  case (wake_flow i s fs g)
  let ?w = "\<lparr>t_conns = [], t_flows = remove1 g fs\<rparr>"
  let ?t = "s\<lparr>u_todo := (u_todo s)[i := ?w]\<rparr>"
  have in': "?w \<in> set (u_todo ?t)" using wake_flow by (simp add: set_update_memI)
  have cov: "w = \<lparr>t_conns = [], t_flows = fs\<rparr> \<or> w \<in> set (u_todo ?t)" if "w \<in> set (u_todo s)" for w
    using set_update_covers [OF wake_flow(1) that, of ?w] wake_flow by simp
  have "conn_ended (flow_end g ?t) c" if c: "conn_ended s c" for c
    using c cov by (fastforce simp: conn_ended_def closing_conn_def)
  moreover have "waking (flow_end g ?t) f \<or> f_done fl" if w: "waking s f" and fl: "u_flow (flow_end g ?t) f = Some fl" for f fl
  proof (cases "f = g")
    case True
    with fl show ?thesis by (auto simp: flow_end_flow)
  next
    case False
    from w obtain x where x: "x \<in> set (u_todo s)" "f \<in> set (t_flows x)" by (auto simp: waking_def)
    from cov [OF x(1)] have "\<exists>x \<in> set (u_todo ?t). f \<in> set (t_flows x)"
      using x(2) in' False by (elim disjE) force+
    then show ?thesis by (simp add: waking_def)
  qed
  moreover have "flows_le s (flow_end g ?t)" using flow_end_le [of ?t g] by (simp add: flows_le_def)
  ultimately show ?case by (simp add: closing_frame_def)
qed

text \<open>How many closes are still to run: every \<open>closing_step\<close> runs one, and while there is one some goroutine can run it.\<close>

definition pending_closes :: "ust \<Rightarrow> nat" where
  "pending_closes s = sum_list (map (\<lambda>w. length (t_conns w) + length (t_flows w)) (u_todo s))"

lemma pending_closes_update:
  assumes "i < length (u_todo s)" "length (t_conns w) + length (t_flows w) < length (t_conns (u_todo s ! i)) + length (t_flows (u_todo s ! i))"
    "u_todo s' = (u_todo s)[i := w]"
  shows "pending_closes s' < pending_closes s"
  using elem_le_sum_list [of i "map (\<lambda>w. length (t_conns w) + length (t_flows w)) (u_todo s)"] assms
  by (simp add: pending_closes_def map_update sum_list_update)

lemma closing_step_less: "closing_step s t \<Longrightarrow> pending_closes t < pending_closes s"
proof (induction rule: closing_step.induct)
  case (close_conn i s c cs fs)
  show ?case by (rule pending_closes_update [OF close_conn(1), of "\<lparr>t_conns = cs, t_flows = fs\<rparr>"]) (simp_all add: close_conn)
next
  case (wake_flow i s fs f)
  then have "0 < length fs" by (cases fs) auto
  with wake_flow show ?case
    by (intro pending_closes_update [OF wake_flow(1), of "\<lparr>t_conns = [], t_flows = remove1 f fs\<rparr>"])
      (simp_all add: length_remove1)
qed

lemma closing_step_enabled:
  assumes "pending_closes s \<noteq> 0"
  shows "\<exists>t. closing_step s t"
proof -
  from assms obtain w where w: "w \<in> set (u_todo s)" "t_conns w \<noteq> [] \<or> t_flows w \<noteq> []"
    unfolding pending_closes_def by (auto simp: sum_list_eq_0_iff)
  then obtain i where i: "i < length (u_todo s)" "u_todo s ! i = w" by (auto simp: in_set_conv_nth)
  show ?thesis
  proof (cases "t_conns w")
    case (Cons c cs)
    with closing_step.close_conn [OF i(1), of c cs "t_flows w"] i(2) show ?thesis by (cases w) auto
  next
    case Nil
    with w(2) obtain f where "f \<in> set (t_flows w)" by (cases "t_flows w") auto
    with closing_step.wake_flow [OF i(1), of "t_flows w" f] i(2) Nil show ?thesis by (cases w) auto
  qed
qed

lemma closing_drains: "\<exists>t. closing_step\<^sup>*\<^sup>* s t \<and> pending_closes t = 0"
proof (induction "pending_closes s" arbitrary: s rule: less_induct)
  case less
  show ?case
  proof (cases "pending_closes s = 0")
    case False
    with closing_step_enabled obtain u where u: "closing_step s u" by blast
    with less [OF closing_step_less] show ?thesis by (meson converse_rtranclp_into_rtranclp)
  qed blast
qed

lemma no_pending_closes: "pending_closes s = 0 \<Longrightarrow> \<not> closing_conn s c \<and> \<not> waking s f"
  by (auto simp: pending_closes_def sum_list_eq_0_iff closing_conn_def waking_def)

lemma closing_run_reach: "closing_step\<^sup>*\<^sup>* s t \<Longrightarrow> reach r s \<Longrightarrow> reach r t"
  by (induction rule: rtranclp_induct) (auto intro: reach_step ustep.closing)

lemma closing_run_frame: "closing_step\<^sup>*\<^sup>* s t \<Longrightarrow> u_assoc t = u_assoc s \<and> flows_le s t"
proof (induction rule: rtranclp_induct)
  case base
  show ?case by (simp add: flows_le_def flow_le_def)
next
  case (step t u)
  then have t: "u_assoc t = u_assoc s" "flows_le s t" "u_assoc u = u_assoc t" "flows_le t u"
    using closing_step_frame [OF step(2)] by (simp_all add: closing_frame_def)
  have trans: "flow_le x y \<Longrightarrow> flow_le y z \<Longrightarrow> flow_le x z" for x y z by (auto simp: flow_le_def)
  have "\<exists>fl'. u_flow u f = Some fl' \<and> flow_le fl fl'" if "u_flow s f = Some fl" for f fl
    using flows_leD(1) [OF t(2) that] flows_leD(1) [OF t(4)] trans by blast
  moreover have "\<exists>fl. u_flow s f = Some fl \<and> flow_le fl fl'" if "u_flow u f = Some fl'" for f fl'
    using flows_leD(2) [OF t(4) that] flows_leD(2) [OF t(2)] trans by blast
  ultimately show ?case using t(1,3) by (simp add: flows_le_def)
qed

lemma superseded_back:
  assumes "flows_le s t" "flow_le fl fl'" "superseded t f fl'"
  shows "superseded s f fl"
proof -
  from assms(3) obtain g gl where g: "f < g" "u_flow t g = Some gl" "f_a gl = f_a fl'" "f_key gl = f_key fl'"
    by (auto simp: superseded_def)
  with flows_leD(2) [OF assms(1) g(2)] assms(2) show ?thesis by (auto simp: superseded_def flow_le_def)
qed

lemma finv_closing: "closing_step s s' \<Longrightarrow> finv s \<Longrightarrow> finv s'"
  using closing_step_frame [of s s'] unfolding closing_frame_def by (intro finv_flow_change [of s s']) blast+

lemma flow_le_enqueue: "flow_le fl (flow_enqueue p fl)"
  by (auto simp: flow_le_def flow_enqueue_def udpFlowQueue_def)

lemma finv_readLoop: "finv s \<Longrightarrow> finv (readLoop_datagram a b s)"
  by (simp add: readLoop_datagram_def finv_flow_upd flow_le_enqueue split: res.split sum.split prod.split option.split)

lemma finv_open:
  assumes "finv s" "uinv s" "assoc_open a host port s = (r, s1)"
  shows "finv s1"
proof (cases "\<exists>as. u_assoc s a = Some as \<and> \<not> a_closed as")
  case True
  then obtain as where as: "u_assoc s a = Some as" "\<not> a_closed as" by blast
  let ?f = "u_next s" and ?k = "udpFlowKey host port"
  let ?fl = "\<lparr>f_a = a, f_key = ?k, f_host = host, f_port = port, f_in = [], f_done = False, f_deadline = None\<rparr>"
  let ?as = "as\<lparr>a_flows := AList.update ?k ?f (a_flows as)\<rparr>"
  from as assms(3) have s1: "u_flow s1 = (u_flow s)(?f \<mapsto> ?fl)" "u_assoc s1 = (u_assoc s)(a \<mapsto> ?as)"
    and td: "u_shut s1 = u_shut s" "u_todo s1 = u_todo s"
    by (auto simp: assoc_open_def Let_def)
  have same: "conn_ended s1 = conn_ended s" "waking s1 = waking s"
    by (simp_all add: fun_eq_iff conn_ended_def closing_conn_def waking_def td)
  have new: "u_flow s ?f = None" and small: "u_flow s g = Some gl \<Longrightarrow> g < ?f" for g gl
    using assms(2) unfolding uinv_def fresh_ok_def by (auto, metis leI option.distinct(1))
  have old: "u_flow s1 g = Some gl" if "u_flow s g = Some gl" for g gl using that new by (auto simp: s1)
  have "flows_ok s1 b bs" if "u_assoc s1 b = Some bs" for b bs
  proof (cases "b = a")
    case True
    have "flows_ok s a as" using assms(1) as(1) by (simp add: finv_def)
    then have ok: "flows_ok s1 a as" by (rule flows_ok_mono) (use old in \<open>auto simp: same\<close>)
    have "bs = ?as" using that True by (simp add: s1)
    with ok as(2) True show ?thesis
      by (auto simp: flows_ok_def update_conv' distinct_update s1(1))
  next
    case False
    with that assms(1) have "flows_ok s b bs" by (simp add: finv_def s1)
    then show ?thesis by (rule flows_ok_mono) (use old in \<open>auto simp: same\<close>)
  qed
  moreover have "flow_ok s1 g gl" if g: "u_flow s1 g = Some gl" for g gl
  proof (cases "g = ?f")
    case True
    with g show ?thesis by (auto simp: s1 flow_ok_def registered_def update_conv')
  next
    case False
    with g have g': "u_flow s g = Some gl" by (simp add: s1)
    with assms(1) have ok: "flow_ok s g gl" by (simp add: finv_def)
    have sup: "superseded s g gl \<Longrightarrow> superseded s1 g gl" unfolding superseded_def using old by blast
    have "registered s g gl \<Longrightarrow> registered s1 g gl \<or> superseded s1 g gl"
      using as(1) small [OF g'] by (auto simp: registered_def superseded_def s1 update_conv')
    with ok sup show ?thesis unfolding flow_ok_def same by blast
  qed
  ultimately show ?thesis by (simp add: finv_def)
qed (use assms in \<open>auto simp: assoc_open_def split: option.splits if_splits\<close>)

lemma finv_new_assoc:
  assumes "finv s" "uinv s" "newUDPAssociation control relay src s = (a, s1)"
  shows "finv s1"
proof -
  from assms(3) have s1: "a = u_next s" "u_flow s1 = u_flow s" "conn_ended s1 = conn_ended s"
    "u_assoc s1 = (u_assoc s)(a \<mapsto> \<lparr>a_control = control, a_relay = relay, a_src = src, a_flows = [], a_closed = False\<rparr>)"
    "waking s1 = waking s"
    by (auto simp: newUDPAssociation_def fun_eq_iff conn_ended_def closing_conn_def waking_def)
  have none: "u_assoc s a = None" using assms(2) s1(1) by (simp add: uinv_def fresh_ok_def)
  have "flows_ok s1 b bs" if "u_assoc s1 b = Some bs" for b bs
    using that assms(1) by (cases "b = a") (auto simp: s1 finv_def flows_ok_def)
  moreover have "flow_ok s1 f fl" if "u_flow s1 f = Some fl" for f fl
  proof -
    from that assms(1) have "flow_ok s f fl" by (simp add: finv_def s1)
    moreover have "registered s f fl \<Longrightarrow> registered s1 f fl" using none by (auto simp: registered_def s1(4))
    moreover have "superseded s1 f fl = superseded s f fl" by (simp add: superseded_def s1(2))
    ultimately show ?thesis unfolding flow_ok_def s1(5) by blast
  qed
  ultimately show ?thesis by (simp add: finv_def)
qed

text \<open>
  A step that takes an association out of service: its flows, if any are left, are to be woken, its connections are to
  be closed, and nothing else changes.
\<close>

lemma finv_retire:
  assumes "finv s" "u_assoc s a = Some as" "\<not> a_closed as"
    "\<And>k f fl. map_of (a_flows as) k = Some f \<Longrightarrow> u_flow s f = Some fl \<Longrightarrow> f_done fl \<or> f \<in> set fs"
  shows "finv ((retire a as [] s)\<lparr>u_todo := u_todo s @ [\<lparr>t_conns = [a_relay as, a_control as], t_flows = fs\<rparr>]\<rparr>)" (is "finv ?s")
proof -
  have s1: "u_flow ?s = u_flow s" "u_assoc ?s = (u_assoc s)(a \<mapsto> as\<lparr>a_flows := [], a_closed := True\<rparr>)"
    by (simp_all add: retire_def)
  have end': "conn_ended s c \<Longrightarrow> conn_ended ?s c" "conn_ended ?s (a_relay as)" "conn_ended ?s (a_control as)" for c
    by (auto simp: conn_ended_def closing_conn_def retire_def)
  have wake: "waking s f \<Longrightarrow> waking ?s f" "f \<in> set fs \<Longrightarrow> waking ?s f" for f
    by (auto simp: waking_def)
  have "flows_ok ?s b bs" if b: "u_assoc ?s b = Some bs" for b bs
  proof (cases "b = a")
    case True
    with b end' show ?thesis by (auto simp: s1(2) flows_ok_def)
  next
    case False
    with b assms(1) have "flows_ok s b bs" by (simp add: finv_def s1(2))
    then show ?thesis by (rule flows_ok_mono) (use end' in \<open>auto simp: s1(1)\<close>)
  qed
  moreover have "flow_ok ?s f fl" if f: "u_flow ?s f = Some fl" for f fl
  proof -
    have ok: "flow_ok s f fl" using f assms(1) by (simp add: finv_def s1(1))
    have sup: "superseded ?s f fl = superseded s f fl" by (simp add: superseded_def s1(1))
    have "registered s f fl \<Longrightarrow> f_done fl \<or> registered ?s f fl \<or> waking ?s f"
      using assms(2,4) wake(2) f by (cases "f_a fl = a") (auto simp: registered_def s1)
    with ok sup wake(1) show ?thesis unfolding flow_ok_def by blast
  qed
  ultimately show ?thesis by (simp add: finv_def)
qed

lemma finv_shutdown:
  assumes "finv s"
  shows "finv (shutdown a s)"
proof (cases "\<exists>as. u_assoc s a = Some as \<and> \<not> a_closed as")
  case True
  then obtain as where as: "u_assoc s a = Some as" "\<not> a_closed as" by blast
  show ?thesis
    unfolding shutdown_retire [OF as] by (rule finv_retire [OF assms as]) (force dest: map_of_SomeD)
qed (use assms in \<open>auto simp: shutdown_def split: option.splits if_splits\<close>)

text \<open>\<^verbatim>\<open>closeFlow\<close> of a flow that has ended.\<close>

lemma remove_flow_sub: "map_of (remove_flow f k xs) k' = Some g \<Longrightarrow> map_of xs k' = Some g"
  by (auto simp: remove_flow_def delete_conv' split: if_splits)

lemma remove_flow_other: "map_of xs k' = Some g \<Longrightarrow> g \<noteq> f \<Longrightarrow> map_of (remove_flow f k xs) k' = Some g"
  by (auto simp: remove_flow_def delete_conv')

lemma finv_remove_flow:
  assumes "finv s" "u_flow s f = Some fl" "f_done fl" "u_assoc s (f_a fl) = Some as"
  shows "finv (s\<lparr>u_assoc := (u_assoc s)(f_a fl \<mapsto> as\<lparr>a_flows := remove_flow f (f_key fl) (a_flows as)\<rparr>)\<rparr>)" (is "finv ?s")
proof -
  have s1: "conn_ended (s\<lparr>u_assoc := m\<rparr>) = conn_ended s" "waking (s\<lparr>u_assoc := m\<rparr>) = waking s" for m
    by (auto simp: fun_eq_iff conn_ended_def closing_conn_def waking_def)
  have as: "flows_ok s (f_a fl) as" using assms(1,4) by (simp add: finv_def)
  have dist: "distinct (map fst (remove_flow f (f_key fl) (a_flows as)))"
    using as by (auto simp: flows_ok_def remove_flow_def distinct_delete)
  have empty: "a_flows as = [] \<Longrightarrow> remove_flow f (f_key fl) (a_flows as) = []" by (simp add: remove_flow_def)
  have "flows_ok ?s b bs" if b: "u_assoc ?s b = Some bs" for b bs
  proof (cases "b = f_a fl")
    case True
    with b have "bs = as\<lparr>a_flows := remove_flow f (f_key fl) (a_flows as)\<rparr>" by simp
    moreover have "\<exists>fl'. u_flow s g = Some fl' \<and> f_a fl' = f_a fl \<and> f_key fl' = k"
      if "map_of (remove_flow f (f_key fl) (a_flows as)) k = Some g" for k g
      using as remove_flow_sub [OF that] unfolding flows_ok_def by blast
    ultimately show ?thesis using as dist empty True by (simp add: flows_ok_def s1(1))
  next
    case False
    with b assms(1) show ?thesis by (auto simp: finv_def flows_ok_def s1(1))
  qed
  moreover have "flow_ok ?s g gl" if g: "u_flow ?s g = Some gl" for g gl
  proof -
    have ok: "flow_ok s g gl" using g assms(1) by (simp add: finv_def)
    have "superseded ?s g gl = superseded s g gl" by (simp add: superseded_def)
    moreover have "registered s g gl \<Longrightarrow> f_done gl \<or> registered ?s g gl"
      using assms(2-4) g remove_flow_other by (cases "g = f") (auto simp: registered_def)
    ultimately show ?thesis using ok unfolding flow_ok_def s1(2) by blast
  qed
  ultimately show ?thesis by (simp add: finv_def)
qed

lemma finv_closeFlow:
  assumes "finv s" "u_flow s f = Some fl" "f_done fl"
  shows "finv (closeFlow f s)"
proof (cases "u_assoc s (f_a fl)")
  case (Some as)
  show ?thesis
  proof (cases "remove_flow f (f_key fl) (a_flows as) = [] \<and> \<not> a_closed as")
    case True
    have "g = f" if "map_of (a_flows as) k = Some g" for k g
      using remove_flow_other [OF that, of f "f_key fl"] True by auto
    then show ?thesis
      unfolding closeFlow_retire [OF assms(2) Some conjunct1 [OF True] conjunct2 [OF True]]
      by (intro finv_retire [OF assms(1) Some]) (use True assms(2,3) in auto)
  next
    case False
    with closeFlow_stays [OF assms(2) Some] finv_remove_flow [OF assms Some] show ?thesis by simp
  qed
qed (use assms in \<open>simp add: closeFlow_def\<close>)

lemma finv_goto [simp]: "finv (goto t p s) = finv s" and finv_set_slot [simp]: "finv (set_slot sl x s) = finv s"
  and finv_slots [simp]: "finv (s\<lparr>u_slots := m\<rparr>) = finv s"
  by (rule finv_cong; simp)+

lemma finv_step: "ustep s s' \<Longrightarrow> uinv s \<Longrightarrow> finv s \<Longrightarrow> finv s'"
proof (induction rule: ustep.induct)
  case (lookup_miss s t d sl s1)
  have "finv s1 = finv s" using lookup_miss(3) by (intro finv_cong) (auto simp: new_slot_def)
  with lookup_miss show ?case by simp
qed (auto intro: finv_new_assoc finv_open finv_readLoop finv_shutdown finv_closing finv_flow_end finv_closeFlow)

lemma finv_reach: "reach ust_init s \<Longrightarrow> finv s"
proof (induction rule: reach.induct)
  case (reach_step s s')
  then show ?case using finv_step uinv_reach by blast
qed (simp add: finv_def ust_init_def)

section \<open>The contract of associate\<close>

definition assoc_exchange :: "ProxyAddr \<Rightarrow> ctx \<Rightarrow> nat \<Rightarrow> (world, string) act" where
  "assoc_exchange proxy cx control =
     act_bind (applyDeadline cx control) (\<lambda>_.
     act_bind (socks5Handshake control (pa_Auth proxy)) (\<lambda>_.
     act_bind (socks5Request control socks5CmdUDPAssociate ''0.0.0.0'' 0) (\<lambda>(bindHost, bindPort).
     act_bind (act_lift (relay_host proxy bindHost)) (\<lambda>bindHost.
     act_ret (JoinHostPort bindHost (itoa (unat bindPort)))))))"

lemma keeps_relay_host [keeps]: "act_keeps P (act_lift (relay_host proxy h))"
  by (auto simp: act_keeps_def relay_host_def Let_def res_bind_Pan_iff Throw3_iff split: prod.split_asm if_splits)

lemma keeps_assoc_exchange: "act_keeps (touched k w) (assoc_exchange proxy cx k)"
  unfolding assoc_exchange_def by (intro keeps)

lemma act_bind_assoc: "act_bind (act_bind m f) g s = act_bind m (\<lambda>a. act_bind (f a) g) s"
  by (auto simp: act_bind_def split: prod.split res.split)

lemma act_bind_cong: "(\<And>a s. f a s = g a s) \<Longrightarrow> act_bind m f s = act_bind m g s"
  by (auto simp: act_bind_def split: prod.split res.split)

definition assoc_relay :: "(world, nat) connector \<Rightarrow> ctx \<Rightarrow> nat \<Rightarrow> string \<Rightarrow> (world, nat \<times> nat) act" where
  "assoc_relay udp cx control addr =
     act_bind (act_bind (udp cx ''udp'' addr) (\<lambda>x. act_lift (Throw2 x))) (\<lambda>relay.
     CloseOnThrow (w_close relay)
       (act_bind (act_throw (w_set_deadline control None)) (\<lambda>_. act_ret (control, relay))))"

lemma associate_eq:
  "associate tcp udp proxy cx w =
     act_bind (act_bind (tcp cx ''tcp'' (pa_Address proxy)) (\<lambda>x. act_lift (Throw2 x))) (\<lambda>control.
       CloseOnThrow (w_close control) (act_bind (assoc_exchange proxy cx control) (assoc_relay udp cx control))) w"
proof -
  have "act_bind (assoc_exchange proxy cx control) (assoc_relay udp cx control) s =
      act_bind (applyDeadline cx control) (\<lambda>_.
      act_bind (socks5Handshake control (pa_Auth proxy)) (\<lambda>_.
      act_bind (socks5Request control socks5CmdUDPAssociate ''0.0.0.0'' 0) (\<lambda>(bindHost, bindPort).
      act_bind (act_lift (relay_host proxy bindHost)) (\<lambda>bindHost.
      assoc_relay udp cx control (JoinHostPort bindHost (itoa (unat bindPort))))))) s" for control s
    unfolding assoc_exchange_def
    by (simp add: act_bind_assoc split_def)
      (intro act_bind_cong, simp add: act_bind_assoc, intro act_bind_cong, simp add: act_bind_assoc,
       intro act_bind_cong, simp add: act_bind_def split: res.split)
  then show ?thesis
    unfolding associate_def assoc_relay_def [symmetric] by (intro act_bind_cong) (simp add: CloseOnThrow_def)
qed

lemma assoc_relay_held:
  assumes "connector_contract udp eu" "held v {c} w" "assoc_relay udp cx c addr w = (x, w')"
  shows "(\<exists>r. x = Ret (c, r) \<and> c \<noteq> r \<and> held v {c, r} w') \<or> (\<exists>e. x = Exc e \<and> held v {c} w')"
proof -
  obtain y w1 where d: "udp cx ''udp'' addr w = (y, w1)" by (cases "udp cx ''udp'' addr w")
  from held_dial [OF assms(1,2) d] show ?thesis
  proof (elim disjE exE conjE)
    fix r assume r: "y = Ret (Inr r)" "r \<notin> {c}" "held v (insert r {c}) w1"
    obtain e w2 where s: "w_set_deadline c None w1 = (e, w2)" by (cases "w_set_deadline c None w1")
    have t: "touched c w1 w2"
      using set_deadline_advance [OF _ s] held_mem [OF r(3), of c] by (simp add: advance_def)
    note h = held_touched [OF r(3) _ t]
    have "insert r {c} - {r} = {c}" using r(2) by auto
    with held_close [OF h, of r] have "held v {c} (w_close r w2)" by simp
    with d r s h assms(3) show ?thesis
      by (cases e) (auto simp: assoc_relay_def act_bind_def CloseOnThrow_def act_throw_def insert_commute)
  next
    fix e assume "y = Ret (Inl e)" "held v {c} w1"
    with d assms(3) show ?thesis by (auto simp: assoc_relay_def act_bind_def)
  qed
qed

lemma associate_held:
  assumes "connector_contract tcp et" "connector_contract udp eu" "world_ok w" "associate tcp udp proxy cx w = (x, w')"
  shows "(\<exists>c r. x = Ret (c, r) \<and> c \<noteq> r \<and> held w {c, r} w') \<or> (\<exists>e. x = Exc e \<and> held w {} w')"
proof -
  obtain y w1 where d: "tcp cx ''tcp'' (pa_Address proxy) w = (y, w1)" by (cases "tcp cx ''tcp'' (pa_Address proxy) w")
  from held_dial [OF assms(1) held_start [OF assms(3)] d] show ?thesis
  proof (elim disjE exE conjE)
    fix c assume c: "y = Ret (Inr c)" "held w {c} w1"
    obtain z w2 where e: "assoc_exchange proxy cx c w1 = (z, w2)" by (cases "assoc_exchange proxy cx c w1")
    from act_keepsD [OF keeps_assoc_exchange touched_refl e] held_mem [OF c(2), of c]
    have t: "touched c w1 w2" "\<forall>p. z \<noteq> Pan p" by auto
    note h = held_touched [OF c(2) _ t(1)]
    have run: "(x, w') = CloseOnThrow (w_close c) (act_bind (assoc_exchange proxy cx c) (assoc_relay udp cx c)) w1"
      using assms(4) d c(1) by (simp add: associate_eq act_bind_def)
    show ?thesis
    proof (cases z)
      case (Ret addr)
      obtain q w3 where r: "assoc_relay udp cx c addr w2 = (q, w3)" by (cases "assoc_relay udp cx c addr w2")
      from assoc_relay_held [OF assms(2) h r] held_close [of w "{c}" w3 c] run e Ret r show ?thesis
        by (auto simp: CloseOnThrow_def)
    next
      case (Exc er)
      with run e held_close [OF h, of c] show ?thesis by (auto simp: CloseOnThrow_def)
    qed (use t in blast)
  next
    fix e assume "y = Ret (Inl e)" "held w {} w1"
    with d assms(4) show ?thesis by (auto simp: associate_eq act_bind_def)
  qed
qed

section \<open>A slot that outlives its association\<close>

text \<open>
  \<open>blocked s src sl a\<close>: the slot of \<open>src\<close> is published and holds an association that is closed, and the source has no
  flows. Nothing removes such a slot: \<^verbatim>\<open>forget\<close> only runs when an association closes, and this one already has.
\<close>

definition blocked :: "ust \<Rightarrow> string \<Rightarrow> nat \<Rightarrow> nat \<Rightarrow> bool" where
  "blocked s src sl a \<longleftrightarrow> u_slots s src = Some sl \<and>
     (\<exists>x. u_slot s sl = Some x \<and> s_ready x \<and> s_exc x = None \<and> s_assoc x = Some a) \<and>
     (\<exists>as. u_assoc s a = Some as \<and> a_closed as) \<and>
     (\<forall>f fl as. u_flow s f = Some fl \<longrightarrow> u_assoc s (f_a fl) = Some as \<longrightarrow> a_src as \<noteq> src)"

lemma blocked_holds: "blocked s src sl a \<Longrightarrow> slot_holds s sl a"
  by (auto simp: blocked_def slot_holds_def)

lemma blocked_no_live:
  assumes "uinv s" "blocked s src sl a" "u_assoc s b = Some bs" "\<not> a_closed bs"
  shows "a_src bs \<noteq> src" "b \<noteq> a"
proof -
  show "b \<noteq> a" using assms by (auto simp: blocked_def)
  show "a_src bs \<noteq> src"
  proof
    assume "a_src bs = src"
    with uinvD(5) [OF assms(1,3,4)] assms(2) have "slot_holds s sl b \<or> (\<exists>t d. u_pc s t = Made d sl b)" by (auto simp: blocked_def)
    with blocked_holds [OF assms(2)] \<open>b \<noteq> a\<close> obtain t d where "u_pc s t = Made d sl b"
      by (auto simp: slot_holds_def split: option.splits)
    with uinvD(2) [OF assms(1)] pending_not_holds blocked_holds [OF assms(2)] show False by blast
  qed
qed

lemma blocked_cong:
  assumes "blocked s src sl a" "u_slots s' src = u_slots s src"
    "\<And>x. u_slot s sl = Some x \<Longrightarrow> s_assoc x = Some a \<Longrightarrow>
       \<exists>y. u_slot s' sl = Some y \<and> (s_ready x \<longrightarrow> s_ready y) \<and> s_exc y = s_exc x \<and> s_assoc y = s_assoc x"
    "\<And>b bs. u_assoc s b = Some bs \<Longrightarrow> \<exists>bs'. u_assoc s' b = Some bs' \<and> a_src bs' = a_src bs \<and> (a_closed bs \<longrightarrow> a_closed bs')"
    "\<And>f fl as. u_flow s' f = Some fl \<Longrightarrow> u_assoc s' (f_a fl) = Some as \<Longrightarrow>
       a_src as \<noteq> src \<or> (\<exists>fl0 as0. u_flow s f = Some fl0 \<and> f_a fl0 = f_a fl \<and> u_assoc s (f_a fl) = Some as0 \<and> a_src as0 = a_src as)"
  shows "blocked s' src sl a"
  unfolding blocked_def
proof (intro conjI allI impI)
  show "u_slots s' src = Some sl" using assms(1,2) by (simp add: blocked_def)
  from assms(1) obtain x where x: "u_slot s sl = Some x" "s_ready x" "s_exc x = None" "s_assoc x = Some a" by (auto simp: blocked_def)
  from assms(3) [OF x(1,4)] x show "\<exists>x. u_slot s' sl = Some x \<and> s_ready x \<and> s_exc x = None \<and> s_assoc x = Some a" by auto
  from assms(1) obtain as where as: "u_assoc s a = Some as" "a_closed as" by (auto simp: blocked_def)
  from assms(4) [OF as(1)] as(2) show "\<exists>as. u_assoc s' a = Some as \<and> a_closed as" by auto
  fix f fl as assume "u_flow s' f = Some fl" "u_assoc s' (f_a fl) = Some as"
  from assms(5) [OF this] assms(1) show "a_src as \<noteq> src" unfolding blocked_def by metis
qed

lemma blocked_retire:
  assumes "uinv s" "blocked s src sl a" "u_assoc s b = Some bs" "\<not> a_closed bs"
  shows "blocked (retire b bs fl s) src sl a"
proof -
  have ne: "a_src bs \<noteq> src" using blocked_no_live [OF assms] by simp
  have s: "u_slot (retire b bs fl s) = u_slot s" "u_flow (retire b bs fl s) = u_flow s"
    "u_assoc (retire b bs fl s) = (u_assoc s)(b \<mapsto> bs\<lparr>a_flows := fl, a_closed := True\<rparr>)"
    "u_slots (retire b bs fl s) src = u_slots s src"
    using ne by (simp_all add: retire_def forget_slots split: option.split)
  show ?thesis
    by (rule blocked_cong [OF assms(2)]) (use s assms(3) in \<open>auto split: if_splits\<close>)
qed

lemma blocked_flows:
  assumes "blocked s src sl a" "u_slots s' = u_slots s" "u_slot s' = u_slot s" "u_assoc s' = u_assoc s"
    "\<And>f fl. u_flow s' f = Some fl \<Longrightarrow> \<exists>fl0. u_flow s f = Some fl0 \<and> f_a fl0 = f_a fl"
  shows "blocked s' src sl a"
  by (rule blocked_cong [OF assms(1)]) (use assms in \<open>auto dest!: assms(5)\<close>)

lemma blocked_flow_upd:
  assumes "blocked s src sl a" "\<And>fl. f_a (g fl) = f_a fl"
  shows "blocked (s\<lparr>u_flow := (u_flow s)(f := map_option g (u_flow s f))\<rparr>) src sl a"
  using assms(2) by (intro blocked_flows [OF assms(1)]) (auto split: if_splits)

lemma blocked_todo [simp]: "blocked (s\<lparr>u_todo := td\<rparr>) src sl a = blocked s src sl a"
  by (simp add: blocked_def)

lemma blocked_shutdown:
  assumes "uinv s" "blocked s src sl a"
  shows "blocked (shutdown b s) src sl a"
proof (cases "\<exists>bs. u_assoc s b = Some bs \<and> \<not> a_closed bs")
  case True
  then obtain bs where bs: "u_assoc s b = Some bs" "\<not> a_closed bs" by blast
  with shutdown_retire [OF bs] blocked_retire [OF assms bs] show ?thesis by simp
qed (use assms in \<open>auto simp: shutdown_def split: option.splits if_splits\<close>)

lemma blocked_closeFlow:
  assumes "uinv s" "blocked s src sl a"
  shows "blocked (closeFlow f s) src sl a"
proof (cases "\<exists>fl as. u_flow s f = Some fl \<and> u_assoc s (f_a fl) = Some as")
  case True
  then obtain fl as where f: "u_flow s f = Some fl" "u_assoc s (f_a fl) = Some as" by blast
  show ?thesis
  proof (cases "remove_flow f (f_key fl) (a_flows as) = [] \<and> \<not> a_closed as")
    case True
    with closeFlow_retire [OF f] blocked_retire [OF assms f(2)] show ?thesis by simp
  next
    case False
    with closeFlow_stays [OF f] show ?thesis by (intro blocked_cong [OF assms(2)]) (use f(2) in \<open>auto split: if_splits\<close>)
  qed
qed (use assms in \<open>auto simp: closeFlow_def split: option.splits\<close>)

lemma blocked_closing:
  assumes "closing_step s s'" "blocked s src sl a"
  shows "blocked s' src sl a"
proof -
  note f = closing_step_frame [OF assms(1), unfolded closing_frame_def]
  have "\<exists>fl0. u_flow s g = Some fl0 \<and> f_a fl0 = f_a fl" if "u_flow s' g = Some fl" for g fl
    using flows_leD(2) [OF _ that, of s] f by (auto simp: flow_le_def)
  with f show ?thesis by (intro blocked_flows [OF assms(2)]) auto
qed

lemma blocked_pc [simp]: "blocked (goto t p s) src sl a = blocked s src sl a"
  by (simp add: blocked_def goto_def)

lemma blocked_readLoop: "blocked s src sl a \<Longrightarrow> blocked (readLoop_datagram b d s) src sl a"
  by (auto simp: readLoop_datagram_def flow_enqueue_def intro!: blocked_flow_upd split: res.split sum.split option.split)

lemma blocked_flow_end: "blocked s src sl a \<Longrightarrow> blocked (flow_end f s) src sl a"
  unfolding flow_end_def by (rule blocked_flow_upd) auto

lemma blocked_open:
  assumes "uinv s" "blocked s src sl a" "assoc_open b h p s = (r, s')"
  shows "blocked s' src sl a"
proof (cases "\<exists>bs. u_assoc s b = Some bs \<and> \<not> a_closed bs")
  case True
  then obtain bs where bs: "u_assoc s b = Some bs" "\<not> a_closed bs" by blast
  have "a_src bs \<noteq> src" using blocked_no_live [OF assms(1,2) bs] by simp
  with bs assms(3) show ?thesis
    by (intro blocked_cong [OF assms(2)]) (auto simp: assoc_open_def Let_def split: if_splits)
qed (use assms in \<open>auto simp: assoc_open_def split: option.splits if_splits\<close>)

lemma blocked_fresh:
  assumes "uinv s" "blocked s src sl a"
  shows "sl < u_next s" "\<And>f fl. u_flow s f = Some fl \<Longrightarrow> f < u_next s" "\<And>b bs. u_assoc s b = Some bs \<Longrightarrow> b < u_next s"
  using assms unfolding uinv_def fresh_ok_def blocked_def by (metis, metis not_le option.distinct(1), metis not_le option.distinct(1))

lemma blocked_lookup_miss:
  assumes "uinv s" "blocked s src sl a" "u_slots s src' = None" "new_slot src' s = (n, s')"
  shows "blocked s' src sl a"
  using assms(3,4) blocked_fresh(1) [OF assms(1,2)] assms(2)
  by (intro blocked_cong [OF assms(2)]) (auto simp: new_slot_def blocked_def)

lemma blocked_other_slot:
  assumes "uinv s" "blocked s src sl a" "creates s sl' t" "u_slot s sl' = Some x"
  shows "sl' \<noteq> sl" "\<And>d. u_pc s t = Associating d sl' \<Longrightarrow> d_src d \<noteq> src"
proof -
  from assms(3) uinvD(1,2) [OF assms(1)] obtain src' where "pending_slot s src' sl'" unfolding creates_def by blast
  with pending_not_holds blocked_holds [OF assms(2)] show ne: "sl' \<noteq> sl" by blast
  fix d assume "u_pc s t = Associating d sl'"
  with uinvD(1) [OF assms(1)] have "pending_slot s (d_src d) sl'" by blast
  with ne assms(2) show "d_src d \<noteq> src" by (auto simp: pending_slot_def blocked_def)
qed

lemma blocked_step:
  assumes "ustep s s'" "uinv s" "blocked s src sl a"
  shows "blocked s' src sl a"
  using assms
proof cases
  case (lookup_miss t d n s1)
  with blocked_lookup_miss assms show ?thesis by simp
next
  case (associate_fail t d n x e)
  then have "creates s n t" by (auto simp: creates_def)
  note ne = blocked_other_slot [OF assms(2,3) this associate_fail(3)]
  from ne(1) ne(2) [OF associate_fail(2)] show ?thesis
    unfolding associate_fail(1) blocked_pc
    by (intro blocked_cong [OF assms(3)]) (auto simp: set_slot_def)
next
  case (associate_ok t d n control relay b s1)
  note f = blocked_fresh(2,3) [OF assms(2,3)]
  have "u_flow s f = Some fl \<Longrightarrow> f_a fl \<noteq> u_next s \<or> d_src d \<noteq> src" for f fl
    using uinvD(1) [OF assms(2) associate_ok(2)] pending_not_holds blocked_holds [OF assms(3)] assms(3)
    by (auto simp: pending_slot_def blocked_def)
  moreover have "u_assoc s (u_next s) = None" using assms(2) by (simp add: uinv_def fresh_ok_def)
  ultimately show ?thesis using associate_ok f(2)
    by (auto simp: newUDPAssociation_def intro!: blocked_cong [OF assms(3)] split: if_splits)
next
  case (assign t d n b x)
  then have "creates s n t" by (auto simp: creates_def)
  note ne = blocked_other_slot(1) [OF assms(2,3) this assign(3)]
  then show ?thesis unfolding assign(1) blocked_pc by (intro blocked_cong [OF assms(3)]) (auto simp: set_slot_def)
next
  case (publish t d n x)
  then show ?thesis unfolding publish(1) blocked_pc
    by (intro blocked_cong [OF assms(3)]) (auto simp: set_slot_def)
next
  case (open_flow t d b f s1)
  with blocked_open [OF assms(2,3) open_flow(3)] show ?thesis by simp
next
  case (open_closed t d b s1)
  with blocked_open [OF assms(2,3) open_closed(3)] show ?thesis by simp
next
  case (relay_data b p)
  with blocked_readLoop [OF assms(3)] show ?thesis by simp
next
  case (relay_fail b)
  with blocked_shutdown [OF assms(2,3)] show ?thesis by simp
next
  case closing
  with blocked_closing assms(3) show ?thesis by blast
next
  case (flow_done f)
  with blocked_flow_end [OF assms(3)] show ?thesis by simp
next
  case (close_flow f fl)
  with blocked_closeFlow [OF assms(2,3)] show ?thesis by simp
qed (use assms(3) in simp_all)

lemma blocked_reach:
  assumes "reach s s'" "uinv s" "blocked s src sl a"
  shows "blocked s' src sl a \<and> uinv s'"
  using assms by induction (auto intro: blocked_step uinv_step)

section \<open>Keys\<close>

text \<open>The key of a flow is that of its destination, in the spelling replies are looked up by.\<close>

definition keys_ok :: "ust \<Rightarrow> bool" where
  "keys_ok s \<longleftrightarrow> (\<forall>f fl. u_flow s f = Some fl \<longrightarrow> f_key fl = udpFlowKey (f_host fl) (f_port fl))"

lemma keys_ok_upd:
  assumes "keys_ok s" "\<And>f fl. u_flow s' f = Some fl \<Longrightarrow>
    \<exists>fl0. u_flow s f = Some fl0 \<and> f_key fl0 = f_key fl \<and> f_host fl0 = f_host fl \<and> f_port fl0 = f_port fl"
  shows "keys_ok s'"
  using assms unfolding keys_ok_def by metis

lemma u_flow_closeFlow [simp]: "u_flow (closeFlow f s) = u_flow s"
  by (auto simp: closeFlow_def Let_def split: option.split)

lemma keys_ok_step: "ustep s s' \<Longrightarrow> keys_ok s \<Longrightarrow> keys_ok s'"
proof (induction rule: ustep.induct)
  case (open_flow s t d a f s1)
  then show ?case
    by (auto simp: keys_ok_def assoc_open_def goto_def Let_def split: option.splits if_splits)
next
  case (open_closed s t d a s1)
  then show ?case
    by (auto simp: keys_ok_def assoc_open_def goto_def Let_def split: option.splits if_splits)
next
  case (relay_data s a b)
  then show ?case
    by (elim keys_ok_upd) (auto simp: readLoop_datagram_def flow_enqueue_def split: res.splits sum.splits option.splits if_splits)
next
  case (relay_fail s a)
  then show ?case
    by (elim keys_ok_upd) (auto simp: shutdown_def Let_def split: option.splits if_splits)
next
  case (closing s s')
  then show ?case
    by induction (auto simp: keys_ok_def flow_end_flow)
next
  case (flow_done s f)
  then show ?case by (auto simp: keys_ok_def flow_end_flow)
next
  case (close_flow s f fl)
  then show ?case by (simp add: keys_ok_def)
qed (auto simp: keys_ok_def goto_def set_slot_def new_slot_def newUDPAssociation_def)

lemma keys_ok_reach: "reach ust_init s \<Longrightarrow> keys_ok s"
  by (induction rule: reach.induct) (auto simp: keys_ok_step, simp add: keys_ok_def ust_init_def)

lemma udpFlowKey_same:
  assumes "ParseIP h = ParseIP h'" "ParseIP h' \<noteq> [] \<or> h = h'"
  shows "udpFlowKey h p = udpFlowKey h' p"
  using assms by (auto simp: udpFlowKey_def)

lemma udpFlowKey_canonical: "ParseIP h \<noteq> [] \<Longrightarrow> udpFlowKey (ip_string (ParseIP h)) p = udpFlowKey h p"
  by (rule udpFlowKey_same) (simp_all add: ip_string_ParseIP_idem)

lemma Try_Inr: "Try x = Ret (Inr v) \<longleftrightarrow> x = Ret v"
  by (cases x) (auto simp: Try_def)

lemma readLoop_delivers:
  assumes "socks5ParseUDPDatagram b = Ret (host, port, payload)" "u_assoc s a = Some as"
    "map_of (a_flows as) (udpFlowKey host port) = Some f"
  shows "readLoop_datagram a b s = s\<lparr>u_flow := (u_flow s)(f := map_option (flow_enqueue payload) (u_flow s f))\<rparr>"
  using assms by (simp add: readLoop_datagram_def Try_def)

section \<open>Properties\<close>

text \<open>
  C7: Flows of one source endpoint share one association: in no reachable interleaving are two associations of the
  same source open at once, and every open one is in the connector's table under its source, or is held by the
  goroutine that is about to store it there.
\<close>

theorem one_association_per_source:
  assumes "reach ust_init s" and "u_assoc s a = Some as" and "\<not> a_closed as"
  shows "(\<forall>b bs. u_assoc s b = Some bs \<and> \<not> a_closed bs \<and> a_src bs = a_src as \<longrightarrow> b = a) \<and>
    (\<exists>sl. u_slots s (a_src as) = Some sl \<and> (slot_holds s sl a \<or> (\<exists>t d. u_pc s t = Made d sl a)))"
  using uinv_unique [OF uinv_reach [OF assms(1)]] uinvD(5) [OF uinv_reach [OF assms(1)] assms(2,3)] assms(2,3) by metis

text \<open>\<^verbatim>\<open>Close\<close> of a flow, as the steps of its owner.\<close>

lemma flow_Close_steps: "u_flow s f = Some fl \<Longrightarrow> reach s (flow_Close f s)"
  unfolding flow_Close_def
  by (rule reach_step [OF reach_step [OF reach_refl ustep.flow_done]], rule ustep.close_flow [of _ _ "fl\<lparr>f_done := True\<rparr>"])
    (auto simp: flow_end_def)

lemma closed_association:
  assumes "reach ust_init s" and "u_assoc s a = Some as" and "a_closed as"
  shows "a_flows as = []" "conn_ended s (a_relay as)" "conn_ended s (a_control as)"
    "u_flow s f = Some fl \<Longrightarrow> f_a fl = a \<Longrightarrow> f_done fl \<or> waking s f \<or> superseded s f fl"
proof -
  have inv: "flows_ok s a as" "\<And>f fl. u_flow s f = Some fl \<Longrightarrow> flow_ok s f fl"
    using finv_reach [OF assms(1)] assms(2) by (simp_all add: finv_def)
  with assms(3) show "a_flows as = []" "conn_ended s (a_relay as)" "conn_ended s (a_control as)" by (simp_all add: flows_ok_def)
  then have "\<not> registered s f fl" if "f_a fl = a" using assms(2) that by (auto simp: registered_def)
  with inv(2) [of f fl] show "u_flow s f = Some fl \<Longrightarrow> f_a fl = a \<Longrightarrow> f_done fl \<or> waking s f \<or> superseded s f fl"
    by (auto simp: flow_ok_def)
qed

lemma closed_association_drains:
  assumes "reach ust_init s" "u_assoc s a = Some as" "a_closed as" "closing_step\<^sup>*\<^sup>* s t" "pending_closes t = 0"
  shows "{a_relay as, a_control as} \<subseteq> set (u_shut t)"
    "u_flow s f = Some fl \<Longrightarrow> f_a fl = a \<Longrightarrow> \<not> superseded s f fl \<Longrightarrow> \<exists>fl'. u_flow t f = Some fl' \<and> f_done fl'"
proof -
  note t = closing_run_frame [OF assms(4)] and r = closing_run_reach [OF assms(4,1)]
  have as: "u_assoc t a = Some as" using t assms(2) by simp
  note c = closed_association [OF r as assms(3)] and n = no_pending_closes [OF assms(5)]
  show "{a_relay as, a_control as} \<subseteq> set (u_shut t)" using c(2,3) n by (auto simp: conn_ended_def)
  assume f: "u_flow s f = Some fl" "f_a fl = a" "\<not> superseded s f fl"
  from flows_leD(1) [OF _ f(1)] t obtain fl' where fl': "u_flow t f = Some fl'" "flow_le fl fl'" by blast
  moreover have "\<not> superseded t f fl'" using superseded_back [of s t fl fl' f] t fl'(2) f(3) by blast
  ultimately show "\<exists>fl'. u_flow t f = Some fl' \<and> f_done fl'" using c(4) [of f fl'] n f(2) by (auto simp: flow_le_def)
qed

text \<open>
  C8: What a closed association has done, and has left to do. However the goroutines interleave, once an association
  is marked closed its table is empty and it opens no flow any more; its relay and control connections are closed, or a
  goroutine that has released the mutex has yet to close them; and every flow opened on it has ended, or such a
  goroutine has yet to wake it, except a flow that a later flow to the same destination had replaced in the table,
  which nobody wakes. The closes left over need nothing but to be run: each one that runs leaves fewer, and after them
  both connections are closed and every flow that was not replaced has ended.
\<close>

theorem closed_association_ends_its_flows:
  assumes "reach ust_init s" and "u_assoc s a = Some as" and "a_closed as"
  shows "a_flows as = [] \<and> (\<forall>host port. assoc_open a host port s = (None, s)) \<and>
    (\<forall>c \<in> {a_relay as, a_control as}. c \<in> set (u_shut s) \<or> closing_conn s c) \<and>
    (\<forall>f fl. u_flow s f = Some fl \<and> f_a fl = a \<and> \<not> superseded s f fl \<longrightarrow> f_done fl \<or> waking s f) \<and>
    (\<forall>t. closing_step s t \<longrightarrow> pending_closes t < pending_closes s) \<and>
    (\<exists>t. closing_step\<^sup>*\<^sup>* s t \<and> pending_closes t = 0) \<and>
    (\<forall>t. closing_step\<^sup>*\<^sup>* s t \<and> pending_closes t = 0 \<longrightarrow> {a_relay as, a_control as} \<subseteq> set (u_shut t) \<and>
      (\<forall>f fl. u_flow s f = Some fl \<and> f_a fl = a \<and> \<not> superseded s f fl \<longrightarrow> (\<exists>fl'. u_flow t f = Some fl' \<and> f_done fl')))"
proof -
  note c = closed_association [OF assms] and d = closed_association_drains [OF assms]
  have "\<forall>host port. assoc_open a host port s = (None, s)" using assms(2,3) by (simp add: assoc_open_def)
  moreover have "\<forall>c \<in> {a_relay as, a_control as}. c \<in> set (u_shut s) \<or> closing_conn s c"
    using c(2,3) by (auto simp: conn_ended_def)
  moreover have "\<forall>f fl. u_flow s f = Some fl \<and> f_a fl = a \<and> \<not> superseded s f fl \<longrightarrow> f_done fl \<or> waking s f"
    using c(4) by blast
  ultimately show ?thesis using c(1) closing_step_less closing_drains d by blast
qed

text \<open>
  C9: Demultiplexing is exact: a datagram from the relay changes at most one flow, which belongs to the association
  that read it and whose destination has the key of the address in the datagram's header; what it gets is the payload,
  at the end of its queue, and only while the queue has room. No queue ever holds more than 1024 datagrams.
\<close>

theorem udp_demux:
  assumes "reach ust_init s" and "u_flow s f = Some fl" and "u_flow (readLoop_datagram a b s) f \<noteq> Some fl"
  shows "\<exists>host port payload. socks5ParseUDPDatagram b = Ret (host, port, payload) \<and> f_a fl = a \<and>
    udpFlowKey (f_host fl) (f_port fl) = udpFlowKey host port \<and> length (f_in fl) < 1024 \<and>
    readLoop_datagram a b s = s\<lparr>u_flow := (u_flow s)(f \<mapsto> fl\<lparr>f_in := f_in fl @ [payload]\<rparr>)\<rparr>"
proof -
  from assms(2,3) obtain host port payload as where
    d: "socks5ParseUDPDatagram b = Ret (host, port, payload)" "u_assoc s a = Some as"
      "map_of (a_flows as) (udpFlowKey host port) = Some f" "length (f_in fl) < udpFlowQueue"
    by (auto simp: readLoop_datagram_def Try_Inr flow_enqueue_def split: res.splits sum.splits option.splits if_splits)
  with finv_reach [OF assms(1)] assms(2) have "f_a fl = a" "f_key fl = udpFlowKey host port"
    by (fastforce simp: finv_def flows_ok_def)+
  with d readLoop_delivers [OF d(1-3)] assms(2) keys_ok_reach [OF assms(1)] show ?thesis
    by (auto simp: keys_ok_def udpFlowQueue_def flow_enqueue_def)
qed

text \<open>
  C34: A reply reaches its flow: for a flow that has not ended or been replaced, and that no goroutine of a closed
  association is about to wake, a datagram whose header names the flow's destination and port, in whatever spelling of the IP address (four bytes, the IPv4-mapped sixteen bytes, or a
  name that reads as the same address), is put on its queue, and the next \<^verbatim>\<open>Read\<close> of a flow that has no other
  datagrams can return its bytes, cut to the buffer. Only a full queue drops it.
\<close>

theorem udp_reply_reaches_its_flow:
  assumes "reach ust_init s" and "u_flow s f = Some fl" and "\<not> f_done fl" and "\<not> superseded s f fl" and "\<not> waking s f"
    and "saddr_ok ad" and "ParseIP (saddr_host ad) = ParseIP (f_host fl)"
    and "ParseIP (f_host fl) \<noteq> [] \<or> saddr_host ad = f_host fl" and "length (f_in fl) < udpFlowQueue"
  shows "\<exists>fl'. u_flow (readLoop_datagram (f_a fl) ([r1, r2, 0] @ saddr_bytes ad @ be16 (f_port fl) @ payload) s) f = Some fl' \<and>
    f_in fl' = f_in fl @ [payload] \<and>
    (f_in fl = [] \<longrightarrow> (Inr (take n payload), fl) \<in> set (flow_Read n now fl'))"
proof -
  from finv_reach [OF assms(1)] assms(2-5) have "registered s f fl" by (auto simp: finv_def flow_ok_def)
  then obtain as where as: "u_assoc s (f_a fl) = Some as" "map_of (a_flows as) (f_key fl) = Some f"
    by (auto simp: registered_def)
  moreover have "f_key fl = udpFlowKey (saddr_host ad) (f_port fl)"
    using keys_ok_reach [OF assms(1)] assms(2) udpFlowKey_same [OF assms(7,8)] by (simp add: keys_ok_def)
  ultimately have "u_flow (readLoop_datagram (f_a fl) ([r1, r2, 0] @ saddr_bytes ad @ be16 (f_port fl) @ payload) s) f
      = Some (fl\<lparr>f_in := f_in fl @ [payload]\<rparr>)"
    using readLoop_delivers [OF parse_udp_datagram [OF assms(6)] as(1)] assms(2,9) by (simp add: flow_enqueue_def)
  then show ?thesis by (auto simp: flow_Read_def intro!: exI [of _ "fl\<lparr>f_in := f_in fl @ [payload]\<rparr>"])
qed

text \<open>
  C35: Setting up an association leaks nothing: whatever TCP chain its control connection goes through, and with any UDP
  connector that keeps a connector's contract (as the direct one does), \<^verbatim>\<open>associate\<close> either returns a control and a relay connection that are the only ones it left open, or throws with every
  connection it made closed; it never panics, and the connections from before are untouched.
\<close>

theorem associate_leaves_nothing_behind:
  assumes "buildProxyChain env hops = Ret (tcp, u)" and "connector_contract udp entry" and "world_ok w"
    and "associate tcp udp proxy cx w = (x, w')"
  shows "world_ok w' \<and> old_kept w w' \<and>
    (case x of Ret (control, relay) \<Rightarrow> control \<noteq> relay \<and> new_open w w' = {control, relay}
     | Exc e \<Rightarrow> new_open w w' = {} | Pan p \<Rightarrow> False)"
proof -
  have "tcp = through env hops" using assms(1) by (simp add: buildProxyChain_eq)
  with associate_held [OF chain.connector_contract_axioms [of env hops] assms(2,3)] assms(4)
  have "(\<exists>c r. x = Ret (c, r) \<and> c \<noteq> r \<and> held w {c, r} w') \<or> (\<exists>e. x = Exc e \<and> held w {} w')" by simp
  then show ?thesis by (auto simp: held_def)
qed

text \<open>
  The shortest run in which the relay fails before the goroutine that set the association up stores it in its slot:
  the six states of a dial of \<open>d\<close> by goroutine 0, with \<open>fails\<close> telling whether the relay fails in between.
\<close>

definition run_made :: "udp_dial \<Rightarrow> ust" where
  "run_made d = goto 0 (Made d 0 1) (snd (newUDPAssociation 0 1 (d_src d)
     (goto 0 (Associating d 0) (snd (new_slot (d_src d) (goto 0 (Looking d) ust_init))))))"

definition run_published :: "udp_dial \<Rightarrow> bool \<Rightarrow> ust" where
  "run_published d fails =
     (let s = (if fails then shutdown 1 (run_made d) else run_made d);
          x = \<lparr>s_ready = False, s_assoc = Some 1, s_exc = None\<rparr>
      in goto 0 (Opening d 1) (set_slot 0 (x\<lparr>s_ready := True\<rparr>) (goto 0 (Publishing d 0) (set_slot 0 x s))))"

lemma run_made_simps:
  "u_pc (run_made d) 0 = Made d 0 1" "u_slots (run_made d) = [d_src d \<mapsto> 0]"
  "u_slot (run_made d) = [0 \<mapsto> \<lparr>s_ready = False, s_assoc = None, s_exc = None\<rparr>]"
  "u_assoc (run_made d) = [1 \<mapsto> \<lparr>a_control = 0, a_relay = 1, a_src = d_src d, a_flows = [], a_closed = False\<rparr>]"
  "u_flow (run_made d) = Map.empty" "u_next (run_made d) = 2" "u_todo (run_made d) = []"
  by (simp_all add: run_made_def goto_def newUDPAssociation_def new_slot_def ust_init_def)

lemma run_made_reach: "reach ust_init (run_made d)"
proof -
  let ?s1 = "goto 0 (Looking d) ust_init"
  let ?s2 = "goto 0 (Associating d 0) (snd (new_slot (d_src d) ?s1))"
  have "reach ust_init ?s1" by (rule reach_step [OF reach_refl ustep.dial_start]) (simp add: ust_init_def)
  moreover have "ustep ?s1 ?s2" by (rule ustep.lookup_miss) (auto simp: goto_def ust_init_def new_slot_def)
  moreover have "ustep ?s2 (run_made d)" unfolding run_made_def
    by (rule ustep.associate_ok [where control = 0 and relay = 1]) (auto simp: goto_def ust_init_def new_slot_def newUDPAssociation_def)
  ultimately show ?thesis by (meson reach_step)
qed

lemma shutdown_run_made:
  "u_pc (shutdown 1 (run_made d)) = u_pc (run_made d)" "u_slot (shutdown 1 (run_made d)) = u_slot (run_made d)"
  "u_slots (shutdown 1 (run_made d)) = u_slots (run_made d)" "u_flow (shutdown 1 (run_made d)) = Map.empty"
  "u_assoc (shutdown 1 (run_made d)) = [1 \<mapsto> \<lparr>a_control = 0, a_relay = 1, a_src = d_src d, a_flows = [], a_closed = True\<rparr>]"
  by (simp_all add: shutdown_def run_made_simps forget_def slot_holds_def fun_eq_iff)

lemma run_published_reach: "reach ust_init (run_published d fails)"
proof -
  let ?s = "if fails then shutdown 1 (run_made d) else run_made d"
  let ?x = "\<lparr>s_ready = False, s_assoc = Some 1, s_exc = None\<rparr>"
  let ?p = "goto 0 (Publishing d 0) (set_slot 0 ?x ?s)"
  have "reach ust_init ?s"
    using run_made_reach [of d] reach_step [OF run_made_reach ustep.relay_fail] by (cases fails) simp_all
  moreover have "ustep ?s ?p"
    using ustep.assign [of ?s 0 d 0 1 "\<lparr>s_ready = False, s_assoc = None, s_exc = None\<rparr>"]
    by (cases fails) (simp_all add: run_made_simps shutdown_run_made del: One_nat_def)
  moreover have "ustep ?p (run_published d fails)"
    using ustep.publish [of ?p 0 d 0 ?x] by (simp add: run_published_def Let_def slot_result_def goto_def set_slot_def)
  ultimately show ?thesis by (meson reach_step)
qed

lemma run_published_blocked: "blocked (run_published d True) (d_src d) 0 1"
  by (simp add: blocked_def run_published_def Let_def goto_def set_slot_def run_made_simps shutdown_run_made del: One_nat_def)

text \<open>
  C40: A source can lose UDP for good. If the relay fails after \<^verbatim>\<open>newUDPAssociation\<close> started its read loop and before its
  result is stored in the slot, \<^verbatim>\<open>forget\<close> does not find the association there; the slot then stays in the table with a
  closed association, and in every run from that state no dial of that source ever returns a flow: it loops
  until its context ends.
\<close>

theorem stale_association_blocks_source:
  "\<exists>s a as. reach ust_init s \<and> u_assoc s a = Some as \<and> a_src as = src \<and> a_closed as \<and>
    (\<forall>s'. reach s s' \<longrightarrow> (\<exists>sl. u_slots s' src = Some sl \<and> slot_holds s' sl a) \<and>
      (\<forall>f fl as. u_flow s' f = Some fl \<longrightarrow> u_assoc s' (f_a fl) = Some as \<longrightarrow> a_src as \<noteq> src))"
proof -
  let ?d = "\<lparr>d_src = src, d_host = ''192.0.2.7'', d_port = 443\<rparr>" and ?as = "\<lparr>a_control = 0, a_relay = 1, a_src = src, a_flows = [], a_closed = True\<rparr>"
  let ?s = "run_published ?d True"
  have r: "reach ust_init ?s" by (rule run_published_reach)
  have b: "blocked s' src 0 1" if "reach ?s s'" for s'
    using blocked_reach [OF that uinv_reach [OF r] run_published_blocked] by simp
  have "u_assoc ?s 1 = Some ?as"
    by (simp add: run_published_def Let_def goto_def set_slot_def shutdown_run_made del: One_nat_def)
  moreover have "(\<exists>sl. u_slots s' src = Some sl \<and> slot_holds s' sl 1) \<and>
      (\<forall>f fl as. u_flow s' f = Some fl \<longrightarrow> u_assoc s' (f_a fl) = Some as \<longrightarrow> a_src as \<noteq> src)" if "reach ?s s'" for s'
    using b [OF that] blocked_holds [OF b [OF that]] unfolding blocked_def by blast
  ultimately show ?thesis
    using r by (intro exI [of _ ?s] exI [of _ 1] exI [of _ ?as]) simp
qed

text \<open>Witnesses, on a dial of 192.0.2.7:443 from 10.1.1.1:5000.\<close>

definition demo_dial_udp :: udp_dial where
  "demo_dial_udp = \<lparr>d_src = ''10.1.1.1:5000'', d_host = ''192.0.2.7'', d_port = 443\<rparr>"

definition demo_flow :: udpFlow where
  "demo_flow = \<lparr>f_a = 1, f_key = udpFlowKey ''192.0.2.7'' 443, f_host = ''192.0.2.7'', f_port = 443, f_in = [], f_done = False,
     f_deadline = None\<rparr>"

definition run_opened :: ust where
  "run_opened = goto 0 (Returned 2) (snd (assoc_open 1 ''192.0.2.7'' 443 (run_published demo_dial_udp False)))"

lemma run_opened_reach: "reach ust_init run_opened"
  unfolding run_opened_def
  by (rule reach_step [OF run_published_reach [of demo_dial_udp False]], rule ustep.open_flow [where d = demo_dial_udp and a = 1])
    (simp_all add: run_published_def Let_def goto_def set_slot_def assoc_open_def run_made_simps demo_dial_udp_def)

lemma run_opened_simps:
  "u_todo run_opened = []"
  "u_flow run_opened = [2 \<mapsto> demo_flow]"
  "u_assoc run_opened = [1 \<mapsto> \<lparr>a_control = 0, a_relay = 1, a_src = ''10.1.1.1:5000'',
     a_flows = [(udpFlowKey ''192.0.2.7'' 443, 2)], a_closed = False\<rparr>]"
  by (simp_all add: run_opened_def run_published_def Let_def goto_def set_slot_def assoc_open_def run_made_simps
      demo_dial_udp_def demo_flow_def)

theorem one_association_per_source_witness:
  "\<exists>sl. u_slots run_opened ''10.1.1.1:5000'' = Some sl \<and>
    (slot_holds run_opened sl 1 \<or> (\<exists>t d. u_pc run_opened t = Made d sl 1))"
  using one_association_per_source [OF run_opened_reach, of 1] by (simp add: run_opened_simps)

theorem closed_association_ends_its_flows_witness:
  "\<exists>s t. reach ust_init s \<and> waking s 2 \<and> closing_step\<^sup>*\<^sup>* s t \<and> {0, 1} \<subseteq> set (u_shut t) \<and>
    (\<exists>fl'. u_flow t 2 = Some fl' \<and> f_done fl')"
proof -
  let ?s = "shutdown 1 run_opened"
  let ?as = "\<lparr>a_control = 0, a_relay = 1, a_src = ''10.1.1.1:5000'', a_flows = [], a_closed = True\<rparr>"
  have r: "reach ust_init ?s" by (rule reach_step [OF run_opened_reach ustep.relay_fail])
  have a: "u_assoc ?s 1 = Some ?as" "u_flow ?s 2 = Some demo_flow" "waking ?s 2" "\<not> superseded ?s 2 demo_flow" "f_a demo_flow = 1"
    by (simp_all add: shutdown_def run_opened_simps waking_def superseded_def demo_flow_def)
  have "a_closed ?as" by simp
  note c = closed_association_ends_its_flows [OF r a(1) this]
  then obtain t where t: "closing_step\<^sup>*\<^sup>* ?s t" "pending_closes t = 0" by (elim conjE exE)
  from c t have d: "{a_relay ?as, a_control ?as} \<subseteq> set (u_shut t)"
    "\<forall>f fl. u_flow ?s f = Some fl \<and> f_a fl = 1 \<and> \<not> superseded ?s f fl \<longrightarrow> (\<exists>fl'. u_flow t f = Some fl' \<and> f_done fl')"
    by metis+
  from d(2) a(2,4,5) have e: "\<exists>fl'. u_flow t 2 = Some fl' \<and> f_done fl'" by metis
  have "{0, 1} \<subseteq> set (u_shut t)" using d(1) by (simp add: insert_commute)
  with r a(3) t(1) e show ?thesis by (intro exI [of _ ?s] exI [of _ t] conjI)
qed

lemma demo_datagram:
  "socks5ParseUDPDatagram ([0, 0, 0] @ [1, 192, 0, 2, 7] @ be16 443 @ [104, 105]) = Ret (''192.0.2.7'', 443, [104, 105])"
  by code_simp

lemma demo_delivery:
  "u_flow (readLoop_datagram 1 ([0, 0, 0] @ [1, 192, 0, 2, 7] @ be16 443 @ [104, 105]) run_opened) 2
     = Some (demo_flow\<lparr>f_in := [[104, 105]]\<rparr>)"
  using readLoop_delivers [OF demo_datagram, of run_opened 1] by (simp add: run_opened_simps flow_enqueue_def udpFlowQueue_def demo_flow_def)

theorem udp_demux_witness:
  "\<exists>host port payload. socks5ParseUDPDatagram ([0, 0, 0] @ [1, 192, 0, 2, 7] @ be16 443 @ [104, 105]) = Ret (host, port, payload) \<and>
    udpFlowKey ''192.0.2.7'' 443 = udpFlowKey host port"
  using udp_demux [OF run_opened_reach, of 2 demo_flow 1 "[0, 0, 0] @ [1, 192, 0, 2, 7] @ be16 443 @ [104, 105]"] demo_delivery
  by (auto simp: run_opened_simps demo_flow_def)

theorem udp_reply_reaches_its_flow_witness:
  "\<exists>fl'. u_flow (readLoop_datagram 1 ([0, 0, 0] @ saddr_bytes (literal_addr ''::ffff:192.0.2.7'') @ be16 443 @ [104, 105])
      run_opened) 2 = Some fl' \<and> f_in fl' = [[104, 105]] \<and> (Inr [104, 105], demo_flow) \<in> set (flow_Read 1500 0 fl')"
proof -
  have p: "ParseIP ''::ffff:192.0.2.7'' \<noteq> []" by code_simp
  have h: "ParseIP (saddr_host (literal_addr ''::ffff:192.0.2.7'')) = ParseIP (f_host demo_flow)"
    unfolding demo_flow_def by code_simp
  have "u_flow run_opened 2 = Some demo_flow" "\<not> f_done demo_flow" "\<not> superseded run_opened 2 demo_flow" "\<not> waking run_opened 2"
    "ParseIP (f_host demo_flow) \<noteq> [] \<or> saddr_host (literal_addr ''::ffff:192.0.2.7'') = f_host demo_flow"
    "length (f_in demo_flow) < udpFlowQueue"
    using p h saddr_host_literal [OF p] ip_string_ParseIP_idem [OF p]
    by (auto simp: run_opened_simps superseded_def waking_def udpFlowQueue_def demo_flow_def)
  from udp_reply_reaches_its_flow [OF run_opened_reach this(1-4) literal_addr_ok [OF p] h this(5,6), where ?r1.0 = 0 and ?r2.0 = 0
      and payload = "[104, 105]" and n = 1500 and now = 0]
  show ?thesis by (simp add: demo_flow_def)
qed

theorem associate_leaves_nothing_behind_witness:
  "\<exists>tcp u x w'. buildProxyChain demo_net [] = Ret (tcp, u) \<and>
    associate tcp (NewDirectConnector demo_net) demo_proxy demo_ctx demo_world = (x, w') \<and> world_ok w'"
proof -
  obtain tcp u where c: "buildProxyChain demo_net [] = Ret (tcp, u)" by (simp add: buildProxyChain_eq)
  obtain x w' where d: "associate tcp (NewDirectConnector demo_net) demo_proxy demo_ctx demo_world = (x, w')"
    by (cases "associate tcp (NewDirectConnector demo_net) demo_proxy demo_ctx demo_world")
  from associate_leaves_nothing_behind [OF c direct.connector_contract_axioms demo_world_ok d] c d show ?thesis by blast
qed

theorem stale_association_blocks_source_witness:
  "\<exists>s. reach ust_init s \<and> (\<forall>s'. reach s s' \<longrightarrow> (\<exists>sl. u_slots s' ''10.1.1.1:5000'' = Some sl))"
  using stale_association_blocks_source [of "''10.1.1.1:5000''"] by blast

end
