(* ===== verification/Resolver.thy ===== *)
theory Resolver
  imports ConnIO
begin

text \<open>
  \<^verbatim>\<open>src/resolver.go\<close>: the local DNS resolver. The DNS message codec is the third-party package \<^verbatim>\<open>dnsmessage\<close>; its
  parser and builder are the fields of \<open>dnslib\<close>, an argument of every definition that calls them. Upstream servers are reached
  through the world of \<open>ConnIO\<close>, with \<open>now\<close> the reading of the clock when a timeout is set.
\<close>

section \<open>The -D list\<close>

definition dnsUpstreamTimeout :: nat where
  "dnsUpstreamTimeout = 5"

definition dnsBufferSize :: nat where
  "dnsBufferSize = 4096"

definition dnsStreamIdleTimeout :: nat where
  "dnsStreamIdleTimeout = 10"

definition parseUpstreamDNS :: "string \<Rightarrow> string res" where
  "parseUpstreamDNS s =
     (if s = '''' then ThrowFmt ''empty -D dns address'' []
      else case SplitHostPort s of
          Inr _ \<Rightarrow> Ret s
        | Inl _ \<Rightarrow> if ParseIP s \<noteq> [] then Ret (JoinHostPort s ''53'') else ThrowFmt ''invalid -D dns address %q'' [s])"

fun parseUpstreamDNSList :: "string list \<Rightarrow> string list res" where
  "parseUpstreamDNSList [] = Ret []"
| "parseUpstreamDNSList (s # list) =
     res_bind (parseUpstreamDNS s) (\<lambda>a. res_bind (parseUpstreamDNSList list) (\<lambda>as. Ret (a # as)))"

section \<open>Messages\<close>

text \<open>The parts of the package's header, question and resource types that the code sets or reads.\<close>

record dns_header =
  h_ID :: u16
  h_Response :: bool
  h_OpCode :: u16
  h_Truncated :: bool
  h_RecursionDesired :: bool
  h_RecursionAvailable :: bool
  h_RCode :: u16

record dns_question =
  q_Name :: bytes
  q_Type :: u16
  q_Class :: u16

datatype rr_body = AAAAResource bytes | OtherResource

record ('p, 'b) dnslib =
  p_Start :: "bytes \<Rightarrow> err + dns_header \<times> 'p"
  p_Question :: "'p \<Rightarrow> err + dns_question \<times> 'p"
  p_SkipAllQuestions :: "'p \<Rightarrow> err + 'p"
  p_Answer :: "'p \<Rightarrow> err + rr_body \<times> 'p"
  b_New :: "dns_header \<Rightarrow> 'b"
  b_StartQuestions :: "'b \<Rightarrow> err + 'b"
  b_Question :: "dns_question \<Rightarrow> 'b \<Rightarrow> err + 'b"
  b_Finish :: "'b \<Rightarrow> err + bytes"

definition TypeAAAA :: u16 where
  "TypeAAAA = 28"

definition RCodeSuccess :: u16 where
  "RCodeSuccess = 0"

definition emptyResponse :: "('p, 'b) dnslib \<Rightarrow> dns_header \<Rightarrow> dns_question \<Rightarrow> bytes res" where
  "emptyResponse lib query question =
     (let header = \<lparr>h_ID = h_ID query, h_Response = True, h_OpCode = h_OpCode query, h_Truncated = False,
            h_RecursionDesired = h_RecursionDesired query, h_RecursionAvailable = True, h_RCode = RCodeSuccess\<rparr>
      in res_bind (Throw2 (b_StartQuestions lib (b_New lib header))) (\<lambda>b.
         res_bind (Throw2 (b_Question lib question b)) (\<lambda>b.
         Throw2 (b_Finish lib b))))"

definition isTruncated :: "('p, 'b) dnslib \<Rightarrow> bytes \<Rightarrow> bool" where
  "isTruncated lib resp = (case p_Start lib resp of Inl _ \<Rightarrow> False | Inr (header, _) \<Rightarrow> h_Truncated header)"

text \<open>
  The policy on AAAA answers. The array in an AAAA resource has 16 bytes, so cutting the last four out of it cannot panic. The loop over
  the answers ends when the parser reports an error, its end-of-section marker included; \<open>None\<close> is a parser that never does.
\<close>

record dnsPolicy =
  pol_ipv6 :: bool
  pol_allow :: "ipnet list"
  pol_nat64 :: "ipnet option"

definition aaaa_ip :: "ipnet option \<Rightarrow> bytes \<Rightarrow> bytes" where
  "aaaa_ip nat64 ip = (case nat64 of None \<Rightarrow> ip | Some p \<Rightarrow> if Contains p ip then take 4 (drop 12 ip) else ip)"

definition aaaa_allowed :: "dnsPolicy \<Rightarrow> bytes \<Rightarrow> bool" where
  "aaaa_allowed pol ip = list_ex (\<lambda>n. Contains n (aaaa_ip (pol_nat64 pol) ip)) (pol_allow pol)"

partial_function (option) answers_allowed :: "('p, 'b) dnslib \<Rightarrow> dnsPolicy \<Rightarrow> 'p \<Rightarrow> bool option" where
  "answers_allowed lib pol parser =
     (case p_Answer lib parser of
        Inl _ \<Rightarrow> Some False
      | Inr (OtherResource, parser') \<Rightarrow> answers_allowed lib pol parser'
      | Inr (AAAAResource ip, parser') \<Rightarrow>
          if aaaa_allowed pol ip then Some True else answers_allowed lib pol parser')"

definition allowsAAAA :: "('p, 'b) dnslib \<Rightarrow> dnsPolicy \<Rightarrow> bytes \<Rightarrow> bool option" where
  "allowsAAAA lib pol resp =
     (case p_Start lib resp of
        Inl _ \<Rightarrow> Some False
      | Inr (_, parser) \<Rightarrow>
          (case p_SkipAllQuestions lib parser of
             Inl _ \<Rightarrow> Some False
           | Inr parser' \<Rightarrow> answers_allowed lib pol parser'))"

section \<open>One upstream\<close>

definition DialTimeout :: "netenv \<Rightarrow> nat \<Rightarrow> string \<Rightarrow> string \<Rightarrow> (world, nat) act" where
  "DialTimeout env now network address =
     act_bind (NewDirectConnector env \<lparr>ctx_deadline = Some (now + dnsUpstreamTimeout), ctx_udp_source = None\<rparr> network address)
       (\<lambda>x. act_lift (Throw2 x))"

text \<open>\<^verbatim>\<open>Read\<close> of a connected UDP socket: one datagram, cut to the buffer.\<close>

definition w_recv :: "nat \<Rightarrow> nat \<Rightarrow> (world, bytes) act" where
  "w_recv k n w =
     (if conn_open k w then
        (case segs (conn_raw (w_conn k w)) of
           [] \<Rightarrow> (Exc (fin (conn_raw (w_conn k w))), w)
         | d # ds \<Rightarrow> (Ret (take n d), w\<lparr>heap := (heap w)(k \<mapsto> conn_map_raw (\<lambda>r. r\<lparr>segs := ds\<rparr>) (w_conn k w))\<rparr>))
      else (Exc ErrClosed, w))"

definition readDNSMessage :: "'r reader \<Rightarrow> ('r, bytes) act" where
  "readDNSMessage rd =
     act_bind (readFull rd 2) (\<lambda>len.
     act_bind (act_lift (res_bind (index 0 len) (\<lambda>hi. res_bind (index 1 len) (\<lambda>lo. Ret (be16_get hi lo))))) (\<lambda>n.
     readFull rd (unat n)))"

definition dns_frame :: "bytes \<Rightarrow> bytes" where
  "dns_frame msg = be16 (of_nat (length msg)) @ msg"

definition writeDNSMessage :: "nat \<Rightarrow> bytes \<Rightarrow> (world, unit) act" where
  "writeDNSMessage k msg = act_throw (w_write k (dns_frame msg))"

definition forwardDNSUDP :: "netenv \<Rightarrow> nat \<Rightarrow> bytes \<Rightarrow> string \<Rightarrow> (world, bytes) act" where
  "forwardDNSUDP env now query upstream =
     act_bind (DialTimeout env now ''udp'' upstream) (\<lambda>k.
     act_finally (w_close k)
       (act_bind (act_throw (w_set_deadline k (Some (now + dnsUpstreamTimeout)))) (\<lambda>_.
        act_bind (act_throw (w_write k query)) (\<lambda>_.
        w_recv k dnsBufferSize))))"

definition forwardDNSTCP :: "netenv \<Rightarrow> nat \<Rightarrow> bytes \<Rightarrow> string \<Rightarrow> (world, bytes) act" where
  "forwardDNSTCP env now query upstream =
     act_bind (DialTimeout env now ''tcp'' upstream) (\<lambda>k.
     act_finally (w_close k)
       (act_bind (act_throw (w_set_deadline k (Some (now + dnsUpstreamTimeout)))) (\<lambda>_.
        act_bind (writeDNSMessage k query) (\<lambda>_.
        readDNSMessage (w_read k)))))"

definition forwardDNS :: "('p, 'b) dnslib \<Rightarrow> netenv \<Rightarrow> nat \<Rightarrow> bytes \<Rightarrow> string \<Rightarrow> (world, bytes) act" where
  "forwardDNS lib env now query upstream =
     act_bind (forwardDNSUDP env now query upstream) (\<lambda>resp.
     if \<not> isTruncated lib resp then act_ret resp else forwardDNSTCP env now query upstream)"

section \<open>The upstreams in turn\<close>

text \<open>
  \<^verbatim>\<open>dnsUpstreams\<close>: the addresses, and the 32-bit index of the one that answered last, which all queries share. Go's \<^verbatim>\<open>%\<close> truncates
  towards zero, and indexing with a negative number panics.
\<close>

definition go_rem :: "int \<Rightarrow> int \<Rightarrow> int" where
  "go_rem a b = sgn a * (\<bar>a\<bar> mod \<bar>b\<bar>)"

definition index_int :: "int \<Rightarrow> 'a list \<Rightarrow> 'a res" where
  "index_int i xs = (if i < 0 then Pan ''index out of range'' else index (nat i) xs)"

definition newDNSUpstreams :: "string list \<Rightarrow> string list \<times> 32 word" where
  "newDNSUpstreams addrs = (addrs, 0)"

fun forward_loop ::
    "string list \<Rightarrow> int \<Rightarrow> (string \<Rightarrow> ('s, bytes) act) \<Rightarrow> nat list \<Rightarrow> err list \<Rightarrow> (32 word \<times> 's, bytes) act" where
  "forward_loop addrs start ask [] errs (p, s) = ((if errs = [] then Ret [] else Exc (Joined errs)), (p, s))"
| "forward_loop addrs start ask (i # is) errs (p, s) =
     (let idx = go_rem (start + int i) (int (length addrs)) in
      case index_int idx addrs of
        Ret addr \<Rightarrow>
          (case ask addr s of
             (Ret resp, s') \<Rightarrow> (Ret resp, (if idx \<noteq> start then word_of_int idx else p, s'))
           | (Exc e, s') \<Rightarrow> forward_loop addrs start ask is (errs @ [Wrapped ''%s: %w'' [addr] e]) (p, s')
           | (Pan q, s') \<Rightarrow> (Pan q, (p, s')))
      | Exc e \<Rightarrow> (Exc e, (p, s))
      | Pan q \<Rightarrow> (Pan q, (p, s)))"

definition forward :: "string list \<Rightarrow> (string \<Rightarrow> ('s, bytes) act) \<Rightarrow> (32 word \<times> 's, bytes) act" where
  "forward addrs ask ps = forward_loop addrs (sint (fst ps)) ask [0..<length addrs] [] ps"

section \<open>Answering\<close>

text \<open>\<open>fwd\<close> is \<^verbatim>\<open>upstreams.forward\<close>; \<open>None\<close> when the parser never ends.\<close>

definition resolveDNS ::
    "('p, 'b) dnslib \<Rightarrow> dnsPolicy \<Rightarrow> (bytes \<Rightarrow> ('s, bytes) act) \<Rightarrow> bytes \<Rightarrow> 's \<Rightarrow> (bytes res \<times> 's) option" where
  "resolveDNS lib pol fwd query s =
     (case p_Start lib query of
        Inl _ \<Rightarrow> Some (fwd query s)
      | Inr (header, parser) \<Rightarrow>
          (case p_Question lib parser of
             Inl _ \<Rightarrow> Some (fwd query s)
           | Inr (question, _) \<Rightarrow>
               if q_Type question \<noteq> TypeAAAA then Some (fwd query s)
               else if \<not> pol_ipv6 pol then Some (emptyResponse lib header question, s)
               else case fwd query s of
                   (Ret resp, s') \<Rightarrow>
                     map_option (\<lambda>allowed. (if allowed then Ret resp else emptyResponse lib header question, s'))
                       (allowsAAAA lib pol resp)
                 | (Exc e, s') \<Rightarrow> Some (Exc e, s')
                 | (Pan q, s') \<Rightarrow> Some (Pan q, s')))"

text \<open>\<^verbatim>\<open>handleDNSQuery\<close>, with \<open>send\<close> the listening socket's \<^verbatim>\<open>WriteTo\<close> to the client.\<close>

definition handleDNSQuery ::
    "('p, 'b) dnslib \<Rightarrow> dnsPolicy \<Rightarrow> (bytes \<Rightarrow> ('s, bytes) act) \<Rightarrow> (bytes \<Rightarrow> ('s, unit) act) \<Rightarrow> bytes \<Rightarrow> 's \<Rightarrow> (unit res \<times> 's) option" where
  "handleDNSQuery lib pol fwd send query s =
     map_option (\<lambda>(r, s'). act_bind (\<lambda>_. (r, s')) send s') (resolveDNS lib pol fwd query s)"

text \<open>
  \<^verbatim>\<open>handleDNSStream\<close> on connection \<open>k\<close>, with \<open>resolve\<close> for \<^verbatim>\<open>resolveDNS\<close>. The loop ends only when a read, a write or a resolution fails; round \<open>i\<close> reads the clock as \<open>now i\<close>.
\<close>

partial_function (option) handleDNSStream ::
    "(bytes \<Rightarrow> world \<Rightarrow> (bytes res \<times> world) option) \<Rightarrow> (nat \<Rightarrow> nat) \<Rightarrow> nat \<Rightarrow> nat \<Rightarrow> world \<Rightarrow> (unit res \<times> world) option" where
  "handleDNSStream resolve now i k w =
     (case act_throw (w_set_deadline k (Some (now i + dnsStreamIdleTimeout))) w of
        (Ret _, w1) \<Rightarrow>
          (case act_try (readDNSMessage (w_read k)) w1 of
             (Ret (Inr query), w2) \<Rightarrow>
               (case resolve query w2 of
                  None \<Rightarrow> None
                | Some (Ret resp, w3) \<Rightarrow>
                    (case writeDNSMessage k resp w3 of
                       (Ret _, w4) \<Rightarrow> handleDNSStream resolve now (Suc i) k w4
                     | (Exc e, w4) \<Rightarrow> Some (Exc e, w4)
                     | (Pan q, w4) \<Rightarrow> Some (Pan q, w4))
                | Some (Exc e, w3) \<Rightarrow> Some (Exc e, w3)
                | Some (Pan q, w3) \<Rightarrow> Some (Pan q, w3))
           | (Ret (Inl _), w2) \<Rightarrow> Some (Ret (), w2)
           | (Exc e, w2) \<Rightarrow> Some (Exc e, w2)
           | (Pan q, w2) \<Rightarrow> Some (Pan q, w2))
      | (Exc e, w1) \<Rightarrow> Some (Exc e, w1)
      | (Pan q, w1) \<Rightarrow> Some (Pan q, w1))"

section \<open>Upstreams: the first answer in rotation\<close>

text \<open>The reference: ask a list of servers in order until one answers.\<close>

primrec first_answer :: "(string \<Rightarrow> ('s, bytes) act) \<Rightarrow> string list \<Rightarrow> 's \<Rightarrow> (err list + nat \<times> bytes) res \<times> 's" where
  "first_answer ask [] s = (Ret (Inl []), s)"
| "first_answer ask (a # as) s =
     (case ask a s of
        (Ret r, s') \<Rightarrow> (Ret (Inr (0, r)), s')
      | (Exc e, s') \<Rightarrow>
          (case first_answer ask as s' of
             (Ret (Inl es), s'') \<Rightarrow> (Ret (Inl (Wrapped ''%s: %w'' [a] e # es)), s'')
           | (Ret (Inr (k, r)), s'') \<Rightarrow> (Ret (Inr (Suc k, r)), s'')
           | (Exc e', s'') \<Rightarrow> (Exc e', s'')
           | (Pan q, s'') \<Rightarrow> (Pan q, s''))
      | (Pan q, s') \<Rightarrow> (Pan q, s'))"

definition after_first :: "nat \<Rightarrow> 32 word \<Rightarrow> nat \<Rightarrow> err list \<Rightarrow> (err list + nat \<times> bytes) res \<times> 's \<Rightarrow> bytes res \<times> (32 word \<times> 's)" where
  "after_first n p j errs x =
     (case x of
        (Ret (Inr (k, r)), s') \<Rightarrow> (Ret r, (of_nat ((unat p + j + k) mod n), s'))
      | (Ret (Inl es), s') \<Rightarrow> ((if errs @ es = [] then Ret [] else Exc (Joined (errs @ es))), (p, s'))
      | (Exc e, s') \<Rightarrow> (Exc e, (p, s'))
      | (Pan q, s') \<Rightarrow> (Pan q, (p, s')))"

lemma go_rem_nat: "0 < n \<Longrightarrow> go_rem (int a) (int n) = int (a mod n)"
  by (simp add: go_rem_def zmod_int sgn_if)

lemma sint_small: "unat p < 2 ^ 31 \<Longrightarrow> sint (p :: 32 word) = int (unat p)"
proof -
  assume "unat p < 2 ^ 31"
  then have "int (unat p) < int (2 ^ 31)" by (simp only: of_nat_less_iff)
  then have "uint p < 2 ^ 31" by simp
  moreover have "- (2 ^ 31) \<le> uint p" by (rule order_trans [OF _ uint_ge_0]) simp
  ultimately have "signed_take_bit 31 (uint p) = uint p" by (rule signed_take_bit_int_eq_self [rotated])
  then show ?thesis by (simp add: sint_uint)
qed

lemma forward_loop_eq:
  assumes "unat p < length addrs"
  shows "j \<le> length addrs \<Longrightarrow>
    forward_loop addrs (int (unat p)) ask [j..<length addrs] errs (p, s) =
      after_first (length addrs) p j errs (first_answer ask (drop j (rotate (unat p) addrs)) s)"
proof (induction "length addrs - j" arbitrary: j errs s)
  case 0
  then show ?case by (simp add: after_first_def)
next
  case (Suc d)
  then have j: "j < length addrs" by simp
  let ?n = "length addrs" and ?i = "(unat p + j) mod length addrs"
  have up: "[j..<?n] = j # [Suc j..<?n]" using j by (simp add: upt_conv_Cons)
  have "drop j (rotate (unat p) addrs) = rotate (unat p) addrs ! j # drop (Suc j) (rotate (unat p) addrs)"
    using j by (simp add: Cons_nth_drop_Suc)
  then have dr: "drop j (rotate (unat p) addrs) = addrs ! ?i # drop (Suc j) (rotate (unat p) addrs)"
    using j by (simp add: nth_rotate)
  have idx: "go_rem (int (unat p) + int j) (int ?n) = int ?i" using j go_rem_nat [of ?n "unat p + j"] by fastforce
  have "?i < ?n" using j by (intro mod_less_divisor) auto
  then have at: "index_int (int ?i) addrs = Ret (addrs ! ?i)" by (simp add: index_int_def index_def)
  have st: "(if int ?i \<noteq> int (unat p) then word_of_int (int ?i) else p) = of_nat ?i"
  proof (cases "?i = unat p")
    case True
    then have "of_nat ?i = p" by (simp only: of_nat_unat ucast_id)
    with True show ?thesis by (simp only: if_False simp_thms)
  next
    case False
    then have "int ?i \<noteq> int (unat p)" by (simp only: of_nat_eq_iff not_False_eq_True)
    then show ?thesis by (simp only: if_True simp_thms of_int_of_nat_eq)
  qed
  have IH: "forward_loop addrs (int (unat p)) ask [Suc j..<?n] errs' (p, s') =
      after_first ?n p (Suc j) errs' (first_answer ask (drop (Suc j) (rotate (unat p) addrs)) s')" for errs' s'
    using Suc by simp
  show ?case
    unfolding up dr first_answer.simps
    by (simp only: forward_loop.simps Let_def idx at res.case IH st)
      (auto simp: after_first_def split: prod.split res.split sum.split)
qed

lemma forward_eq:
  assumes "unat p < length addrs" "length addrs \<le> 2 ^ 31"
  shows "forward addrs ask (p, s) = after_first (length addrs) p 0 [] (first_answer ask (rotate (unat p) addrs) s)"
proof -
  have "sint p = int (unat p)" using assms by (intro sint_small) simp
  with forward_loop_eq [OF assms(1), of 0] show ?thesis by (simp add: forward_def)
qed

lemma first_answer_at:
  "first_answer ask as s = (Ret (Inr (k, r)), s') \<Longrightarrow> k < length as \<and> (\<exists>s0. ask (as ! k) s0 = (Ret r, s'))"
proof (induction as arbitrary: s k)
  case (Cons a as)
  obtain x s1 where a: "ask a s = (x, s1)" by (cases "ask a s")
  show ?case
  proof (cases x)
    case (Exc e)
    with Cons.prems a obtain k' where "k = Suc k'" "first_answer ask as s1 = (Ret (Inr (k', r)), s')"
      by (auto split: prod.splits res.splits sum.splits)
    with Cons.IH show ?thesis by fastforce
  qed (use Cons.prems a in auto)
qed simp

section \<open>The answer section\<close>

text \<open>The resources a parser hands out before its first error.\<close>

inductive yields :: "('p, 'b) dnslib \<Rightarrow> 'p \<Rightarrow> rr_body list \<Rightarrow> bool" for lib where
  yields_end: "p_Answer lib p = Inl e \<Longrightarrow> yields lib p []"
| yields_more: "p_Answer lib p = Inr (rr, p') \<Longrightarrow> yields lib p' rrs \<Longrightarrow> yields lib p (rr # rrs)"


lemma answers_allowed_total:
  "yields lib p rrs \<Longrightarrow> answers_allowed lib pol p = Some (\<exists>ip. AAAAResource ip \<in> set rrs \<and> aaaa_allowed pol ip)"
proof (induction rule: yields.induct)
  case (yields_end p e)
  then show ?case by (simp add: answers_allowed.simps)
next
  case (yields_more p rr p' rrs)
  then show ?case by (subst answers_allowed.simps) (auto split: rr_body.split)
qed




section \<open>Framing\<close>

lemma dns_frame_length: "length (dns_frame msg) = 2 + length msg"
  by (simp add: dns_frame_def)

context io_reader
begin

lemma readDNSMessage_len:
  assumes "inv r" "2 \<le> length (stream r)"
  shows "\<exists>r1. readDNSMessage rd r = readFull rd (unat (be16_get (stream r ! 0) (stream r ! 1))) r1 \<and>
    stream r1 = drop 2 (stream r) \<and> same r r1"
proof -
  from readFull_ok [OF assms] obtain r1 where
    r1: "readFull rd 2 r = (Ret (take 2 (stream r)), r1)" "stream r1 = drop 2 (stream r)" "same r r1" by blast
  have "index 0 (take 2 (stream r)) = Ret (stream r ! 0)" "index 1 (take 2 (stream r)) = Ret (stream r ! 1)"
    using assms(2) by (simp_all add: index_def)
  with r1 have "readDNSMessage rd r = readFull rd (unat (be16_get (stream r ! 0) (stream r ! 1))) r1"
    by (simp add: readDNSMessage_def act_bind_def act_lift_def)
  with r1 show ?thesis by blast
qed

lemma readDNSMessage_frame:
  assumes "inv r" "stream r = dns_frame msg @ tail"
  shows "\<exists>r'. readDNSMessage rd r = (Ret (take (length msg mod 65536) msg), r') \<and>
    stream r' = drop (length msg mod 65536) msg @ tail \<and> same r r'"
proof -
  let ?w = "of_nat (length msg) :: u16" and ?n = "length msg mod 65536"
  have b: "stream r ! 0 = ucast (drop_bit 8 ?w)" "stream r ! 1 = ucast ?w" "drop 2 (stream r) = msg @ tail" "2 \<le> length (stream r)"
    using assms(2) by (simp_all add: dns_frame_def be16_def)
  have n: "unat ?w = ?n" by (simp add: unat_of_nat)
  from readDNSMessage_len [OF assms(1) b(4)] obtain r1 where
    r1: "readDNSMessage rd r = readFull rd ?n r1" "stream r1 = msg @ tail" "same r r1"
    unfolding b be16_roundtrip n by blast
  have i: "inv r1" "?n \<le> length (stream r1)" using r1(2,3) by (auto simp: same_def intro: order_trans [OF mod_less_eq_dividend])
  have le: "?n \<le> length msg" by simp
  from readFull_ok [OF i] r1 same_trans [OF r1(3)] le show ?thesis by auto
qed

lemma readDNSMessage_same:
  assumes "inv r" "readDNSMessage rd r = (x, r')"
  shows "same r r' \<and> (\<forall>p. x \<noteq> Pan p)"
proof (cases "2 \<le> length (stream r)")
  case True
  from readDNSMessage_len [OF assms(1) True] assms(2) obtain n r1 where
    r1: "readFull rd n r1 = (x, r')" "same r r1" by auto
  then have "inv r1" by (simp add: same_def)
  with r1 readFull_same [OF this r1(1)] readFull_no_panic [OF this, of n] same_trans show ?thesis by auto
next
  case False
  then have "\<exists>e r1. readFull rd 2 r = (Exc e, r1) \<and> same r r1" using readFull_short [OF assms(1), of 2] by auto
  with assms(2) show ?thesis by (auto simp: readDNSMessage_def act_bind_def)
qed

lemma readDNSMessage_end:
  assumes "inv r" "stream r = []"
  shows "\<exists>e r'. readDNSMessage rd r = (Exc e, r') \<and> same r r'"
  using readFull_short [OF assms(1), of 2] assms(2) by (auto simp: readDNSMessage_def act_bind_def)

end

section \<open>Connections to the upstreams\<close>

lemma keeps_recv [keeps]: "act_keeps (touched k w) (w_recv k n)"
proof (rule act_keepsI)
  fix s x s' assume s: "touched k w s" "w_recv k n s = (x, s')"
  have "conn_open k s" using s(1) by (rule touched_open)
  with s show "touched k w s' \<and> (\<forall>p. x \<noteq> Pan p)"
    by (auto simp: w_recv_def touched_def conn_open_def w_conn_def conn_fin_def split: list.splits)
qed

lemma keeps_readDNSMessage [keeps]: "act_keeps (touched k w) (readDNSMessage (w_read k))"
proof (rule act_keepsI)
  fix s x s' assume s: "touched k w s" "readDNSMessage (w_read k) s = (x, s')"
  from conn_rd.readDNSMessage_same [OF touched_open [OF s(1)] s(2)] same_touched(1) [OF touched_open [OF s(1)]] s(1)
  show "touched k w s' \<and> (\<forall>p. x \<noteq> Pan p)" by (auto intro: touched_trans)
qed

lemma keeps_writeDNSMessage [keeps]: "act_keeps (touched k w) (writeDNSMessage k msg)"
  unfolding writeDNSMessage_def by (intro keeps)

text \<open>What is written to a connection, and a computation that writes to one connection only.\<close>

definition sent_to :: "nat \<Rightarrow> world \<Rightarrow> bytes list" where
  "sent_to k w = map snd (filter (\<lambda>x. fst x = k) (wlog w))"

definition wrote :: "nat \<Rightarrow> world \<Rightarrow> world \<Rightarrow> bool" where
  "wrote k v w \<longleftrightarrow> touched k v w \<and> (\<forall>j. j \<noteq> k \<longrightarrow> sent_to j w = sent_to j v)"

lemma keeps_wrote_quiet:
  assumes "\<And>v. act_keeps (touched k v) m" "\<And>w x w'. conn_open k w \<Longrightarrow> m w = (x, w') \<Longrightarrow> wlog w' = wlog w"
  shows "act_keeps (wrote k v) m"
proof (rule act_keepsI)
  fix w x w' assume w: "wrote k v w" "m w = (x, w')"
  then have "touched k v w" by (simp add: wrote_def)
  with act_keepsD [OF assms(1) this w(2)] assms(2) [OF touched_open [OF this] w(2)] w(1)
  show "wrote k v w' \<and> (\<forall>p. x \<noteq> Pan p)" by (simp add: wrote_def sent_to_def)
qed

lemma keeps_wrote [keeps]:
  "act_keeps (wrote k v) (act_throw (w_set_deadline k d))" "act_keeps (wrote k v) (w_recv k n)" "act_keeps (wrote k v) (readDNSMessage (w_read k))"
  "act_keeps (wrote k v) (act_throw (w_write k b))" "act_keeps (wrote k v) (writeDNSMessage k msg)"
proof -
  show "act_keeps (wrote k v) (act_throw (w_set_deadline k d))"
    by (rule keeps_wrote_quiet [OF keeps_set_deadline]) (auto simp: act_throw_def split: prod.splits dest: w_set_deadline_open)
  show "act_keeps (wrote k v) (w_recv k n)"
    by (rule keeps_wrote_quiet [OF keeps_recv]) (auto simp: w_recv_def split: list.splits)
  show "act_keeps (wrote k v) (readDNSMessage (w_read k))"
    by (rule keeps_wrote_quiet [OF keeps_readDNSMessage]) (use conn_rd.readDNSMessage_same same_touched(2) in blast)
  show w: "act_keeps (wrote k v) (act_throw (w_write k b))" for b
  proof (rule act_keepsI)
    fix w x w' assume w: "wrote k v w" "act_throw (w_write k b) w = (x, w')"
    then have t: "touched k v w" by (simp add: wrote_def)
    obtain e where e: "w_write k b w = (e, w')" using w(2) by (auto simp: act_throw_def split: prod.splits)
    have "sent_to j w' = sent_to j w" if "j \<noteq> k" for j
      using w_write_open [OF touched_open [OF t] e] that by (simp add: sent_to_def)
    with act_keepsD [OF keeps_write t w(2)] w(1) show "wrote k v w' \<and> (\<forall>p. x \<noteq> Pan p)" by (simp add: wrote_def)
  qed
  show "act_keeps (wrote k v) (writeDNSMessage k msg)" unfolding writeDNSMessage_def by (rule w)
qed

text \<open>A computation that dials one connection, uses it and closes it.\<close>

lemma dial_use_log:
  assumes "world_ok w" "act_bind (DialTimeout env now nw addr) (\<lambda>k. act_finally (w_close k) (m k)) w = (x, w')"
    "\<And>k v. act_keeps (wrote k v) (m k)" "j < length (dials w)"
  shows "sent_to j w' = sent_to j w"
proof -
  let ?cx = "\<lparr>ctx_deadline = Some (now + dnsUpstreamTimeout), ctx_udp_source = None\<rparr>"
  obtain y w1 where d: "NewDirectConnector env ?cx nw addr w = (y, w1)" by (cases "NewDirectConnector env ?cx nw addr w")
  note D = NewDirectConnector_spec [OF assms(1) d]
  have log: "sent_to j w1 = sent_to j w" using d by (auto simp: NewDirectConnector_def Let_def sent_to_def split: sum.splits)
  obtain z where y: "y = Ret z" using D(1) by blast
  show ?thesis
  proof (cases z)
    case (Inl e)
    with assms(2) d y log show ?thesis by (auto simp: DialTimeout_def act_bind_def)
  next
    case (Inr k)
    obtain u w2 where m: "m k w1 = (u, w2)" by (cases "m k w1")
    have k: "k = length (dials w)" "k \<in> new_open w w1" using D(5) [of k] y Inr by auto
    then have o: "conn_open k w1" by (simp add: new_open_def)
    then have "wrote k w1 w1" by (simp add: wrote_def touched_refl)
    from act_keepsD [OF assms(3) this m] k(1) assms(4) have "sent_to j w2 = sent_to j w1" by (simp add: wrote_def)
    with assms(2) d y Inr m log show ?thesis by (auto simp: DialTimeout_def act_bind_def act_finally_def sent_to_def)
  qed
qed

lemma dial_use_close:
  assumes "world_ok w" "act_bind (DialTimeout env now nw addr) (\<lambda>k. act_finally (w_close k) (m k)) w = (x, w')"
    "\<And>k v. act_keeps (touched k v) (m k)"
  shows "held w {} w' \<and> dials w' = dials w @ [(nw, addr)] \<and> (\<forall>p. x \<noteq> Pan p)"
proof -
  let ?cx = "\<lparr>ctx_deadline = Some (now + dnsUpstreamTimeout), ctx_udp_source = None\<rparr>"
  obtain y w1 where d: "NewDirectConnector env ?cx nw addr w = (y, w1)" by (cases "NewDirectConnector env ?cx nw addr w")
  note D = NewDirectConnector_spec(4) [OF assms(1) d]
  from held_dial [OF direct.connector_contract_axioms held_start [OF assms(1)] d] show ?thesis
  proof (elim disjE exE conjE)
    fix k assume k: "y = Ret (Inr k)" "held w {k} w1"
    obtain z w2 where m: "m k w1 = (z, w2)" by (cases "m k w1")
    have "conn_open k w1" using held_mem [OF k(2)] by simp
    from act_keepsD [OF assms(3) touched_refl [OF this] m] have t: "touched k w1 w2" "\<forall>p. z \<noteq> Pan p" by simp_all
    have "held w {} (w_close k w2)" using held_close [OF held_touched [OF k(2) _ t(1)], of k] by simp
    with t D k m d assms(2) show ?thesis by (auto simp: DialTimeout_def act_bind_def act_finally_def touched_def)
  next
    fix e assume "y = Ret (Inl e)" "held w {} w1"
    with D d assms(2) show ?thesis by (auto simp: DialTimeout_def act_bind_def)
  qed
qed

lemma held_trans: "held v {} w \<Longrightarrow> held w {} u \<Longrightarrow> held v {} u"
  unfolding held_def old_kept_def new_open_def conn_open_def world_ok_def by (auto simp: set_eq_iff) (metis leI)+

lemma forwardDNSUDP_held:
  assumes "world_ok w" "forwardDNSUDP env now q up w = (x, w')"
  shows "held w {} w' \<and> dials w' = dials w @ [(''udp'', up)] \<and> (\<forall>p. x \<noteq> Pan p)"
  by (rule dial_use_close [OF assms(1) assms(2) [unfolded forwardDNSUDP_def]]) (intro keeps)

lemma forwardDNSTCP_held:
  assumes "world_ok w" "forwardDNSTCP env now q up w = (x, w')"
  shows "held w {} w' \<and> dials w' = dials w @ [(''tcp'', up)] \<and> (\<forall>p. x \<noteq> Pan p)"
  by (rule dial_use_close [OF assms(1) assms(2) [unfolded forwardDNSTCP_def]]) (intro keeps)

lemma forwardDNS_log:
  assumes "world_ok w" "forwardDNS lib env now q up w = (x, w')" "j < length (dials w)"
  shows "sent_to j w' = sent_to j w"
proof -
  obtain y w1 where u: "forwardDNSUDP env now q up w = (y, w1)" by (cases "forwardDNSUDP env now q up w")
  note U = forwardDNSUDP_held [OF assms(1) u]
  have 1: "sent_to j w1 = sent_to j w"
    by (rule dial_use_log [OF assms(1) u [unfolded forwardDNSUDP_def] _ assms(3)]) (intro keeps)
  show ?thesis
  proof (cases "\<exists>resp. y = Ret resp \<and> isTruncated lib resp")
    case True
    then have t: "forwardDNSTCP env now q up w1 = (x, w')" using assms(2) u by (auto simp: forwardDNS_def act_bind_def)
    have "world_ok w1" "j < length (dials w1)" using U assms(3) by (auto simp: held_def)
    from dial_use_log [OF this(1) t [unfolded forwardDNSTCP_def] _ this(2)] 1 show ?thesis by (auto intro: keeps)
  next
    case False
    with assms(2) u 1 show ?thesis by (cases y) (auto simp: forwardDNS_def act_bind_def act_ret_def)
  qed
qed

section \<open>A client's stream\<close>

lemma handleDNSStream_step:
  assumes "act_throw (w_set_deadline k (Some (now i + dnsStreamIdleTimeout))) w = (Ret (), w1)"
    "readDNSMessage (w_read k) w1 = (Ret q, w2)" "resolve q w2 = Some (Ret a, w3)" "writeDNSMessage k a w3 = (Ret (), w4)"
  shows "handleDNSStream resolve now i k w = handleDNSStream resolve now (Suc i) k w4"
  by (subst handleDNSStream.simps) (simp add: assms act_try_def)

lemma handleDNSStream_end:
  assumes "act_throw (w_set_deadline k (Some (now i + dnsStreamIdleTimeout))) w = (Ret (), w1)"
    "readDNSMessage (w_read k) w1 = (Exc e, w2)"
  shows "handleDNSStream resolve now i k w = Some (Ret (), w2)"
  by (subst handleDNSStream.simps) (simp add: assms act_try_def)

lemma ready_cong: "heap w' k = heap w k \<Longrightarrow> conn_open k w' \<Longrightarrow> ready k w \<Longrightarrow> ready k w' \<and> w_conn k w' = w_conn k w"
  by (simp add: ready_def w_conn_def)

section \<open>Addresses of -D\<close>

lemma parse4_loop_chars: "parse4_loop v d fs s = Some b \<Longrightarrow> \<forall>c \<in> set s. is_hex c \<or> c = CHR ''.''"
  by (induction v d fs s rule: parse4_loop.induct) (auto simp: is_hex_def split: if_splits)

lemma parse6_loop_chars:
  "parse6_loop ip ell s = Some (b, ell', []) \<Longrightarrow> \<forall>c \<in> set s. is_hex c \<or> c = CHR '':'' \<or> c = CHR ''.''"
proof (induction ip ell s rule: parse6_loop.induct)
  case (1 ip ell s)
  have tw: "\<forall>c \<in> set (takeWhile is_hex s). is_hex c" by (auto dest: set_takeWhileD)
  have s: "set s = set (takeWhile is_hex s) \<union> set (dropWhile is_hex s)" by (metis set_append takeWhile_dropWhile_id)
  show ?case
  proof (cases "dropWhile is_hex s")
    case Nil
    with s tw show ?thesis by auto
  next
    case (Cons c r)
    show ?thesis
    proof (cases "c = CHR ''.''")
      case True
      with 1(3) Cons obtain f where "parseIPv4 s = Some f"
        by (subst (asm) parse6_loop.simps) (auto simp: Let_def split: if_splits option.splits)
      with parse4_loop_chars show ?thesis by (fastforce simp: parseIPv4_def)
    next
      case False
      with 1(3) Cons have len: "\<not> 16 \<le> length ip" "\<not> (takeWhile is_hex s = [] \<or> 4 < length (takeWhile is_hex s))" "c = CHR '':''"
        unfolding parse6_loop.simps [of ip ell s] by (auto simp: Let_def split: if_splits)
      show ?thesis
      proof (cases r)
        case Nil
        with s tw Cons len show ?thesis by auto
      next
        case (Cons d r2)
        note C = \<open>dropWhile is_hex s = c # r\<close> Cons
        have "\<forall>x \<in> set r. is_hex x \<or> x = CHR '':'' \<or> x = CHR ''.''"
        proof (cases "d = CHR '':''")
          case True
          with 1(3) C len have "r2 = [] \<or> (ell = None \<and> parse6_loop (ip @ group_bytes (hex_num (takeWhile is_hex s))) (Some (length ip + 2)) r2 = Some (b, ell', []))"
            by (subst (asm) parse6_loop.simps) (auto simp: Let_def split: if_splits)
          with 1(1) [OF len(1) refl refl _ C(1) _ _ C(2) True] len C True show ?thesis by (cases "r2 = []") auto
        next
          case False
          with 1(3) C len have "parse6_loop (ip @ group_bytes (hex_num (takeWhile is_hex s))) ell r = Some (b, ell', [])"
            by (subst (asm) parse6_loop.simps) (auto simp: Let_def split: if_splits)
          with 1(2) [OF len(1) refl refl _ C(1) _ _ C(2) False] len C show ?thesis by auto
        qed
        with s tw C len show ?thesis by auto
      qed
    qed
  qed
qed

lemma ParseIP_chars:
  assumes "ParseIP s \<noteq> []" "c \<in> set s"
  shows "is_hex c \<or> c = CHR '':'' \<or> c = CHR ''.''"
proof -
  from assms(1) have "parseIPv4 s \<noteq> None \<or> parseIPv6 s \<noteq> None"
  proof -
    have "parseAddr_scan s t = Some a \<Longrightarrow> parseIPv4 s \<noteq> None \<or> parseIPv6 s \<noteq> None" for t a
      by (induction s t rule: parseAddr_scan.induct) (auto split: if_splits)
    with assms(1) show ?thesis by (auto simp: ParseIP_def parseAddr_def split: option.splits)
  qed
  then show ?thesis
  proof
    assume "parseIPv4 s \<noteq> None"
    with parse4_loop_chars assms(2) show ?thesis by (fastforce simp: parseIPv4_def)
  next
    assume "parseIPv6 s \<noteq> None"
    then consider "has_prefix s ''::''" "drop 2 s = []" | b ell where "has_prefix s ''::''" "parse6_loop [] (Some 0) (drop 2 s) = Some (b, ell, [])"
      | b ell where "parse6_loop [] None s = Some (b, ell, [])"
      by (fastforce simp: parseIPv6_def parse6_finish_def split: if_splits bind_splits)
    moreover have "c \<in> set ''::'' \<or> c \<in> set (drop 2 s)" if "has_prefix s ''::''"
    proof -
      have "take 2 s = ''::''" using that by (simp add: has_prefix_def numeral_2_eq_2)
      then have "s = ''::'' @ drop 2 s" by (metis append_take_drop_id)
      with assms(2) show ?thesis by (metis Un_iff set_append)
    qed
    ultimately show ?thesis using parse6_loop_chars assms(2) by cases fastforce+
  qed
qed

section \<open>The policy and the routes\<close>

lemma Contains_To4:
  assumes "length ip = 16" "To4 ip \<noteq> []"
  shows "Contains n (take 4 (drop 12 ip)) = Contains n ip"
proof -
  have "To4 ip = drop 12 ip" "length (drop 12 ip) = 4" using assms by (auto simp: To4_def split: if_splits)
  moreover have "take 12 ip = v4InV6Prefix" using assms by (auto simp: To4_def split: if_splits)
  then have "v4InV6Prefix @ drop 12 ip = ip" by (metis append_take_drop_id)
  ultimately have "To16 (drop 12 ip) = ip" by (simp add: To16_def)
  with Contains_To16 [of "drop 12 ip" n] \<open>length (drop 12 ip) = 4\<close> show ?thesis by simp
qed

lemma aaaa_ip_unmap:
  assumes "length ip = 16"
  shows "Contains n (aaaa_ip nat64 ip) = Contains n (ep_ip (unmap_endpoint nat64 \<lparr>ep_ip = ip, ep_port = port\<rparr>))"
  using assms Contains_To4 [OF assms] by (auto simp: aaaa_ip_def unmap_endpoint_def split: option.split)

lemma aaaa_allowed_bypass:
  assumes "length ip = 16"
  shows "aaaa_allowed pol ip = list_ex (\<lambda>n. Contains n (ep_ip (unmap_endpoint (pol_nat64 pol) \<lparr>ep_ip = ip, ep_port = port\<rparr>))) (pol_allow pol)"
  unfolding aaaa_allowed_def by (simp only: aaaa_ip_unmap [OF assms, where port = port])

text \<open>The policy against the router, for any mappings and TUN subnets.\<close>

lemma policy_route:
  assumes "length ip = 16" "d = unmap_endpoint (pol_nat64 pol) \<lparr>ep_ip = ip, ep_port = port\<rparr>"
    "r = route_of nt (pol_allow pol) tun (pol_nat64 pol) network \<lparr>ep_ip = ip, ep_port = port\<rparr>"
  shows "aaaa_allowed pol ip \<Longrightarrow> r \<noteq> Proxied d'" "r = Direct d' \<Longrightarrow> aaaa_allowed pol ip"
    "MapAddress nt network (render d) = None \<Longrightarrow> \<exists>n \<in> set tun. Contains n (ep_ip d) \<Longrightarrow> r = Refused"
    "MapAddress nt network (render d) = None \<Longrightarrow> \<not> (\<exists>n \<in> set tun. Contains n (ep_ip d)) \<Longrightarrow>
      aaaa_allowed pol ip \<longleftrightarrow> (\<exists>d'. r = Direct d')"
  using assms(2,3) by (auto simp: route_of_def Let_def aaaa_allowed_bypass [OF assms(1), of pol port] list_ex_iff split: option.splits if_splits)

section \<open>Properties\<close>

text \<open>
  What \<^verbatim>\<open>-D\<close> accepts can be dialled: an accepted value is a host and a port already, or a bare IPv4 or IPv6 address, which gets
  port 53 and the brackets IPv6 needs; everything else is an error, and no value makes the parser panic.
\<close>

lemma parseUpstreamDNS_dialable:
  "(parseUpstreamDNS s = Ret a \<longrightarrow> (\<exists>host port. SplitHostPort a = Inr (host, port) \<and>
      (a = s \<or> ParseIP s \<noteq> [] \<and> host = s \<and> port = ''53''))) \<and>
   ((\<exists>a. parseUpstreamDNS s = Ret a) \<longleftrightarrow> (\<exists>hp. SplitHostPort s = Inr hp) \<or> ParseIP s \<noteq> []) \<and>
   parseUpstreamDNS s \<noteq> Pan q"
proof -
  have "SplitHostPort (JoinHostPort s ''53'') = Inr (s, ''53'')" if "ParseIP s \<noteq> []"
    using ParseIP_chars [OF that] is_hex_not_special by (intro SplitHostPort_JoinHostPort) force+
  moreover have "ParseIP '''' = []" "\<exists>e. SplitHostPort '''' = Inl e" by code_simp (simp add: SplitHostPort_def last_index_byte_def)
  ultimately show ?thesis by (auto simp: parseUpstreamDNS_def ThrowFmt_def split: sum.splits)
qed

text \<open>
  C17: The upstreams are asked in rotation from the one that answered last, and the first answer wins: \<^verbatim>\<open>forward\<close> behaves as asking the
  rotated list in order, remembers the index of the upstream that answered, and throws the errors of all of them, joined in the order
  asked, only when every one failed. It never indexes out of the list.
\<close>

theorem forward_first_answer:
  assumes "unat p < length addrs" and "length addrs \<le> 2 ^ 31"
  shows "forward addrs ask (p, s) =
    (case first_answer ask (rotate (unat p) addrs) s of
       (Ret (Inr (k, r)), s') \<Rightarrow> (Ret r, (of_nat ((unat p + k) mod length addrs), s'))
     | (Ret (Inl es), s') \<Rightarrow> (if es = [] then Ret [] else Exc (Joined es), (p, s'))
     | (Exc e, s') \<Rightarrow> (Exc e, (p, s'))
     | (Pan q, s') \<Rightarrow> (Pan q, (p, s')))"
  by (simp add: forward_eq [OF assms] after_first_def split: prod.split res.split sum.split)

text \<open>
  A dead server costs one timeout, not one per query: after an answer the shared index is in range and names the upstream that gave
  it, and as long as that one answers, every later query asks nobody else.
\<close>

lemma forward_remembers:
  assumes "unat p < length addrs" and "length addrs \<le> 2 ^ 31" and "forward addrs ask (p, s) = (Ret r, (p', s'))"
  shows "unat p' < length addrs \<and> (\<exists>s0. ask (addrs ! unat p') s0 = (Ret r, s')) \<and>
    (\<forall>s2 r2 s3. ask (addrs ! unat p') s2 = (Ret r2, s3) \<longrightarrow> forward addrs ask (p', s2) = (Ret r2, (p', s3)))"
proof -
  let ?n = "length addrs"
  have ne: "rotate (unat p) addrs \<noteq> []" using assms(1) by auto
  then have "first_answer ask (rotate (unat p) addrs) s \<noteq> (Ret (Inl []), s')" for s'
    by (cases "rotate (unat p) addrs") (auto split: prod.split_asm res.split_asm sum.split_asm)
  with assms(3) obtain k where k: "first_answer ask (rotate (unat p) addrs) s = (Ret (Inr (k, r)), s')"
    "p' = of_nat ((unat p + k) mod ?n)"
    by (auto simp: forward_eq [OF assms(1,2)] after_first_def split: prod.split_asm res.split_asm sum.split_asm if_split_asm)
  from first_answer_at [OF k(1)] obtain s0 where "k < ?n" and a: "ask (rotate (unat p) addrs ! k) s0 = (Ret r, s')" by auto
  have lt: "(unat p + k) mod ?n < ?n" using assms(1) by (intro mod_less_divisor) auto
  then have u: "unat p' = (unat p + k) mod ?n" using assms(2) unfolding k(2) by (simp add: unat_of_nat)
  with lt have r: "unat p' < ?n" by simp
  moreover have "ask (addrs ! unat p') s0 = (Ret r, s')" using a \<open>k < ?n\<close> u by (simp add: nth_rotate)
  moreover have "forward addrs ask (p', s2) = (Ret r2, (p', s3))" if "ask (addrs ! unat p') s2 = (Ret r2, s3)" for s2 r2 s3
  proof -
    have "rotate (unat p') addrs = addrs ! unat p' # tl (rotate (unat p') addrs)"
      using r nth_rotate [of 0 addrs "unat p'"] by (cases "rotate (unat p') addrs") fastforce+
    then obtain as where "rotate (unat p') addrs = addrs ! unat p' # as" by blast
    with that have "first_answer ask (rotate (unat p') addrs) s2 = (Ret (Inr (0, r2)), s3)" by simp
    moreover have "(of_nat (unat p') :: 32 word) = p'" by (simp only: of_nat_unat ucast_id)
    ultimately show ?thesis
      unfolding forward_eq [OF r assms(2)] using r by (simp add: after_first_def del: of_nat_unat)
  qed
  ultimately show ?thesis by blast
qed


text \<open>
  C19: And none that it could use is hidden, nor does the check hang: when the upstreams answer with a message whose answer section ends,
  the query is answered, verbatim if some AAAA record in it is allowed, with the empty response otherwise.
\<close>

theorem resolve_keeps_reachable_ipv6:
  assumes "p_Start lib query = Inr (header, parser)" and "p_Question lib parser = Inr (question, parser')"
    and "q_Type question = TypeAAAA" and "pol_ipv6 pol" and "fwd query s = (Ret resp, s')"
    and "p_Start lib resp = Inr (h, a)" and "p_SkipAllQuestions lib a = Inr a'" and "yields lib a' rrs"
  shows "resolveDNS lib pol fwd query s =
    Some (if \<exists>ip. AAAAResource ip \<in> set rrs \<and> aaaa_allowed pol ip then Ret resp else emptyResponse lib header question, s')"
  using assms answers_allowed_total [OF assms(8), of pol] by (simp add: resolveDNS_def allowsAAAA_def)

text \<open>
  Every other query is forwarded verbatim and its answer returned verbatim: one that does not parse, one without a question, and one for
  any type but AAAA.
\<close>

lemma resolve_forwards_verbatim:
  assumes "case p_Start lib query of Inl _ \<Rightarrow> True | Inr (_, parser) \<Rightarrow>
    (case p_Question lib parser of Inl _ \<Rightarrow> True | Inr (question, _) \<Rightarrow> q_Type question \<noteq> TypeAAAA)"
  shows "resolveDNS lib pol fwd query s = Some (fwd query s)"
  using assms by (auto simp: resolveDNS_def split: sum.splits)

text \<open>
  The TCP framing of RFC 1035 round trips: reading what \<^verbatim>\<open>writeDNSMessage\<close> wrote, however the bytes arrive, gives the message back and
  leaves what follows it, for every message the 16-bit length can carry; of a longer one only the length modulo 65536 is
  announced, and the rest would be read as the next message.
\<close>

lemma dns_frame_roundtrip:
  assumes "conn_open k w" and "conn_stream (w_conn k w) = dns_frame msg @ tail"
  shows "\<exists>w'. readDNSMessage (w_read k) w = (Ret (take (length msg mod 65536) msg), w') \<and>
    conn_stream (w_conn k w') = drop (length msg mod 65536) msg @ tail \<and>
    (length msg < 65536 \<longrightarrow> take (length msg mod 65536) msg = msg)"
  using conn_rd.readDNSMessage_frame [OF assms] by auto

text \<open>
  C24: A query to an upstream leaves nothing behind: whatever the upstream does, \<^verbatim>\<open>forwardDNS\<close> returns or throws, every socket it opened is
  closed, connections from before are untouched, and all it dialled is that upstream, once over UDP, and once more over TCP only after
  a truncated answer.
\<close>

theorem forwardDNS_leaves_nothing_open:
  assumes "world_ok w" and "forwardDNS lib env now query upstream w = (x, w')"
  shows "world_ok w' \<and> old_kept w w' \<and> new_open w w' = {} \<and> (\<forall>q. x \<noteq> Pan q) \<and>
    (dials w' = dials w @ [(''udp'', upstream)] \<or>
     dials w' = dials w @ [(''udp'', upstream), (''tcp'', upstream)] \<and>
       (\<exists>resp w1. forwardDNSUDP env now query upstream w = (Ret resp, w1) \<and> isTruncated lib resp))"
proof -
  obtain y w1 where u: "forwardDNSUDP env now query upstream w = (y, w1)" by (cases "forwardDNSUDP env now query upstream w")
  note U = forwardDNSUDP_held [OF assms(1) u]
  show ?thesis
  proof (cases "\<exists>resp. y = Ret resp \<and> isTruncated lib resp")
    case True
    then obtain resp where r: "y = Ret resp" "isTruncated lib resp" by blast
    with assms(2) u have t: "forwardDNSTCP env now query upstream w1 = (x, w')" by (simp add: forwardDNS_def act_bind_def)
    have "world_ok w1" using U by (simp add: held_def)
    note T = forwardDNSTCP_held [OF this t]
    have "held w {} w'" using held_trans U T by blast
    then have "world_ok w'" "old_kept w w'" "new_open w w' = {}" by (simp_all add: held_def)
    with U T r u show ?thesis by simp
  next
    case False
    with assms(2) u U show ?thesis
      by (cases y) (auto simp: forwardDNS_def act_bind_def act_ret_def held_def)
  qed
qed

text \<open>
  Witnesses. The codec is a toy of one-byte fields: a message is its question type and its answers, four bytes of an AAAA record
  standing for an address.
\<close>

definition demo_ask :: "string \<Rightarrow> (unit, bytes) act" where
  "demo_ask a s = (if a = ''192.0.2.2:53'' then Ret [1, 2, 3] else Exc DeadlineExceeded, s)"

theorem forward_first_answer_witness:
  "forward [''192.0.2.1:53'', ''192.0.2.2:53''] demo_ask (0, ()) = (Ret [1, 2, 3], (1, ()))"
  using forward_first_answer [of 0 "[''192.0.2.1:53'', ''192.0.2.2:53'']" demo_ask "()"]
  by (simp add: demo_ask_def)

definition demo_lib :: "(bytes, bytes) dnslib" where
  "demo_lib = \<lparr>
     p_Start = (\<lambda>m. case m of [] \<Rightarrow> Inl (Fmt ''unpacking header'' []) | i # r \<Rightarrow>
       Inr (\<lparr>h_ID = ucast i, h_Response = False, h_OpCode = 0, h_Truncated = False, h_RecursionDesired = True,
             h_RecursionAvailable = False, h_RCode = 0\<rparr>, r)),
     p_Question = (\<lambda>p. case p of [] \<Rightarrow> Inl (Fmt ''section done'' []) | t # r \<Rightarrow>
       Inr (\<lparr>q_Name = [], q_Type = ucast t, q_Class = 1\<rparr>, r)),
     p_SkipAllQuestions = (\<lambda>p. Inr (tl p)),
     p_Answer = (\<lambda>p. case p of [] \<Rightarrow> Inl (Fmt ''section done'' []) | x # r \<Rightarrow>
       Inr (AAAAResource (v4InV6Prefix @ take 4 (x # r)), drop 3 r)),
     b_New = (\<lambda>h. [ucast (h_ID h)]),
     b_StartQuestions = Inr,
     b_Question = (\<lambda>q b. Inr (b @ [ucast (q_Type q)])),
     b_Finish = Inr\<rparr>"

definition demo_policy :: "bool \<Rightarrow> dnsPolicy" where
  "demo_policy ipv6 = \<lparr>pol_ipv6 = ipv6, pol_allow = [\<lparr>net_IP = [10, 0, 0, 0], net_Mask = [255, 0, 0, 0]\<rparr>], pol_nat64 = None\<rparr>"

definition demo_fwd :: "bytes \<Rightarrow> (unit, bytes) act" where
  "demo_fwd q s = (Ret [7, 28, 10, 1, 2, 3], s)"

lemma demo_query:
  "p_Start demo_lib [7, 28] = Inr (\<lparr>h_ID = 7, h_Response = False, h_OpCode = 0, h_Truncated = False, h_RecursionDesired = True,
     h_RecursionAvailable = False, h_RCode = 0\<rparr>, [28])"
  "p_Question demo_lib [28] = Inr (\<lparr>q_Name = [], q_Type = TypeAAAA, q_Class = 1\<rparr>, [])"
  by (simp_all add: demo_lib_def TypeAAAA_def)


lemma demo_yields: "yields demo_lib [10, 1, 2, 3] [AAAAResource (v4InV6Prefix @ [10, 1, 2, 3])]"
  by (rule yields_more [where p' = "[]"], simp add: demo_lib_def) (rule yields_end, simp add: demo_lib_def)

theorem resolve_keeps_reachable_ipv6_witness:
  "resolveDNS demo_lib (demo_policy True) demo_fwd [7, 28] () = Some (Ret [7, 28, 10, 1, 2, 3], ())"
proof -
  have a: "p_Start demo_lib [7, 28, 10, 1, 2, 3] = Inr (\<lparr>h_ID = 7, h_Response = False, h_OpCode = 0, h_Truncated = False,
      h_RecursionDesired = True, h_RecursionAvailable = False, h_RCode = 0\<rparr>, [28, 10, 1, 2, 3])"
    "p_SkipAllQuestions demo_lib [28, 10, 1, 2, 3] = Inr [10, 1, 2, 3]" by (simp_all add: demo_lib_def)
  have "aaaa_allowed (demo_policy True) (v4InV6Prefix @ [10, 1, 2, 3])" unfolding demo_policy_def by code_simp
  with resolve_keeps_reachable_ipv6 [where fwd = demo_fwd and pol = "demo_policy True", OF demo_query _ _ _ a demo_yields]
  show ?thesis by (simp add: demo_policy_def demo_fwd_def)
qed

text \<open>A client connection whose bytes come in two segments.\<close>

definition demo_client :: world where
  "demo_client = \<lparr>heap = [0 \<mapsto> RawC \<lparr>segs = [[0], [2, 7, 28, 0, 1, 9]], fin = EOF, werrs = [], deadline = None, dlerr = None\<rparr>],
     dials = [(''tcp'', ''127.0.0.1:53'')], closed = [], wlog = []\<rparr>"

lemma demo_client_simps:
  "ready 0 demo_client" "conn_open 0 demo_client" "conn_stream (w_conn 0 demo_client) = concat (map dns_frame [[7, 28], [9]])"
  "sent_to 0 demo_client = []"
  by (simp_all add: demo_client_def ready_def conn_open_def w_conn_def dns_frame_def be16_def sent_to_def)

definition demo_resolve :: "bytes \<Rightarrow> world \<Rightarrow> (bytes res \<times> world) option" where
  "demo_resolve q w = Some (Ret (q @ [0]), w)"

theorem forwardDNS_leaves_nothing_open_witness:
  "\<exists>x w'. forwardDNS demo_lib (\<lambda>_ _ _. Inl DeadlineExceeded) 0 [7, 28] ''192.0.2.1:53'' demo_client = (x, w') \<and>
    new_open demo_client w' = {}"
proof -
  obtain x w' where r: "forwardDNS demo_lib (\<lambda>_ _ _. Inl DeadlineExceeded) 0 [7, 28] ''192.0.2.1:53'' demo_client = (x, w')"
    by (cases "forwardDNS demo_lib (\<lambda>_ _ _. Inl DeadlineExceeded) 0 [7, 28] ''192.0.2.1:53'' demo_client")
  have "world_ok demo_client" by (simp add: world_ok_def demo_client_def)
  from forwardDNS_leaves_nothing_open [OF this r] r show ?thesis by blast
qed

end
