(* ===== verification/NetStack.thy ===== *)
theory NetStack
  imports UdpAssoc Resolver
begin

text \<open>
  \<^verbatim>\<open>src/network_stack.go\<close>: what wirez does with the connections and packets that gVisor's stack takes from the TUN device. The
  stack itself is third-party code: its request objects, endpoints and text rendering are arguments of the definitions here.
\<close>

section \<open>Addresses of a forwarded connection\<close>

record endpoint_id =
  LocalAddress :: bytes
  LocalPort :: u16
  RemoteAddress :: bytes
  RemotePort :: u16

definition endpointAddress :: "(bytes \<Rightarrow> string) \<Rightarrow> endpoint_id \<Rightarrow> string" where
  "endpointAddress addr_string tid = JoinHostPort (addr_string (LocalAddress tid)) (itoa (unat (LocalPort tid)))"

definition sourceAddress :: "(bytes \<Rightarrow> string) \<Rightarrow> endpoint_id \<Rightarrow> string" where
  "sourceAddress addr_string tid = JoinHostPort (addr_string (RemoteAddress tid)) (itoa (unat (RemotePort tid)))"

text \<open>A \<^verbatim>\<open>tcpip.Error\<close> is its text.\<close>

definition throwTCPIP :: "string option \<Rightarrow> unit res" where
  "throwTCPIP e = (case e of None \<Rightarrow> Ret () | Some t \<Rightarrow> ThrowFmt ''%s'' [t])"

section \<open>Routing table\<close>

text \<open>
  \<^verbatim>\<open>setupRouting\<close>: one route per TUN subnet. \<open>new_subnet\<close> is \<^verbatim>\<open>tcpip.NewSubnet\<close>, on the address and the mask; the four-byte form of
  an IPv4 network is used.
\<close>

record 'n route_entry =
  rt_subnet :: 'n
  rt_nic :: nat

definition defaultNICID :: nat where
  "defaultNICID = 1"

definition setupRouting ::
    "(bytes \<Rightarrow> bytes \<Rightarrow> err + 'n) \<Rightarrow> nat \<Rightarrow> string \<Rightarrow> ('n route_entry list, unit) act" where
  "setupRouting new_subnet nic assignNet rt =
     act_bind (act_lift (Throw3 (ParseCIDR assignNet))) (\<lambda>(_, ipNet).
     let addr = (if To4 (net_IP ipNet) \<noteq> [] then To4 (net_IP ipNet) else To16 (net_IP ipNet)) in
     act_bind (act_lift (Throw2 (new_subnet addr (net_Mask ipNet)))) (\<lambda>subnet rt.
     (Ret (), rt @ [\<lparr>rt_subnet = subnet, rt_nic = nic\<rparr>]))) rt"

section \<open>The handlers\<close>

text \<open>
  A connection as \<^verbatim>\<open>Transport\<close> gets it: with or without a \<^verbatim>\<open>TimeoutConn\<close> around it. The state \<open>'s\<close> holds whatever the connectors and
  gVisor keep; a request's \<^verbatim>\<open>CreateEndpoint\<close> and \<^verbatim>\<open>Complete\<close>, an endpoint's keepalive option and \<^verbatim>\<open>Close\<close>, and the transporter are fields.
\<close>

datatype 'c relayed = Plain 'c | WithTimeout 'c nat

record ('s, 'e) forwarder_request =
  fr_CreateEndpoint :: "'s \<Rightarrow> (string + 'e) \<times> 's"
  fr_Complete :: "bool \<Rightarrow> 's \<Rightarrow> 's"
  fr_SetKeepAlive :: "'e \<Rightarrow> 's \<Rightarrow> 's"
  fr_Close :: "'e \<Rightarrow> 's \<Rightarrow> 's"

record ('s, 'c, 'e) stack_opts =
  so_TCP :: "('s, 'c) connector"
  so_UDP :: "('s, 'c) connector"
  so_Transport :: "'e relayed \<Rightarrow> 'c relayed \<Rightarrow> 's \<Rightarrow> err option \<times> 's"
  so_Close :: "'c \<Rightarrow> 's \<Rightarrow> 's"
  so_ConnectTimeout :: nat
  so_TCPIdleTimeout :: nat
  so_UDPIdleTimeout :: nat

definition handleTCP ::
    "('s, 'c, 'e) stack_opts \<Rightarrow> (bytes \<Rightarrow> string) \<Rightarrow> nat \<Rightarrow> ('s, 'e) forwarder_request \<Rightarrow> endpoint_id \<Rightarrow> ('s, unit) act" where
  "handleTCP opts addr_string now r tid =
     (let cx = \<lparr>ctx_deadline = Some (now + so_ConnectTimeout opts), ctx_udp_source = None\<rparr> in
      act_bind (so_TCP opts cx ''tcp'' (endpointAddress addr_string tid)) (\<lambda>dial.
      case dial of
        Inl _ \<Rightarrow> (\<lambda>s. (Ret (), fr_Complete r True s))
      | Inr dst \<Rightarrow>
          act_finally (so_Close opts dst) (\<lambda>s.
            case fr_CreateEndpoint r s of (ep, s) \<Rightarrow>
            case ep of
              Inl tcpErr \<Rightarrow> act_bind (act_lift (throwTCPIP (Some tcpErr))) (\<lambda>_. act_ret ()) (fr_Complete r True s)
            | Inr ep \<Rightarrow>
                act_finally (fr_Close r ep)
                  (if so_TCPIdleTimeout opts > 0
                   then act_throw (so_Transport opts (WithTimeout ep (so_TCPIdleTimeout opts)) (WithTimeout dst (so_TCPIdleTimeout opts)))
                   else act_throw (so_Transport opts (Plain ep) (Plain dst)))
                  (fr_SetKeepAlive r ep (fr_Complete r False s)))))"

definition handleUDP ::
    "('s, 'c, 'e) stack_opts \<Rightarrow> (bytes \<Rightarrow> string) \<Rightarrow> nat \<Rightarrow> ('e \<Rightarrow> 's \<Rightarrow> 's) \<Rightarrow> 'e \<Rightarrow> endpoint_id \<Rightarrow> ('s, unit) act" where
  "handleUDP opts addr_string now close_local local tid =
     act_finally (close_local local)
       (let cx = \<lparr>ctx_deadline = Some (now + so_ConnectTimeout opts), ctx_udp_source = None\<rparr> in
        act_bind (so_UDP opts (withUDPSource cx (sourceAddress addr_string tid)) ''udp'' (endpointAddress addr_string tid)) (\<lambda>dial.
        case dial of
          Inl _ \<Rightarrow> act_ret ()
        | Inr dst \<Rightarrow>
            act_finally (so_Close opts dst)
              (act_throw (so_Transport opts (WithTimeout local (so_UDPIdleTimeout opts)) (WithTimeout dst (so_UDPIdleTimeout opts))))))"

section \<open>Packet filter\<close>

definition TCPProtocolNumber :: nat where "TCPProtocolNumber = 6"
definition UDPProtocolNumber :: nat where "UDPProtocolNumber = 17"
definition ICMPv4ProtocolNumber :: nat where "ICMPv4ProtocolNumber = 1"
definition ICMPv6ProtocolNumber :: nat where "ICMPv6ProtocolNumber = 58"

text \<open>
  A packet as the filter sees it: the transport protocol of its IP header and the bytes of its transport header. The type of an ICMP
  message is its first byte.
\<close>

record packet =
  pk_protocol :: nat
  pk_transport :: bytes

datatype icmpEchoMatcher = IcmpEcho (v6: bool)

definition icmpEcho_Match :: "icmpEchoMatcher \<Rightarrow> packet \<Rightarrow> bool \<times> bool" where
  "icmpEcho_Match m pkt =
     (let h = pk_transport pkt in
      if v6 m then
        if length h < 8 then (False, False) else (h ! 0 = 128 \<or> h ! 0 = 129, False)
      else
        if length h < 8 then (False, False) else (h ! 0 = 8 \<or> h ! 0 = 0, False))"

datatype ipt_target = AcceptTarget | DropTarget

record rule =
  ru_protocol :: "nat option"
  ru_matchers :: "icmpEchoMatcher list"
  ru_target :: ipt_target

datatype hook = Prerouting | Input | Forward | Output | Postrouting

record table =
  tb_Rules :: "rule list"
  tb_BuiltinChains :: "hook \<Rightarrow> nat"
  tb_Underflows :: "hook \<Rightarrow> nat"

text \<open>The filter table \<^verbatim>\<open>defaultIPTables\<close> installs for each address family.\<close>

definition TCPAllowRuleNum :: nat where "TCPAllowRuleNum = 0"
definition DropRuleNum :: nat where "DropRuleNum = 3"
definition AllowRuleNum :: nat where "AllowRuleNum = 4"

definition filter_table :: "bool \<Rightarrow> table" where
  "filter_table fam_v6 =
     \<lparr>tb_Rules =
        [\<lparr>ru_protocol = Some TCPProtocolNumber, ru_matchers = [], ru_target = AcceptTarget\<rparr>,
         \<lparr>ru_protocol = Some UDPProtocolNumber, ru_matchers = [], ru_target = AcceptTarget\<rparr>,
         \<lparr>ru_protocol = Some (if fam_v6 then ICMPv6ProtocolNumber else ICMPv4ProtocolNumber), ru_matchers = [IcmpEcho fam_v6],
          ru_target = AcceptTarget\<rparr>,
         \<lparr>ru_protocol = None, ru_matchers = [], ru_target = DropTarget\<rparr>,
         \<lparr>ru_protocol = None, ru_matchers = [], ru_target = AcceptTarget\<rparr>],
      tb_BuiltinChains = (\<lambda>h. case h of Postrouting \<Rightarrow> AllowRuleNum | _ \<Rightarrow> TCPAllowRuleNum),
      tb_Underflows = (\<lambda>_. DropRuleNum)\<rparr>"

text \<open>\<^verbatim>\<open>defaultIPTables\<close>: the tables gVisor starts with, the filter table of both families replaced.\<close>

definition defaultIPTables :: "(bool \<Rightarrow> table) \<Rightarrow> bool \<Rightarrow> table" where
  "defaultIPTables defaults = foldl (\<lambda>filters fam. filters(fam := filter_table fam)) defaults [False, True]"

section \<open>The host's side of a forwarded connection\<close>

text \<open>
  To speak of what the handlers do to the host and to the container, the state is the world of \<open>ConnIO\<close> with the list of the calls made on
  gVisor's objects: \<open>er\<close> is what \<^verbatim>\<open>CreateEndpoint\<close> returns, and the relay \<open>tr\<close> uses the destination's connection.
\<close>

datatype gv_event = Created | Completed bool | KeptAlive | Buffered nat | Relayed | LocalClosed

definition on_world :: "(world, 'a) act \<Rightarrow> (world \<times> gv_event list, 'a) act" where
  "on_world m s = (case s of (w, t) \<Rightarrow> case m w of (x, w') \<Rightarrow> (x, (w', t)))"

definition recorded_request :: "string + unit \<Rightarrow> (world \<times> gv_event list, unit) forwarder_request" where
  "recorded_request er =
     \<lparr>fr_CreateEndpoint = (\<lambda>(w, t). (er, (w, t @ [Created]))), fr_Complete = (\<lambda>b (w, t). (w, t @ [Completed b])),
      fr_SetKeepAlive = (\<lambda>_ (w, t). (w, t @ [KeptAlive])), fr_Close = (\<lambda>_ (w, t). (w, t @ [LocalClosed]))\<rparr>"

primrec relayed_conn :: "'c relayed \<Rightarrow> 'c" where
  "relayed_conn (Plain c) = c"
| "relayed_conn (WithTimeout c _) = c"

definition host_opts ::
    "(world, nat) connector \<Rightarrow> (world, nat) connector \<Rightarrow> (nat \<Rightarrow> world \<Rightarrow> err option \<times> world) \<Rightarrow> nat \<Rightarrow> nat \<Rightarrow> nat \<Rightarrow>
     (world \<times> gv_event list, nat, unit) stack_opts" where
  "host_opts tcp udp tr ct ti ui =
     \<lparr>so_TCP = (\<lambda>cx nw a. on_world (tcp cx nw a)), so_UDP = (\<lambda>cx nw a. on_world (udp cx nw a)),
      so_Transport = (\<lambda>_ d (w, t). case tr (relayed_conn d) w of (e, w') \<Rightarrow> (e, (w', t @ [Relayed]))),
      so_Close = (\<lambda>k (w, t). (w_close k w, t)), so_ConnectTimeout = ct, so_TCPIdleTimeout = ti, so_UDPIdleTimeout = ui\<rparr>"

text \<open>The steps of \<^verbatim>\<open>handleTCP\<close> once the destination is dialled.\<close>

lemma handleTCP_recorded:
  assumes "tcp \<lparr>ctx_deadline = Some (now + ct), ctx_udp_source = None\<rparr> ''tcp'' (endpointAddress addr_string tid) w = (y, w1)"
  shows "handleTCP (host_opts tcp udp tr ct ti ui) addr_string now (recorded_request er) tid (w, t) =
    (case y of
       Ret (Inl e) \<Rightarrow> (Ret (), (w1, t @ [Completed True]))
     | Ret (Inr k) \<Rightarrow>
         (case er of
            Inl te \<Rightarrow> (Exc (Fmt ''%s'' [te]), (w_close k w1, t @ [Created, Completed True]))
          | Inr _ \<Rightarrow> (case tr k w1 of (e, w2) \<Rightarrow>
              (Throw e, (w_close k w2, t @ [Created, Completed False, KeptAlive, Relayed, LocalClosed]))))
     | Exc e \<Rightarrow> (Exc e, (w1, t))
     | Pan q \<Rightarrow> (Pan q, (w1, t)))"
  using assms
  by (auto simp: handleTCP_def host_opts_def recorded_request_def on_world_def act_bind_def act_finally_def act_throw_def
      throwTCPIP_def ThrowFmt_def Let_def split: prod.split res.split sum.split)

section \<open>Properties\<close>

text \<open>
  C4: A TCP connection from the container, end to end through the router and the proxy chain. However the dial, gVisor and the relay
  behave: the handler never panics; every connection it made on the host is closed when it is done, and the others are untouched; the client's
  handshake is completed exactly once, after the dial, and is accepted only if the destination was reached and the relay ran; then the
  container's endpoint is closed too. A destination in the TUN subnet is refused without any traffic, and one the policy proxies
  causes no traffic but to the first proxy.
\<close>

theorem handleTCP_end_to_end:
  assumes "e = \<lparr>ep_ip = LocalAddress tid, ep_port = LocalPort tid\<rparr>" and "endpoint_ok e"
    and "addr_string (LocalAddress tid) = ip_string (LocalAddress tid)"
    and "pred_option nat64_prefix nat64" and "buildProxyChain env proxies = Ret (tcp, u)" and "world_ok w"
    and "\<And>k v. act_keeps (touched k v) (act_throw (tr k))"
    and "handleTCP (host_opts (localForwarding_DialContext
           (NewLocalForwardingConnector (NewDirectConnector env) tcp nt bypass tun nat64)) udp tr ct ti ui)
         addr_string now (recorded_request er) tid (w, []) = (x, (w', t))"
  shows "world_ok w' \<and> old_kept w w' \<and> new_open w w' = {} \<and> (\<forall>q. x \<noteq> Pan q) \<and>
    (\<exists>accept. filter (\<lambda>ev. ev \<in> {Completed True, Completed False}) t = [Completed accept] \<and>
      (\<not> accept \<longleftrightarrow> Relayed \<in> set t) \<and> (Relayed \<in> set t \<longleftrightarrow> LocalClosed \<in> set t)) \<and>
    (route_of nt bypass tun nat64 ''tcp'' e = Refused \<longrightarrow> dials w' = dials w \<and> t = [Completed True]) \<and>
    (\<forall>p ps d. proxies = p # ps \<and> route_of nt bypass tun nat64 ''tcp'' e = Proxied d \<longrightarrow>
      dials w' = dials w \<or> dials w' = dials w @ [(''tcp'', pa_Address p)])"
proof -
  let ?c = "NewLocalForwardingConnector (NewDirectConnector env) (through env proxies) nt bypass tun nat64"
  let ?cx = "\<lparr>ctx_deadline = Some (now + ct), ctx_udp_source = None\<rparr>"
  have tcp: "tcp = through env proxies" using assms(5) by (simp add: buildProxyChain_eq)
  have addr: "endpointAddress addr_string tid = render e" using assms(1,3) by (simp add: endpointAddress_def render_def)
  obtain y w1 where d: "localForwarding_DialContext ?c ?cx ''tcp'' (render e) w = (y, w1)"
    by (cases "localForwarding_DialContext ?c ?cx ''tcp'' (render e) w")
  note H = handleTCP_recorded [where tcp = "localForwarding_DialContext ?c", OF d [folded addr], of udp tr ti ui er "[]"]
  note run = assms(8) [unfolded tcp, unfolded H]
  have out: "(route_of nt bypass tun nat64 ''tcp'' e = Refused \<longrightarrow> dials w1 = dials w \<and> (\<exists>e. y = Ret (Inl e))) \<and>
      (\<forall>p ps d. proxies = p # ps \<and> route_of nt bypass tun nat64 ''tcp'' e = Proxied d \<longrightarrow>
        dials w1 = dials w \<or> dials w1 = dials w @ [(''tcp'', pa_Address p)])"
    using router_out [OF assms(2,4,6) d] by (auto simp: asks_for_def chain_entry_def)
  from router_held [OF assms(2,4) held_start [OF assms(6)] d] show ?thesis
  proof (elim disjE exE conjE)
    fix er' assume y: "y = Ret (Inl er')" "held w {} w1"
    with run have "x = Ret ()" "w' = w1" "t = [Completed True]" by auto
    with y out show ?thesis by (auto simp: held_def)
  next
    fix k assume k: "y = Ret (Inr k)" "held w {k} w1"
    have open_k: "conn_open k w1" using held_mem [OF k(2)] by simp
    obtain re w2 where tr: "tr k w1 = (re, w2)" by (cases "tr k w1")
    have "touched k w1 w2" using act_keepsD [OF assms(7) touched_refl [OF open_k], of "Throw re" w2] tr by (simp add: act_throw_def)
    then have h2: "held w {} (w_close k w2)" "dials w2 = dials w1"
      using held_close [OF held_touched [OF k(2)], of k] by (auto simp: touched_def)
    have h1: "held w {} (w_close k w1)" using held_close [OF k(2), of k] by simp
    show ?thesis
    proof (cases er)
      case (Inl te)
      with run k have "x = Exc (Fmt ''%s'' [te])" "w' = w_close k w1" "t = [Created, Completed True]" by auto
      with h1 out k show ?thesis by (auto simp: held_def)
    next
      case (Inr u)
      with run k tr have "x = Throw re" "w' = w_close k w2" "t = [Created, Completed False, KeptAlive, Relayed, LocalClosed]" by auto
      with h2 out k show ?thesis by (cases re) (auto simp: held_def)
    qed
  qed
qed

text \<open>The documented traversal of a table: from the hook's first rule on, the first rule whose protocol and matchers all fit decides.\<close>

definition rule_matches :: "rule \<Rightarrow> packet \<Rightarrow> bool" where
  "rule_matches r pkt \<longleftrightarrow> (case ru_protocol r of None \<Rightarrow> True | Some p \<Rightarrow> pk_protocol pkt = p) \<and>
     list_all (\<lambda>m. fst (icmpEcho_Match m pkt)) (ru_matchers r)"

definition first_match :: "table \<Rightarrow> hook \<Rightarrow> packet \<Rightarrow> ipt_target option" where
  "first_match tb h pkt = map_option ru_target (List.find (\<lambda>r. rule_matches r pkt) (drop (tb_BuiltinChains tb h) (tb_Rules tb)))"

text \<open>An ICMP echo request or reply of the family.\<close>

definition is_echo :: "bool \<Rightarrow> packet \<Rightarrow> bool" where
  "is_echo fam_v6 pkt \<longleftrightarrow> pk_protocol pkt = (if fam_v6 then 58 else 1) \<and> 8 \<le> length (pk_transport pkt) \<and>
     pk_transport pkt ! 0 \<in> (if fam_v6 then {128, 129} else {8, 0})"

text \<open>
  C32: Only TCP, UDP and ping get through. For a stack whose tables are traversed first-match, the tables wirez installs let a packet of either
  family pass the input-side hooks exactly when it is TCP, UDP, or an ICMP echo request or reply of that family, and drop every other
  one; what the stack itself sends is not filtered after routing. What the default tables were does not matter.
\<close>

theorem only_tcp_udp_and_echo_pass:
  assumes "\<And>tb h pkt. check tb h pkt = first_match tb h pkt"
  shows "check (defaultIPTables defaults fam_v6) h pkt =
    Some (if h = Postrouting \<or> pk_protocol pkt \<in> {6, 17} \<or> is_echo fam_v6 pkt then AcceptTarget else DropTarget)"
proof -
  have t: "defaultIPTables defaults fam_v6 = filter_table fam_v6" by (cases fam_v6) (simp_all add: defaultIPTables_def)
  have m: "fst (icmpEcho_Match (IcmpEcho v) pkt) \<longleftrightarrow> 8 \<le> length (pk_transport pkt) \<and>
      pk_transport pkt ! 0 \<in> (if v then {128, 129} else {8, 0})" for v
    by (auto simp: icmpEcho_Match_def Let_def not_le [symmetric])
  show ?thesis
    unfolding assms t first_match_def
    by (cases h; cases fam_v6) (auto simp: filter_table_def rule_matches_def is_echo_def m AllowRuleNum_def TCPAllowRuleNum_def
        TCPProtocolNumber_def UDPProtocolNumber_def ICMPv4ProtocolNumber_def ICMPv6ProtocolNumber_def)
qed

text \<open>
  A UDP flow is dialled in the name of its source. The handler dials the flow's destination with a context that carries the source endpoint,
  which is the key its association is shared under, and bounds the dial by the connect timeout; the container's side is closed whatever happens, the
  destination's whenever it was opened, and both sides of the relay have the idle timeout.
\<close>

lemma handleUDP_names_its_source:
  assumes "so_UDP opts \<lparr>ctx_deadline = Some (now + so_ConnectTimeout opts),
      ctx_udp_source = Some (JoinHostPort (addr_string (RemoteAddress tid)) (itoa (unat (RemotePort tid))))\<rparr>
      ''udp'' (JoinHostPort (addr_string (LocalAddress tid)) (itoa (unat (LocalPort tid)))) s = (Ret dial, s1)"
  shows "handleUDP opts addr_string now close_local local tid s =
    (case dial of
       Inl e \<Rightarrow> (Ret (), close_local local s1)
     | Inr dst \<Rightarrow>
         (case so_Transport opts (WithTimeout local (so_UDPIdleTimeout opts)) (WithTimeout dst (so_UDPIdleTimeout opts)) s1 of
            (e, s2) \<Rightarrow> (Throw e, close_local local (so_Close opts dst s2))))"
  using assms
  by (auto simp: handleUDP_def sourceAddress_def endpointAddress_def withUDPSource_def act_finally_def act_bind_def act_throw_def act_ret_def
      Let_def split: sum.split prod.split)

text \<open>Witnesses.\<close>

definition demo_tid :: endpoint_id where
  "demo_tid = \<lparr>LocalAddress = [198, 51, 100, 7], LocalPort = 22, RemoteAddress = [10, 1, 1, 2], RemotePort = 40000\<rparr>"

theorem handleTCP_end_to_end_witness:
  "\<exists>tcp u x w' t. buildProxyChain demo_net [demo_proxy] = Ret (tcp, u) \<and>
    handleTCP (host_opts (localForwarding_DialContext
        (NewLocalForwardingConnector (NewDirectConnector demo_net) tcp NewAddressMapper [] [] None))
      (NewDirectConnector demo_net) (\<lambda>_ w. (None, w)) 10 0 15) ip_string 0 (recorded_request (Inr ())) demo_tid (demo_world, [])
      = (x, (w', t)) \<and> new_open demo_world w' = {}"
proof -
  let ?e = "\<lparr>ep_ip = LocalAddress demo_tid, ep_port = LocalPort demo_tid\<rparr>"
  have e: "endpoint_ok ?e" by (simp add: endpoint_ok_def demo_tid_def)
  from demo_chain obtain tcp u where c: "buildProxyChain demo_net [demo_proxy] = Ret (tcp, u)" by blast
  let ?run = "handleTCP (host_opts (localForwarding_DialContext
        (NewLocalForwardingConnector (NewDirectConnector demo_net) tcp NewAddressMapper [] [] None))
      (NewDirectConnector demo_net) (\<lambda>_ w. (None, w)) 10 0 15) ip_string 0 (recorded_request (Inr ())) demo_tid (demo_world, [])"
  obtain x w' t where r: "?run = (x, (w', t))" by (cases ?run) auto
  have k: "act_keeps (touched k v) (act_throw (\<lambda>w. (None, w)))" for k v by (simp add: act_keeps_def act_throw_def)
  from handleTCP_end_to_end [where tr = "\<lambda>_ w. (None, w)", OF refl e refl _ c demo_world_ok k r] c r show ?thesis by auto
qed

theorem only_tcp_udp_and_echo_pass_witness:
  "first_match (defaultIPTables (\<lambda>_. filter_table False) False) Input \<lparr>pk_protocol = 1, pk_transport = [3, 0, 0, 0, 0, 0, 0, 0]\<rparr>
     = Some DropTarget"
  using only_tcp_udp_and_echo_pass [of first_match "\<lambda>_. filter_table False" False Input
      "\<lparr>pk_protocol = 1, pk_transport = [3, 0, 0, 0, 0, 0, 0, 0]\<rparr>"]
  by (simp add: is_echo_def)

end
