(* ===== verification/FlagPkg.thy ===== *)
theory FlagPkg
  imports Config
begin

text \<open>
  What the program uses of Go's \<^verbatim>\<open>flag\<close> package, and of \<^verbatim>\<open>strconv\<close> and \<^verbatim>\<open>time\<close> below it: the parser of an argument list, which both halves of the
  program run on their own flags, and the texts of booleans, integers and durations.
\<close>

section \<open>The flag package\<close>

text \<open>\<^verbatim>\<open>strconv.ParseBool\<close>.\<close>

definition ParseBool :: "string \<Rightarrow> err + bool" where
  "ParseBool s =
     (if s \<in> {''1'', ''t'', ''T'', ''TRUE'', ''true'', ''True''} then Inr True
      else if s \<in> {''0'', ''f'', ''F'', ''FALSE'', ''false'', ''False''} then Inr False
      else Inl (Fmt ''parse error'' []))"

text \<open>
  \<^verbatim>\<open>strconv.ParseInt(s, 0, 64)\<close>, as an \<^verbatim>\<open>int\<close> flag uses it: an optional sign, an optional base prefix, and underscores between digits.
\<close>

definition lower_char :: "char \<Rightarrow> nat" where
  "lower_char c = (let n = of_char c in if 65 \<le> n \<and> n \<le> 90 then n + 32 else n)"

definition base_prefix :: "string \<Rightarrow> nat \<times> string" where
  "base_prefix s =
     (if s = [] \<or> hd s \<noteq> CHR ''0'' then (10, s)
      else if 3 \<le> length s \<and> lower_char (s ! 1) = 98 then (2, drop 2 s)
      else if 3 \<le> length s \<and> lower_char (s ! 1) = 111 then (8, drop 2 s)
      else if 3 \<le> length s \<and> lower_char (s ! 1) = 120 then (16, drop 2 s)
      else (8, drop 1 s))"

definition any_digit :: "char \<Rightarrow> nat option" where
  "any_digit c =
     (let n = of_char c; l = lower_char c in
      if 48 \<le> n \<and> n \<le> 57 then Some (n - 48) else if 97 \<le> l \<and> l \<le> 122 then Some (l - 97 + 10) else None)"

fun uint_digits :: "nat \<Rightarrow> nat \<Rightarrow> string \<Rightarrow> err + nat" where
  "uint_digits base n [] = Inr n"
| "uint_digits base n (c # cs) =
     (if c = CHR ''_'' then uint_digits base n cs
      else case any_digit c of
          None \<Rightarrow> Inl (Fmt ''parse error'' [])
        | Some d \<Rightarrow>
            if base \<le> d then Inl (Fmt ''parse error'' [])
            else if 2 ^ 64 - 1 < n * base + d then Inl (Fmt ''value out of range'' [])
            else uint_digits base (n * base + d) cs)"

datatype under_state = Before | AfterDigit | AfterUnderscore | AfterOther

fun underscores_ok :: "bool \<Rightarrow> under_state \<Rightarrow> string \<Rightarrow> bool" where
  "underscores_ok hex st [] \<longleftrightarrow> st \<noteq> AfterUnderscore"
| "underscores_ok hex st (c # cs) \<longleftrightarrow>
     (if is_digit c \<or> hex \<and> 97 \<le> lower_char c \<and> lower_char c \<le> 102 then underscores_ok hex AfterDigit cs
      else if c = CHR ''_'' then st = AfterDigit \<and> underscores_ok hex AfterUnderscore cs
      else st \<noteq> AfterUnderscore \<and> underscores_ok hex AfterOther cs)"

definition underscoreOK :: "string \<Rightarrow> bool" where
  "underscoreOK s =
     (if 2 \<le> length s \<and> hd s = CHR ''0'' \<and> lower_char (s ! 1) \<in> {98, 111, 120}
      then underscores_ok (lower_char (s ! 1) = 120) AfterDigit (drop 2 s)
      else underscores_ok False Before s)"

definition parse_uint0 :: "string \<Rightarrow> err + nat" where
  "parse_uint0 s =
     (if s = [] then Inl (Fmt ''parse error'' [])
      else case base_prefix s of (base, digits) \<Rightarrow>
        case uint_digits base 0 digits of
          Inl e \<Rightarrow> Inl e
        | Inr n \<Rightarrow> if CHR ''_'' \<in> set digits \<and> \<not> underscoreOK s then Inl (Fmt ''parse error'' []) else Inr n)"

definition ParseInt :: "string \<Rightarrow> err + int" where
  "ParseInt s =
     (if s = [] then Inl (Fmt ''parse error'' [])
      else
        let neg = (hd s = CHR ''-''); digits = (if hd s = CHR ''-'' \<or> hd s = CHR ''+'' then tl s else s) in
        case parse_uint0 digits of
          Inl e \<Rightarrow> Inl e
        | Inr n \<Rightarrow>
            if \<not> neg \<and> 2 ^ 63 \<le> n \<or> neg \<and> 2 ^ 63 < n then Inl (Fmt ''value out of range'' [])
            else Inr (if neg then - int n else int n))"

text \<open>
  \<^verbatim>\<open>FlagSet.Parse\<close>: \<open>kind\<close> tells for a defined flag whether it is boolean, \<open>st\<close> is its \<^verbatim>\<open>Set\<close>. The result is the flags and the arguments that
  are left.
\<close>

definition split_value :: "string \<Rightarrow> string \<times> string option" where
  "split_value name =
     (case index_byte CHR ''='' (drop 1 name) of
        None \<Rightarrow> (name, None)
      | Some i \<Rightarrow> (take (Suc i) name, Some (drop (i + 2) name)))"

definition flag_error :: "bool \<Rightarrow> string \<Rightarrow> string \<Rightarrow> err \<Rightarrow> err" where
  "flag_error boolean value name e =
     Wrapped (if boolean then ''invalid boolean value %q for -%s: %v'' else ''invalid value %q for flag -%s: %v'') [value, name] e"

fun flag_parse ::
    "(string \<Rightarrow> bool option) \<Rightarrow> (string \<Rightarrow> string \<Rightarrow> 'f \<Rightarrow> err + 'f) \<Rightarrow> string list \<Rightarrow> 'f \<Rightarrow> err + 'f \<times> string list" where
  "flag_parse kind st [] f = Inr (f, [])"
| "flag_parse kind st (s # args) f =
     (if length s < 2 \<or> hd s \<noteq> CHR ''-'' then Inr (f, s # args)
      else if s = ''--'' then Inr (f, args)
      else
        let name = drop (if s ! 1 = CHR ''-'' then 2 else 1) s in
        if hd name = CHR ''-'' \<or> hd name = CHR ''='' then Inl (Fmt ''bad flag syntax: %s'' [s])
        else
          case split_value name of (name, value) \<Rightarrow>
            (case kind name of
               None \<Rightarrow>
                 Inl (if name = ''help'' \<or> name = ''h'' then Fmt ''flag: help requested'' []
                      else Fmt ''flag provided but not defined: -%s'' [name])
             | Some True \<Rightarrow>
                 (let v = (case value of None \<Rightarrow> ''true'' | Some v \<Rightarrow> v) in
                  case st name v f of Inl e \<Rightarrow> Inl (flag_error True v name e) | Inr f' \<Rightarrow> flag_parse kind st args f')
             | Some False \<Rightarrow>
                 (case value of
                    Some v \<Rightarrow>
                      (case st name v f of Inl e \<Rightarrow> Inl (flag_error False v name e) | Inr f' \<Rightarrow> flag_parse kind st args f')
                  | None \<Rightarrow>
                      (case args of
                         [] \<Rightarrow> Inl (Fmt ''flag needs an argument: -%s'' [name])
                       | v # args' \<Rightarrow>
                           (case st name v f of
                              Inl e \<Rightarrow> Inl (flag_error False v name e)
                            | Inr f' \<Rightarrow> flag_parse kind st args' f')))))"

section \<open>Durations\<close>

text \<open>
  \<^verbatim>\<open>time.ParseDuration\<close>, in nanoseconds. A value is a sequence of decimal numbers with a unit; \<^verbatim>\<open>leadingInt\<close> and \<^verbatim>\<open>leadingFraction\<close> read the digits before
  and after the period, with their overflow checks. The digits after the period are scaled in floating point; \<open>frac f unit digits\<close> stands for
  that product, \<^verbatim>\<open>uint64(float64(f) * (float64(unit) / 10^digits))\<close>.
\<close>

fun leadingInt :: "nat \<Rightarrow> string \<Rightarrow> (nat \<times> string) option" where
  "leadingInt x [] = Some (x, [])"
| "leadingInt x (c # cs) =
     (if \<not> is_digit c then Some (x, c # cs)
      else if 2 ^ 63 div 10 < x then None
      else let y = x * 10 + digit_val c in if 2 ^ 63 < y then None else leadingInt y cs)"

fun leadingFraction :: "bool \<Rightarrow> nat \<Rightarrow> nat \<Rightarrow> string \<Rightarrow> nat \<times> nat \<times> string" where
  "leadingFraction overflow x digits [] = (x, digits, [])"
| "leadingFraction overflow x digits (c # cs) =
     (if \<not> is_digit c then (x, digits, c # cs)
      else if overflow \<or> (2 ^ 63 - 1) div 10 < x \<or> 2 ^ 63 < x * 10 + digit_val c then leadingFraction True x digits cs
      else leadingFraction False (x * 10 + digit_val c) (Suc digits) cs)"

definition unit_of :: "string \<Rightarrow> nat option" where
  "unit_of u =
     (if u = ''ns'' then Some 1
      else if u \<in> {''us'', map char_of [0xC2, 0xB5, 0x73 :: nat], map char_of [0xCE, 0xBC, 0x73 :: nat]} then Some (10 ^ 3)
      else if u = ''ms'' then Some (10 ^ 6)
      else if u = ''s'' then Some (10 ^ 9)
      else if u = ''m'' then Some (60 * 10 ^ 9)
      else if u = ''h'' then Some (3600 * 10 ^ 9)
      else None)"

definition not_unit :: "char \<Rightarrow> bool" where
  "not_unit c \<longleftrightarrow> c = CHR ''.'' \<or> is_digit c"

text \<open>One number with its unit: the nanoseconds and the rest.\<close>

definition duration_part :: "(nat \<Rightarrow> nat \<Rightarrow> nat \<Rightarrow> nat) \<Rightarrow> string \<Rightarrow> (nat \<times> string) option" where
  "duration_part frac s =
     (if s = [] \<or> \<not> not_unit (hd s) then None
      else case leadingInt 0 s of
          None \<Rightarrow> None
        | Some (v, s1) \<Rightarrow>
            (case (if s1 \<noteq> [] \<and> hd s1 = CHR ''.'' then leadingFraction False 0 0 (tl s1) else (0, 0, s1)) of (f, digits, s2) \<Rightarrow>
             let pre = (length s1 \<noteq> length s); post = (s1 \<noteq> [] \<and> hd s1 = CHR ''.'' \<and> length s2 \<noteq> length (tl s1));
                 u = takeWhile (\<lambda>c. \<not> not_unit c) s2; rest = dropWhile (\<lambda>c. \<not> not_unit c) s2
             in if \<not> pre \<and> \<not> post \<or> u = [] then None
                else case unit_of u of
                    None \<Rightarrow> None
                  | Some unit \<Rightarrow>
                      if 2 ^ 63 div unit < v then None
                      else let w = v * unit + (if 0 < f then frac f unit digits else 0) in
                        if 0 < f \<and> 2 ^ 63 < w then None else Some (w, rest)))"

text \<open>The loop takes at least one character in each round, so the length of the text bounds it.\<close>

fun duration_loop :: "(nat \<Rightarrow> nat \<Rightarrow> nat \<Rightarrow> nat) \<Rightarrow> nat \<Rightarrow> nat \<Rightarrow> string \<Rightarrow> nat option" where
  "duration_loop frac fuel d [] = Some d"
| "duration_loop frac 0 d (c # cs) = None"
| "duration_loop frac (Suc fuel) d (c # cs) =
     (case duration_part frac (c # cs) of
        None \<Rightarrow> None
      | Some (v, rest) \<Rightarrow>
          let d' = (d + v) mod 2 ^ 64 in if 2 ^ 63 < d' then None else duration_loop frac fuel d' rest)"

definition ParseDuration :: "(nat \<Rightarrow> nat \<Rightarrow> nat \<Rightarrow> nat) \<Rightarrow> string \<Rightarrow> int option" where
  "ParseDuration frac orig =
     (let neg = (orig \<noteq> [] \<and> hd orig = CHR ''-'');
          s = (if orig \<noteq> [] \<and> (hd orig = CHR ''-'' \<or> hd orig = CHR ''+'') then tl orig else orig)
      in if s = ''0'' then Some 0
         else if s = [] then None
         else case duration_loop frac (length s) 0 s of
             None \<Rightarrow> None
           | Some d \<Rightarrow> if neg then Some (- int d) else if 2 ^ 63 - 1 < d then None else Some (int d))"

text \<open>\<^verbatim>\<open>%t\<close> and \<^verbatim>\<open>strconv.Itoa\<close>.\<close>

definition fmt_bool :: "bool \<Rightarrow> string" where
  "fmt_bool b = (if b then ''true'' else ''false'')"

definition itoa_int :: "int \<Rightarrow> string" where
  "itoa_int n = (if n < 0 then ''-'' @ itoa (nat (- n)) else itoa (nat n))"

section \<open>Lemmas: numbers\<close>

lemma of_digit_char: "d < 10 \<Longrightarrow> (of_char (digit_char d) :: nat) = 48 + d"
  by (simp add: digit_char_def)

lemma any_digit_digit:
  assumes "d < 10"
  shows "any_digit (digit_char d) = Some d" "digit_char d \<noteq> CHR ''_''" "digit_char d \<noteq> CHR ''-''" "digit_char d \<noteq> CHR ''+''"
    "digit_char d = CHR ''0'' \<longleftrightarrow> d = 0"
proof -
  note n = of_digit_char [OF assms]
  show "any_digit (digit_char d) = Some d" using assms by (simp add: any_digit_def Let_def n)
  have ne: "digit_char d \<noteq> c" if "(of_char c :: nat) < 48 \<or> 57 < (of_char c :: nat)" for c using n assms that by auto
  show "digit_char d \<noteq> CHR ''_''" "digit_char d \<noteq> CHR ''-''" "digit_char d \<noteq> CHR ''+''" by (rule ne, simp)+
  have "digit_char d = CHR ''0'' \<longleftrightarrow> (of_char (digit_char d) :: nat) = of_char (CHR ''0'')" by (simp only: of_char_eq_iff)
  also have "\<dots> \<longleftrightarrow> d = 0" unfolding n by simp
  finally show "digit_char d = CHR ''0'' \<longleftrightarrow> d = 0" .
qed

lemma uint_digits_append: "uint_digits b n xs = Inr m \<Longrightarrow> uint_digits b n (xs @ ys) = uint_digits b m ys"
  by (induction b n xs rule: uint_digits.induct) (auto split: if_splits option.splits)

lemma uint_digits_itoa: "n < 2 ^ 64 \<Longrightarrow> uint_digits 10 0 (itoa n) = Inr n"
proof (induction n rule: itoa.induct)
  case (1 n)
  show ?case
  proof (cases "n < 10")
    case True
    then show ?thesis using any_digit_digit [of n] by (simp add: itoa.simps [of n])
  next
    case False
    then have "uint_digits 10 0 (itoa (n div 10)) = Inr (n div 10)" using 1 by simp
    from uint_digits_append [OF this] False any_digit_digit [of "n mod 10"] 1(2) show ?thesis by (simp add: itoa.simps [of n])
  qed
qed

lemma itoa_hd: "itoa n \<noteq> [] \<and> hd (itoa n) = digit_char (n div 10 ^ (length (itoa n) - 1)) \<and> (0 < n \<longrightarrow> 0 < n div 10 ^ (length (itoa n) - 1))
    \<and> n div 10 ^ (length (itoa n) - 1) < 10"
proof (induction n rule: itoa.induct)
  case (1 n)
  show ?case
  proof (cases "n < 10")
    case False
    then obtain k where "length (itoa (n div 10)) = Suc k" using 1 by (cases "length (itoa (n div 10))") auto
    with 1 False show ?thesis by (auto simp: itoa.simps [of n] div_mult2_eq)
  qed (simp add: itoa.simps [of n])
qed

lemma itoa_no_underscore: "CHR ''_'' \<notin> set (itoa n)"
proof (induction n rule: itoa.induct)
  case (1 n)
  with any_digit_digit [of n] any_digit_digit [of "n mod 10"] show ?case by (cases "n < 10") (auto simp: itoa.simps [of n])
qed

lemma ParseInt_itoa:
  assumes "0 \<le> n" "n < 2 ^ 63"
  shows "ParseInt (itoa_int n) = Inr n"
proof -
  let ?m = "nat n"
  have m: "?m < 2 ^ 63" using assms by (simp add: nat_less_iff)
  have ne: "itoa ?m \<noteq> []" and hd: "hd (itoa ?m) \<noteq> CHR ''-''" "hd (itoa ?m) \<noteq> CHR ''+''"
    using itoa_hd [of ?m] any_digit_digit by auto
  have u: "parse_uint0 (itoa ?m) = Inr ?m"
  proof (cases "?m = 0")
    case True
    have "itoa 0 = ''0''" using any_digit_digit(5) [of 0] by (simp add: itoa.simps)
    with True show ?thesis by (simp add: parse_uint0_def base_prefix_def)
  next
    case False
    then have "hd (itoa ?m) \<noteq> CHR ''0''" using itoa_hd [of ?m] any_digit_digit(5) by auto
    with ne uint_digits_itoa [of ?m] m itoa_no_underscore show ?thesis by (simp add: parse_uint0_def base_prefix_def)
  qed
  from assms have "itoa_int n = itoa ?m" by (simp add: itoa_int_def)
  with ne hd u m assms show ?thesis by (simp add: ParseInt_def Let_def)
qed

section \<open>Lemmas: one flag at a time\<close>

text \<open>A name that stands for itself on the command line.\<close>

definition flag_name :: "string \<Rightarrow> bool" where
  "flag_name name \<longleftrightarrow> name \<noteq> [] \<and> CHR ''='' \<notin> set name \<and> hd name \<noteq> CHR ''-''"

lemma flag_nameD: "flag_name name \<Longrightarrow> hd name \<noteq> CHR ''='' \<and> CHR ''='' \<notin> set (drop 1 name)"
  by (cases name) (auto simp: flag_name_def)

lemma split_value_name: "flag_name name \<Longrightarrow> split_value name = (name, None)"
  using flag_nameD [of name] by (simp add: split_value_def index_byte_none)

lemma split_value_eq:
  assumes "flag_name name"
  shows "split_value (name @ CHR ''='' # v) = (name, Some v)"
proof -
  obtain c cs where n: "name = c # cs" using assms by (cases name) (auto simp: flag_name_def)
  then have "CHR ''='' \<notin> set cs" using flag_nameD [OF assms] by simp
  then have "index_byte CHR ''='' (cs @ CHR ''='' # v) = Some (length cs)" by (rule index_byte_first)
  with n show ?thesis by (simp add: split_value_def)
qed

lemma dashed:
  assumes "flag_name name"
  shows "\<not> length (CHR ''-'' # name @ r) < 2" "CHR ''-'' # name @ r \<noteq> ''--''" "(CHR ''-'' # name @ r) ! 1 \<noteq> CHR ''-''"
    "hd (name @ r) \<noteq> CHR ''-''" "hd (name @ r) \<noteq> CHR ''=''"
  using assms flag_nameD [OF assms] by (cases name; auto simp: flag_name_def)+

lemma flag_parse_value:
  assumes "flag_name name" "kind name = Some False"
  shows "flag_parse kind st ((CHR ''-'' # name) # v # args) f =
    (case st name v f of Inl e \<Rightarrow> Inl (flag_error False v name e) | Inr f' \<Rightarrow> flag_parse kind st args f')"
  using dashed [OF assms(1), of "[]"] assms(2) by (simp add: Let_def split_value_name [OF assms(1)])

lemma flag_parse_switch:
  assumes "flag_name name" "kind name = Some True"
  shows "flag_parse kind st ((CHR ''-'' # name) # args) f =
    (case st name ''true'' f of Inl e \<Rightarrow> Inl (flag_error True ''true'' name e) | Inr f' \<Rightarrow> flag_parse kind st args f')"
  using dashed [OF assms(1), of "[]"] assms(2) by (simp add: Let_def split_value_name [OF assms(1)] split: sum.split)

lemma flag_parse_bool:
  assumes "flag_name name" "kind name = Some True"
  shows "flag_parse kind st ((CHR ''-'' # name @ CHR ''='' # v) # args) f =
    (case st name v f of Inl e \<Rightarrow> Inl (flag_error True v name e) | Inr f' \<Rightarrow> flag_parse kind st args f')"
  using dashed [OF assms(1), of "CHR ''='' # v"] assms(2) by (simp add: Let_def split_value_eq [OF assms(1)] split: sum.split)

text \<open>Where the flags end: at the command, or at the separator.\<close>

definition is_command :: "string list \<Rightarrow> bool" where
  "is_command args \<longleftrightarrow> (case args of [] \<Rightarrow> True | s # _ \<Rightarrow> length s < 2 \<or> hd s \<noteq> CHR ''-'')"

lemma flag_parse_command: "is_command args \<Longrightarrow> flag_parse kind st args f = Inr (f, args)"
  by (cases args) (auto simp: is_command_def)

lemma flag_parse_separator: "flag_parse kind st (''--'' # args) f = Inr (f, args)"
  by simp

text \<open>A flag that may be repeated adds its values in order.\<close>

lemma flag_parse_repeated:
  assumes "flag_name name" "kind name = Some False" "\<And>v f. st name v f = Inr (add v f)"
  shows "flag_parse kind st (concat (map (\<lambda>v. [CHR ''-'' # name, v]) vs) @ args) f = flag_parse kind st args (fold add vs f)"
  by (induction vs arbitrary: f) (simp_all del: flag_parse.simps add: flag_parse_value [where kind = kind and st = st, OF assms(1,2)] assms(3))

lemma flag_parse_counted:
  assumes "flag_name name" "kind name = Some True" "\<And>f. st name ''true'' f = Inr (inc f)"
  shows "flag_parse kind st (replicate n (CHR ''-'' # name) @ args) f = flag_parse kind st args ((inc ^^ n) f)"
  by (induction n arbitrary: f) (simp_all del: flag_parse.simps add: flag_parse_switch [where kind = kind and st = st, OF assms(1,2)] assms(3) funpow_swap1)

lemma ParseBool_fmt: "ParseBool (fmt_bool b) = Inr b"
  by (simp add: fmt_bool_def ParseBool_def)


declare flag_parse.simps(2) [simp del]

text \<open>A duration in nanoseconds is read back.\<close>

lemma leadingInt_digit:
  "m < 10 \<Longrightarrow> x * 10 + m \<le> 2 ^ 63 \<Longrightarrow> leadingInt x (digit_char m # cs) = leadingInt (x * 10 + m) cs"
  by (simp add: Let_def)

lemma leadingInt_itoa: "n < 2 ^ 63 \<Longrightarrow> leadingInt 0 (itoa n @ r) = leadingInt n r"
proof (induction n arbitrary: r rule: itoa.induct)
  case (1 n)
  show ?case
  proof (cases "n < 10")
    case True
    with leadingInt_digit [of n 0 r] show ?thesis by (simp add: itoa.simps [of n])
  next
    case False
    have "leadingInt 0 (itoa n @ r) = leadingInt 0 (itoa (n div 10) @ digit_char (n mod 10) # r)"
      using False by (simp add: itoa.simps [of n])
    also have "\<dots> = leadingInt (n div 10) (digit_char (n mod 10) # r)"
      using 1 False by simp
    also have "\<dots> = leadingInt n r"
      using "1.prems" by (subst leadingInt_digit) simp_all
    finally show ?thesis .
  qed
qed

definition duration_text :: "int \<Rightarrow> string" where
  "duration_text d = itoa (nat d) @ ''ns''"

lemma ParseDuration_text:
  assumes "0 \<le> d" "d < 2 ^ 63"
  shows "ParseDuration frac (duration_text d) = Some d"
proof -
  let ?n = "nat d"
  have n: "?n < 2 ^ 63" using assms by (simp add: nat_less_iff)
  have ne: "itoa ?n \<noteq> []" and dg: "is_digit (hd (itoa ?n))"
    using itoa_nonempty [of ?n] itoa_digits [of "hd (itoa ?n)" ?n] by auto
  then have sign: "hd (itoa ?n) \<noteq> CHR ''-''" "hd (itoa ?n) \<noteq> CHR ''+''" by (auto simp: is_digit_def)
  have li: "leadingInt 0 (itoa ?n @ ''ns'') = Some (?n, ''ns'')"
    using leadingInt_itoa [OF n, of "''ns''"] by (simp add: is_digit_def)
  have u: "not_unit CHR ''n'' = False" "not_unit CHR ''s'' = False" by (simp_all add: not_unit_def is_digit_def)
  have part: "duration_part frac (itoa ?n @ ''ns'') = Some (?n, [])"
    using n ne dg by (simp add: duration_part_def li Let_def u unit_of_def not_unit_def [of "hd (itoa ?n)"])
  have "duration_loop frac (length (itoa ?n @ ''ns'')) 0 (itoa ?n @ ''ns'') = Some ?n"
  proof -
    obtain c cs where c: "itoa ?n @ ''ns'' = c # cs" by (cases "itoa ?n @ ''ns''") auto
    show ?thesis using part n unfolding c by (simp add: Let_def)
  qed
  moreover have "itoa ?n @ ''ns'' \<noteq> ''0''" by (cases "itoa ?n") auto
  ultimately show ?thesis
    using ne sign n assms by (simp add: ParseDuration_def duration_text_def Let_def)
qed

end
