(* ===== verification/Container.thy ===== *)
theory Container
  imports FlagPkg
begin

text \<open>
  The container process of \<^verbatim>\<open>src/run_container.go\<close> and the exit status of \<^verbatim>\<open>src/root.go\<close>: the command line that carries the parent's choices to
  the child and back, the files the container sees instead of the host's, and what the program reports when it ends. Namespaces, mounts and
  netlink calls are the kernel's and are not modelled; their order with the control messages is in \<open>Run\<close>.
\<close>

section \<open>The child's command line\<close>

record runcFlags =
  rc_hostname :: string
  rc_pipeFd :: int
  rc_uid :: int
  rc_gid :: int
  rc_privileged :: bool
  rc_dns :: bool
  rc_ipv6 :: bool

definition runc_defaults :: "int \<Rightarrow> int \<Rightarrow> runcFlags" where
  "runc_defaults euid egid =
     \<lparr>rc_hostname = ''wirez'', rc_pipeFd = 0, rc_uid = euid, rc_gid = egid, rc_privileged = False, rc_dns = False, rc_ipv6 = False\<rparr>"

definition runc_kind :: "string \<Rightarrow> bool option" where
  "runc_kind name =
     (if name \<in> {''privileged'', ''dns'', ''ipv6''} then Some True
      else if name \<in> {''hostname'', ''unix-fd'', ''uid'', ''gid''} then Some False
      else None)"

definition runc_set :: "string \<Rightarrow> string \<Rightarrow> runcFlags \<Rightarrow> err + runcFlags" where
  "runc_set name v f =
     (if name = ''hostname'' then Inr (f\<lparr>rc_hostname := v\<rparr>)
      else if name \<in> {''unix-fd'', ''uid'', ''gid''} then
        (case ParseInt v of
           Inl e \<Rightarrow> Inl e
         | Inr n \<Rightarrow> Inr (if name = ''unix-fd'' then f\<lparr>rc_pipeFd := n\<rparr> else if name = ''uid'' then f\<lparr>rc_uid := n\<rparr> else f\<lparr>rc_gid := n\<rparr>))
      else
        (case ParseBool v of
           Inl e \<Rightarrow> Inl e
         | Inr b \<Rightarrow> Inr (if name = ''privileged'' then f\<lparr>rc_privileged := b\<rparr> else if name = ''dns'' then f\<lparr>rc_dns := b\<rparr> else f\<lparr>rc_ipv6 := b\<rparr>)))"

text \<open>The flags and the command \<^verbatim>\<open>runContainer\<close> starts from.\<close>

definition runc_parse :: "int \<Rightarrow> int \<Rightarrow> string list \<Rightarrow> (runcFlags \<times> string list) res" where
  "runc_parse euid egid args = Throw2 (flag_parse runc_kind runc_set args (runc_defaults euid egid))"

text \<open>The arguments \<^verbatim>\<open>runRun\<close> of \<^verbatim>\<open>src/run.go\<close> gives the child after \<^verbatim>\<open>runc\<close>.\<close>

definition runc_args :: "bool \<Rightarrow> bool \<Rightarrow> bool \<Rightarrow> string \<Rightarrow> int \<Rightarrow> int \<Rightarrow> string list \<Rightarrow> string list" where
  "runc_args privileged useDNS ipv6 hostname uid gid cmdArgs =
     [''-unix-fd'', ''3'', ''-privileged='' @ fmt_bool privileged, ''-dns='' @ fmt_bool useDNS, ''-ipv6='' @ fmt_bool ipv6,
      ''-hostname'', hostname, ''-uid'', itoa_int uid, ''-gid'', itoa_int gid, ''--''] @ cmdArgs"

text \<open>Starting the command: with no command left there is no first argument to take.\<close>

definition runc_command :: "string list \<Rightarrow> (string \<times> string list) res" where
  "runc_command cmdArgs = res_bind (index 0 cmdArgs) (\<lambda>name. res_bind (slice 1 (length cmdArgs) cmdArgs) (\<lambda>args. Ret (name, args)))"

record id_map =
  ContainerID :: int
  HostID :: int

record sys_attr =
  at_newuser :: bool
  at_credential :: "(32 word \<times> 32 word) option"
  at_uidMappings :: "id_map list"
  at_gidMappings :: "id_map list"

definition runc_sys_attr :: "runcFlags \<Rightarrow> int \<Rightarrow> int \<Rightarrow> sys_attr" where
  "runc_sys_attr f euid egid =
     (if rc_privileged f then
        \<lparr>at_newuser = False, at_credential = Some (word_of_int (rc_uid f), word_of_int (rc_gid f)), at_uidMappings = [], at_gidMappings = []\<rparr>
      else if rc_uid f \<noteq> 0 then
        \<lparr>at_newuser = True, at_credential = Some (word_of_int (rc_uid f), word_of_int (rc_gid f)),
         at_uidMappings = [\<lparr>ContainerID = rc_uid f, HostID = euid\<rparr>], at_gidMappings = [\<lparr>ContainerID = rc_gid f, HostID = egid\<rparr>]\<rparr>
      else \<lparr>at_newuser = False, at_credential = None, at_uidMappings = [], at_gidMappings = []\<rparr>)"

section \<open>The container's files\<close>

definition tunNetworkAddr :: string where
  "tunNetworkAddr = ''10.1.1.1/24''"

definition tunNetworkAddrV6 :: string where
  "tunNetworkAddrV6 = ''2001:db8:1:1::1/64''"

definition tunPeerAddr :: "bytes res" where
  "tunPeerAddr =
     res_bind (Throw3 (ParseCIDR tunNetworkAddr)) (\<lambda>(ip, _).
     let ip = To4 ip in res_bind (index 3 ip) (\<lambda>b. Ret (ip[3 := b + 1])))"

definition newline :: string where
  "newline = [CHR 0x0A]"

definition keeps_line :: "string list \<Rightarrow> bool" where
  "keeps_line fs \<longleftrightarrow> fs \<noteq> [] \<and> hd fs \<in> {''search'', ''domain'', ''options'', ''sortlist''}"

definition resolvConfContent :: "bool \<Rightarrow> string \<Rightarrow> string res" where
  "resolvConfContent dns hostResolv =
     res_bind (if dns then Ret ''127.0.0.1'' else res_bind tunPeerAddr (\<lambda>ip. Ret (ip_string ip))) (\<lambda>nameserver.
     Ret (''nameserver '' @ nameserver @ newline @
       concat (map (\<lambda>fs. join_with '' '' fs @ newline) (filter keeps_line (map string_fields (split_on CHR 0x0A hostResolv))))))"

definition hostsContent :: "string \<Rightarrow> string \<Rightarrow> string res" where
  "hostsContent hostname hostHosts =
     res_bind tunPeerAddr (\<lambda>peer.
     let fqdn = hostname @ '' '' @ hostname @ ''.localdomain'';
         own = ''127.0.0.1 localhost'' @ newline @ ''::1 localhost'' @ newline @ ip_string peer @ '' localhost'' @ newline @
               ''127.0.0.1 '' @ fqdn @ newline @ ''::1 '' @ fqdn @ newline;
         hosts = trim_right CHR 0x0A hostHosts
     in Ret (if hosts = '''' then own else hosts @ newline @ own))"

text \<open>What \<^verbatim>\<open>allowPing\<close> writes: a range of one group.\<close>

definition allowPing_content :: "int \<Rightarrow> string" where
  "allowPing_content gid = itoa_int gid @ '' '' @ itoa_int gid @ newline"

section \<open>Privileges and exit status\<close>

text \<open>\<^verbatim>\<open>isInitialUserNamespaceRoot\<close> of \<^verbatim>\<open>src/run.go\<close>, on the effective uid and the contents of the uid map, if it can be read.\<close>

definition isInitialUserNamespaceRoot :: "int \<Rightarrow> string option \<Rightarrow> bool" where
  "isInitialUserNamespaceRoot euid uid_map \<longleftrightarrow>
     euid = 0 \<and>
     (case uid_map of
        None \<Rightarrow> False
      | Some data \<Rightarrow>
          (let fs = string_fields data in
           if length fs < 3 then False
           else
             case (parse_uint (fs ! 0) 64, parse_uint (fs ! 1) 64, parse_uint (fs ! 2) 64) of
               (Inr containerID, Inr hostID, Inr sz) \<Rightarrow> containerID = 0 \<and> hostID = 0 \<and> 1 < sz
             | _ \<Rightarrow> False))"

definition exitCode :: "wait_status \<Rightarrow> int" where
  "exitCode st = (case st of Signaled sig \<Rightarrow> 128 + int sig | Exited n \<Rightarrow> n)"

text \<open>\<^verbatim>\<open>main\<close>: the status of the process, given its arguments and how the command they select ends. A run-time panic is status 2.\<close>

definition main_status :: "string list \<Rightarrow> (string list \<Rightarrow> unit res) \<Rightarrow> (string list \<Rightarrow> unit res) \<Rightarrow> int" where
  "main_status argv runContainer runRun =
     (if length argv < 2 then 1
      else case Try (if argv ! 1 = ''runc'' then runContainer (drop 2 argv) else runRun (drop 1 argv)) of
          Ret (Inl e) \<Rightarrow> (case as_exit e of Some st \<Rightarrow> exitCode st | None \<Rightarrow> 1)
        | Ret (Inr _) \<Rightarrow> 0
        | Exc e \<Rightarrow> 2
        | Pan q \<Rightarrow> 2)"

section \<open>Words of a line\<close>

lemma space_len_take: "space_len xs = 0 \<Longrightarrow> space_len (take n xs) = 0"
  by (cases xs; cases "tl xs"; cases "tl (tl xs)"; cases n; cases "n - 1"; cases "n - 2") (auto simp: Let_def split: if_splits)

lemma space_len_blank: "t \<noteq> [] \<Longrightarrow> space_len t = 0 \<Longrightarrow> space_len (t @ CHR '' '' # r) = 0"
  by (cases t; cases "tl t"; cases "tl (tl t)"; cases r) (auto simp: Let_def split: if_splits)

definition is_word :: "string \<Rightarrow> bool" where
  "is_word f \<longleftrightarrow> f \<noteq> [] \<and> (\<forall>i < length f. space_len (drop i f) = 0)"

lemma is_word_no_newline: "is_word f \<Longrightarrow> CHR 0x0A \<notin> set f"
proof
  assume f: "is_word f" "CHR 0x0A \<in> set f"
  then obtain i where "i < length f" "f ! i = CHR 0x0A" by (auto simp: in_set_conv_nth)
  then have "drop i f = CHR 0x0A # drop (Suc i) f" by (metis Cons_nth_drop_Suc)
  moreover have "space_len (drop i f) = 0" using f(1) \<open>i < length f\<close> by (simp add: is_word_def)
  ultimately show False by (simp add: Let_def)
qed

lemma fields_loop_words:
  "(skip = 0 \<longrightarrow> (\<forall>i < length cur. space_len (drop i cur @ s) = 0)) \<Longrightarrow> (0 < skip \<longrightarrow> cur = []) \<Longrightarrow>
     f \<in> set (fields_loop skip cur s) \<Longrightarrow> is_word f"
proof (induction skip cur s arbitrary: f rule: fields_loop.induct)
  case (1 skip cur)
  then show ?case by (cases skip) (auto simp: is_word_def split: if_splits)
next
  case (2 skip cur c cs)
  then show ?case by auto
next
  case (3 cur c cs)
  show ?case
  proof (cases "space_len (c # cs)")
    case 0
    have "\<forall>i < length (cur @ [c]). space_len (drop i (cur @ [c]) @ cs) = 0"
    proof (intro allI impI)
      fix i assume "i < length (cur @ [c])"
      then consider "i < length cur" | "i = length cur" by fastforce
      then show "space_len (drop i (cur @ [c]) @ cs) = 0"
      proof cases
        case 1
        with 3(3) show ?thesis by simp
      qed (use 0 in simp)
    qed
    with 3(1) [OF 0, of f] 3(5) 0 show ?thesis by simp
  next
    case (Suc k)
    have "is_word cur" if "cur \<noteq> []"
      unfolding is_word_def
    proof (intro conjI allI impI)
      fix i assume "i < length cur"
      with 3(3) have "space_len (drop i cur @ c # cs) = 0" by simp
      from space_len_take [OF this, of "length (drop i cur)"] show "space_len (drop i cur) = 0" by simp
    qed (rule that)
    with 3(2) [OF Suc, of f] 3(5) Suc show ?thesis by (auto split: if_splits)
  qed
qed

lemma string_fields_words: "f \<in> set (string_fields s) \<Longrightarrow> is_word f"
  unfolding string_fields_def by (rule fields_loop_words [of 0 "[]" s]) auto

lemma fields_loop_word: "\<forall>i < length f. space_len (drop i f @ r) = 0 \<Longrightarrow> fields_loop 0 cur (f @ r) = fields_loop 0 (cur @ f) r"
proof (induction f arbitrary: cur)
  case (Cons c f)
  have "space_len (c # f @ r) = 0" using Cons.prems by (metis append_Cons drop0 length_greater_0_conv list.discI)
  moreover have "\<forall>i < length f. space_len (drop i f @ r) = 0" using Cons.prems by (metis Suc_less_eq drop_Suc_Cons length_Cons)
  ultimately show ?case using Cons.IH [of "cur @ [c]"] by simp
qed simp

lemma fields_word_blank:
  assumes "is_word f"
  shows "fields_loop 0 [] (f @ CHR '' '' # r) = f # fields_loop 0 [] r"
proof -
  have "\<forall>i < length f. space_len (drop i f @ CHR '' '' # r) = 0" using assms by (auto simp: is_word_def intro!: space_len_blank)
  from fields_loop_word [OF this, of "[]"] assms show ?thesis by (simp add: is_word_def Let_def)
qed

lemma fields_join: "\<forall>f \<in> set fs. is_word f \<Longrightarrow> string_fields (join_with '' '' fs) = fs"
proof (induction "'' ''" fs rule: join_with.induct)
  case (2 x)
  then show ?case using fields_loop_word [of x "[]" "[]"] by (simp add: string_fields_def is_word_def)
next
  case (3 x y ys)
  then show ?case using fields_word_blank [of x "join_with '' '' (y # ys)"] by (simp add: string_fields_def)
qed (simp add: string_fields_def)

lemma join_no_newline: "\<forall>f \<in> set fs. is_word f \<Longrightarrow> CHR 0x0A \<notin> set (join_with '' '' fs)"
  by (induction "'' ''" fs rule: join_with.induct) (auto dest: is_word_no_newline)

lemma fields_join_lines: "\<forall>fs \<in> set ls. \<forall>f \<in> set fs. is_word f \<Longrightarrow> map string_fields (map (join_with '' '') ls) = ls"
  by (induction ls) (auto simp: fields_join)

section \<open>Lines of a file\<close>

lemma split_on_append: "split_on c (a @ c # b) = split_on c a @ split_on c b"
proof (induction a)
  case (Cons x xs)
  then show ?case using split_on_nonempty [of c xs] by (cases "split_on c xs") auto
qed simp

lemma split_on_line: "c \<notin> set a \<Longrightarrow> split_on c a = [a]"
  by (induction a) auto

lemma split_on_lines: "\<forall>l \<in> set ls. c \<notin> set l \<Longrightarrow> split_on c (concat (map (\<lambda>l. l @ [c]) ls)) = ls @ [[]]"
  by (induction ls) (auto simp: split_on_append split_on_line)

lemma tunPeerAddr_eq: "tunPeerAddr = Ret [10, 1, 1, 2]"
  by code_simp

lemma peer_string: "ip_string [10, 1, 1, 2] = ''10.1.1.2''"
  by code_simp

text \<open>
  The child gets what the parent decided. Parsing, with the flag package's own rules, the argument list the parent builds gives back the
  privileged, DNS and IPv6 switches, the host name, the user and group ids and the control descriptor, and leaves exactly the
  user's command, also when the host name or the command's arguments look like flags.
\<close>

lemma runc_parse_args:
  assumes "0 \<le> uid" and "uid < 2 ^ 63" and "0 \<le> gid" and "gid < 2 ^ 63"
  shows "runc_parse euid egid (runc_args privileged useDNS ipv6 hostname uid gid cmdArgs) =
    Ret (\<lparr>rc_hostname = hostname, rc_pipeFd = 3, rc_uid = uid, rc_gid = gid, rc_privileged = privileged, rc_dns = useDNS, rc_ipv6 = ipv6\<rparr>,
         cmdArgs)"
proof -
  have three: "ParseInt ''3'' = Inr 3" by code_simp
  have n: "flag_name ''privileged''" "flag_name ''dns''" "flag_name ''ipv6''" "flag_name ''unix-fd''" "flag_name ''hostname''"
    "flag_name ''uid''" "flag_name ''gid''" by (simp_all add: flag_name_def)
  have k: "runc_kind ''privileged'' = Some True" "runc_kind ''dns'' = Some True" "runc_kind ''ipv6'' = Some True" "runc_kind ''unix-fd'' = Some False"
    "runc_kind ''hostname'' = Some False" "runc_kind ''uid'' = Some False" "runc_kind ''gid'' = Some False" by (simp_all add: runc_kind_def)
  note val = flag_parse_value [where kind = runc_kind and st = runc_set] and bool = flag_parse_bool [where kind = runc_kind and st = runc_set]
  show ?thesis
    unfolding runc_parse_def runc_args_def
    using ParseInt_itoa [OF assms(1,2)] ParseInt_itoa [OF assms(3,4)] three
      val [OF n(4) k(4)] val [OF n(5) k(5)] val [OF n(6) k(6)] val [OF n(7) k(7)] bool [OF n(1) k(1)] bool [OF n(2) k(2)] bool [OF n(3) k(3)]
    by (simp add: runc_set_def runc_defaults_def ParseBool_fmt flag_parse_separator)
qed

section \<open>Properties\<close>

text \<open>
  The container's DNS goes through wirez and nowhere else. What a resolver library reads in the container's resolv.conf is one name server,
  the local resolver or the address behind the TUN, and then the host's search, domain, options and sortlist lines, word for
  word and in order; none of the host's name servers and nothing else.
\<close>

lemma resolv_conf_names_only_wirez:
  "\<exists>out. resolvConfContent dns hostResolv = Ret out \<and>
    map string_fields (split_on CHR 0x0A out) =
      [''nameserver'', if dns then ''127.0.0.1'' else ''10.1.1.2''] #
      filter (\<lambda>fs. fs \<noteq> [] \<and> hd fs \<in> {''search'', ''domain'', ''options'', ''sortlist''}) (map string_fields (split_on CHR 0x0A hostResolv)) @ [[]]"
proof -
  let ?ns = "if dns then ''127.0.0.1'' else ''10.1.1.2''"
  let ?kept = "filter keeps_line (map string_fields (split_on CHR 0x0A hostResolv))"
  let ?first = "''nameserver '' @ ?ns"
  have words: "\<forall>fs \<in> set ?kept. \<forall>f \<in> set fs. is_word f" using string_fields_words by auto
  have out: "resolvConfContent dns hostResolv = Ret (concat (map (\<lambda>l. l @ [CHR 0x0A]) (?first # map (join_with '' '') ?kept)))"
    by (simp add: resolvConfContent_def tunPeerAddr_eq peer_string newline_def comp_def)
  have "\<forall>l \<in> set (?first # map (join_with '' '') ?kept). CHR 0x0A \<notin> set l" using words join_no_newline by auto
  from split_on_lines [OF this] have lines: "split_on CHR 0x0A (concat (map (\<lambda>l. l @ [CHR 0x0A]) (?first # map (join_with '' '') ?kept)))
      = ?first # map (join_with '' '') ?kept @ [[]]" by simp
  have "string_fields ?first = [''nameserver'', ?ns]" by (cases dns) (simp, code_simp, simp, code_simp)
  moreover have "map string_fields (map (join_with '' '') ?kept) = ?kept" using words by (rule fields_join_lines)
  moreover have "string_fields [] = []" by (simp add: string_fields_def)
  ultimately show ?thesis using out lines by (simp add: keeps_line_def [abs_def])
qed

text \<open>
  The container keeps the host's names. The lines of its hosts file are the host's, in order and but for trailing blank lines, followed by
  localhost on the loopback addresses and on the address behind the TUN, and the container's own host name on loopback.
\<close>

lemma hosts_keep_host_entries:
  assumes "CHR 0x0A \<notin> set hostname"
  shows "\<exists>out. hostsContent hostname hostHosts = Ret out \<and>
    split_on CHR 0x0A out =
      (let kept = trim_right CHR 0x0A hostHosts in if kept = '''' then [] else split_on CHR 0x0A kept) @
      [''127.0.0.1 localhost'', ''::1 localhost'', ''10.1.1.2 localhost'',
       ''127.0.0.1 '' @ hostname @ '' '' @ hostname @ ''.localdomain'', ''::1 '' @ hostname @ '' '' @ hostname @ ''.localdomain'', '''']"
proof -
  let ?own = "[''127.0.0.1 localhost'', ''::1 localhost'', ''10.1.1.2 localhost'',
       ''127.0.0.1 '' @ hostname @ '' '' @ hostname @ ''.localdomain'', ''::1 '' @ hostname @ '' '' @ hostname @ ''.localdomain'']"
  let ?kept = "trim_right CHR 0x0A hostHosts"
  have h: "hostsContent hostname hostHosts =
      Ret (if ?kept = '''' then concat (map (\<lambda>l. l @ [CHR 0x0A]) ?own) else ?kept @ CHR 0x0A # concat (map (\<lambda>l. l @ [CHR 0x0A]) ?own))"
    by (simp add: hostsContent_def tunPeerAddr_eq peer_string newline_def Let_def)
  have "\<forall>l \<in> set ?own. CHR 0x0A \<notin> set l" using assms by simp
  from split_on_lines [OF this] h show ?thesis by (auto simp: Let_def split_on_append)
qed

end
