(* ===== verification/Calls.thy ===== *)
theory Calls
  imports Prelude
begin

text \<open>
  Programs that are sequences of calls into the operating system or a library. The state is the history of the calls that succeeded, with their
  arguments; whether the next call fails is decided by an argument of the model, on the history, so that a statement about every such argument covers a
  failure at any point. \<open>guard\<close> says what has to have happened before a call; the locale has the rules by which a program is shown to
  respect it, whatever fails.
\<close>

section \<open>Calls\<close>

definition call :: "('op list \<Rightarrow> 'op \<Rightarrow> err option) \<Rightarrow> 'op \<Rightarrow> ('op list, unit) act" where
  "call sys op h = (case sys h op of None \<Rightarrow> (Ret (), h @ [op]) | Some e \<Rightarrow> (Exc e, h))"

text \<open>A call whose error the source drops, and one that cannot fail.\<close>

definition call_ignored :: "('op list \<Rightarrow> 'op \<Rightarrow> err option) \<Rightarrow> 'op \<Rightarrow> ('op list, unit) act" where
  "call_ignored sys op h = (Ret (), case sys h op of None \<Rightarrow> h @ [op] | Some e \<Rightarrow> h)"

definition noted :: "'op \<Rightarrow> ('op list, unit) act" where
  "noted op h = (Ret (), h @ [op])"

fun calls :: "('op list \<Rightarrow> 'op \<Rightarrow> err option) \<Rightarrow> 'op list \<Rightarrow> ('op list, unit) act" where
  "calls sys [] = act_ret ()"
| "calls sys (op # ops) = act_bind (call sys op) (\<lambda>_. calls sys ops)"

text \<open>\<^verbatim>\<open>defer\<close> of a call whose result nobody looks at.\<close>

definition deferred :: "'op \<Rightarrow> ('op list, 'a) act \<Rightarrow> ('op list, 'a) act" where
  "deferred op = act_finally (\<lambda>h. h @ [op])"

section \<open>Order\<close>

definition ordered :: "('op set \<Rightarrow> 'op \<Rightarrow> bool) \<Rightarrow> 'op list \<Rightarrow> bool" where
  "ordered guard h \<longleftrightarrow> (\<forall>i < length h. guard (set (take i h)) (h ! i))"

lemma ordered_Nil [simp]: "ordered guard []"
  by (simp add: ordered_def)

lemma ordered_snoc [simp]: "ordered guard (h @ [op]) \<longleftrightarrow> ordered guard h \<and> guard (set h) op"
  by (auto simp: ordered_def less_Suc_eq nth_append)

text \<open>
  \<open>follows guard F m G\<close>: from an ordered history with \<open>F\<close>, the action leaves an ordered longer one however it ends, and one with \<open>G\<close> when
  it returns. A fact about a history that later calls keep \<open>grows\<close>.
\<close>

definition follows ::
    "('op set \<Rightarrow> 'op \<Rightarrow> bool) \<Rightarrow> ('op set \<Rightarrow> bool) \<Rightarrow> ('op list, 'a) act \<Rightarrow> ('op set \<Rightarrow> bool) \<Rightarrow> bool" where
  "follows guard F m G \<longleftrightarrow> (\<forall>h x h'. ordered guard h \<longrightarrow> F (set h) \<longrightarrow> m h = (x, h') \<longrightarrow>
     ordered guard h' \<and> set h \<subseteq> set h' \<and> (\<forall>a. x = Ret a \<longrightarrow> G (set h')))"

definition grows :: "('op set \<Rightarrow> bool) \<Rightarrow> bool" where
  "grows F \<longleftrightarrow> (\<forall>S T. S \<subseteq> T \<longrightarrow> F S \<longrightarrow> F T)"

lemma growsD: "grows F \<Longrightarrow> F S \<Longrightarrow> S \<subseteq> T \<Longrightarrow> F T"
  by (auto simp: grows_def)

lemma grows_simps [simp]:
  "grows (\<lambda>_. True)" "grows (\<lambda>S. op \<in> S)" "grows (\<lambda>S. \<exists>x. f x \<in> S)"
  "grows F \<Longrightarrow> grows G \<Longrightarrow> grows (\<lambda>S. F S \<and> G S)"
  by (auto simp: grows_def)

lemma followsI:
  "(\<And>h x h'. ordered guard h \<Longrightarrow> F (set h) \<Longrightarrow> m h = (x, h') \<Longrightarrow>
     ordered guard h' \<and> set h \<subseteq> set h' \<and> (\<forall>a. x = Ret a \<longrightarrow> G (set h'))) \<Longrightarrow> follows guard F m G"
  by (simp add: follows_def)

lemma followsD:
  "follows guard F m G \<Longrightarrow> ordered guard h \<Longrightarrow> F (set h) \<Longrightarrow> m h = (x, h') \<Longrightarrow>
     ordered guard h' \<and> set h \<subseteq> set h' \<and> (\<forall>a. x = Ret a \<longrightarrow> G (set h'))"
  by (simp add: follows_def)

lemma follows_bind:
  assumes "grows F" and m: "follows guard F m G" and f: "\<And>a. follows guard (\<lambda>S. F S \<and> G S) (f a) H"
  shows "follows guard F (act_bind m f) H"
proof (rule followsI)
  fix h x h' assume h: "ordered guard h" "F (set h)" and b: "act_bind m f h = (x, h')"
  obtain y h1 where y: "m h = (y, h1)" by (cases "m h")
  note m1 = followsD [OF m h y]
  then have F1: "F (set h1)" using growsD [OF assms(1) h(2)] by blast
  show "ordered guard h' \<and> set h \<subseteq> set h' \<and> (\<forall>a. x = Ret a \<longrightarrow> H (set h'))"
  proof (cases y)
    case (Ret a)
    with b y have "f a h1 = (x, h')" by (simp add: act_bind_def)
    from followsD [OF f _ _ this] m1 F1 Ret show ?thesis by auto
  qed (use b y m1 in \<open>auto simp: act_bind_def\<close>)
qed

lemma follows_weaken: "follows guard F m G \<Longrightarrow> (\<And>S. F' S \<Longrightarrow> F S) \<Longrightarrow> (\<And>S. G S \<Longrightarrow> G' S) \<Longrightarrow> follows guard F' m G'"
  by (auto simp: follows_def)

lemma follows_keep:
  assumes "grows F" "follows guard F m G"
  shows "follows guard F m (\<lambda>S. F S \<and> G S)"
proof (rule followsI)
  fix h x h' assume h: "ordered guard h" "F (set h)" "m h = (x, h')"
  from followsD [OF assms(2) h] growsD [OF assms(1) h(2)]
  show "ordered guard h' \<and> set h \<subseteq> set h' \<and> (\<forall>a. x = Ret a \<longrightarrow> F (set h') \<and> G (set h'))" by blast
qed

lemma follows_idle:
  assumes "grows F" "follows guard F m (\<lambda>_. True)" "\<And>a. follows guard F (f a) H"
  shows "follows guard F (act_bind m f) H"
  by (rule follows_bind [OF assms(1,2)]) (simp add: assms(3))

lemma follows_lift: "follows guard F (act_lift r) (\<lambda>_. True)" "follows guard F (act_ret a) (\<lambda>_. True)"
  by (auto simp: follows_def act_lift_def act_ret_def)

lemma follows_ret: "(\<And>S. F S \<Longrightarrow> G S) \<Longrightarrow> follows guard F (act_ret a) G"
  by (auto simp: follows_def)

lemma follows_call: "(\<And>S. F S \<Longrightarrow> guard S op) \<Longrightarrow> follows guard F (call sys op) (\<lambda>S. op \<in> S)"
  by (auto simp: follows_def call_def split: option.splits)

lemma follows_note: "(\<And>S. F S \<Longrightarrow> guard S op) \<Longrightarrow> follows guard F (noted op) (\<lambda>S. op \<in> S)"
  by (auto simp: follows_def noted_def)

fun in_turn :: "('op set \<Rightarrow> 'op \<Rightarrow> bool) \<Rightarrow> ('op set \<Rightarrow> bool) \<Rightarrow> 'op list \<Rightarrow> bool" where
  "in_turn guard F [] \<longleftrightarrow> True"
| "in_turn guard F (op # ops) \<longleftrightarrow> (\<forall>S. F S \<longrightarrow> guard S op) \<and> in_turn guard (\<lambda>S. F S \<and> op \<in> S) ops"

lemma follows_calls: "grows F \<Longrightarrow> in_turn guard F ops \<Longrightarrow> follows guard F (calls sys ops) (\<lambda>S. set ops \<subseteq> S)"
proof (induction ops arbitrary: F)
  case Nil
  then show ?case by (auto simp: follows_def act_ret_def)
next
  case (Cons op ops)
  have g: "grows (\<lambda>S. F S \<and> op \<in> S)" using Cons.prems(1) by simp
  from Cons.IH [OF g] Cons.prems(2) have r: "follows guard (\<lambda>S. F S \<and> op \<in> S) (calls sys ops) (\<lambda>S. set ops \<subseteq> S)" by simp
  show ?case
    unfolding calls.simps
  proof (rule follows_bind [OF Cons.prems(1) follows_call])
    show "guard S op" if "F S" for S using Cons.prems(2) that by simp
    show "follows guard (\<lambda>S. F S \<and> op \<in> S) (calls sys ops) (\<lambda>S. set (op # ops) \<subseteq> S)" for a :: unit
      by (rule follows_weaken [OF follows_keep [OF g r]]) auto
  qed
qed

declare calls.simps [simp del]

section \<open>The interface of an order\<close>

text \<open>
  What the rest of a program may rely on: a guard asks only for things that have happened, and the calls a program makes when it unwinds, or whose
  failure it ignores, are always allowed. Then a permitted call stays permitted, and a whole history can be read off its set of calls.
\<close>

locale call_guard =
  fixes guard :: "'op set \<Rightarrow> 'op \<Rightarrow> bool"
    and anytime :: "'op \<Rightarrow> bool"
  assumes guard_grows: "S \<subseteq> T \<Longrightarrow> guard S op \<Longrightarrow> guard T op"
    and anytime_guard: "anytime op \<Longrightarrow> guard S op"
begin

lemma ordered_guard:
  assumes "ordered guard h" "op \<in> set h"
  shows "guard (set h) op"
proof -
  obtain i where i: "i < length h" "h ! i = op" using assms(2) by (auto simp: in_set_conv_nth)
  with assms(1) have "guard (set (take i h)) op" by (auto simp: ordered_def)
  then show ?thesis by (rule guard_grows [rotated]) (rule set_take_subset)
qed

lemma follows_anytime:
  "anytime op \<Longrightarrow> follows guard F (call sys op) (\<lambda>_. True)" "anytime op \<Longrightarrow> follows guard F (call_ignored sys op) (\<lambda>_. True)"
  by (auto simp: follows_def call_def call_ignored_def anytime_guard split: option.splits)

lemma follows_anytimes: "grows F \<Longrightarrow> \<forall>op \<in> set ops. anytime op \<Longrightarrow> follows guard F (calls sys ops) (\<lambda>_. True)"
  by (induction ops) (auto simp: calls.simps intro: follows_lift follows_idle follows_anytime)

lemma follows_deferred: "anytime op \<Longrightarrow> follows guard F m (\<lambda>_. True) \<Longrightarrow> follows guard F (deferred op m) (\<lambda>_. True)"
  using anytime_guard by (fastforce simp: follows_def deferred_def act_finally_def split: prod.splits)

text \<open>A program that follows the order from nothing.\<close>

lemma run_ordered: "follows guard (\<lambda>_. True) m G \<Longrightarrow> m [] = (x, h) \<Longrightarrow> ordered guard h"
  using followsD [of guard "\<lambda>_. True" m G "[]" x h] by simp

end

section \<open>What an action leaves behind\<close>

text \<open>
  \<open>emits Q m\<close>: however the action ends, it only adds calls to the history, and the added ones satisfy \<open>Q\<close>.
\<close>

definition emits :: "('op list \<Rightarrow> bool) \<Rightarrow> ('op list, 'a) act \<Rightarrow> bool" where
  "emits Q m \<longleftrightarrow> (\<forall>h x h'. m h = (x, h') \<longrightarrow> (\<exists>ops. h' = h @ ops \<and> Q ops))"

definition joins :: "('op list \<Rightarrow> bool) \<Rightarrow> bool" where
  "joins Q \<longleftrightarrow> Q [] \<and> (\<forall>xs ys. Q xs \<longrightarrow> Q ys \<longrightarrow> Q (xs @ ys))"

lemma joins_simps [simp]: "joins (\<lambda>ops. set ops \<inter> A = {})" "joins (\<lambda>_. True)"
  by (simp_all add: joins_def Int_Un_distrib2)

lemma joins_conj [simp]: "joins Q \<Longrightarrow> joins R \<Longrightarrow> joins (\<lambda>ops. Q ops \<and> R ops)"
  by (simp add: joins_def)

lemma emitsD: "emits Q m \<Longrightarrow> m h = (x, h') \<Longrightarrow> \<exists>ops. h' = h @ ops \<and> Q ops"
  by (auto simp: emits_def)

lemma emits_start: "emits Q m \<Longrightarrow> m [] = (x, h) \<Longrightarrow> Q h"
  by (auto dest: emitsD)

lemma emitsI: "(\<And>h x h'. m h = (x, h') \<Longrightarrow> \<exists>ops. h' = h @ ops \<and> Q ops) \<Longrightarrow> emits Q m"
  by (simp add: emits_def)

lemma emits_weaken: "emits Q m \<Longrightarrow> (\<And>ops. Q ops \<Longrightarrow> R ops) \<Longrightarrow> emits R m"
  unfolding emits_def by metis

lemma emits_bind:
  assumes "joins Q" "emits Q m" "\<And>a. emits Q (f a)"
  shows "emits Q (act_bind m f)"
proof (rule emitsI)
  fix h x h' assume b: "act_bind m f h = (x, h')"
  obtain y h1 where y: "m h = (y, h1)" by (cases "m h")
  then obtain o1 where o1: "h1 = h @ o1" "Q o1" using emitsD [OF assms(2)] by blast
  show "\<exists>ops. h' = h @ ops \<and> Q ops"
  proof (cases y)
    case (Ret a)
    with b y have "f a h1 = (x, h')" by simp
    then obtain o2 where "h' = h1 @ o2" "Q o2" using emitsD [OF assms(3)] by blast
    with o1 assms(1) show ?thesis by (auto simp: joins_def)
  qed (use b y o1 in auto)
qed

text \<open>An action whose first part does not count.\<close>

lemma emits_then:
  assumes "emits Q m" "\<And>a. emits R (f a)" "\<And>ops. Q ops \<Longrightarrow> R ops" "\<And>ops ops'. Q ops \<Longrightarrow> R ops' \<Longrightarrow> R (ops @ ops')"
  shows "emits R (act_bind m f)"
proof (rule emitsI)
  fix h x h' assume b: "act_bind m f h = (x, h')"
  obtain y h1 where m: "m h = (y, h1)" by (cases "m h")
  from emitsD [OF assms(1) m] obtain ops where ops: "h1 = h @ ops" "Q ops" by blast
  show "\<exists>ops. h' = h @ ops \<and> R ops"
  proof (cases y)
    case (Ret a)
    with b m have "f a h1 = (x, h')" by (simp add: act_bind_def)
    from emitsD [OF assms(2) this] ops assms(4) show ?thesis by fastforce
  qed (use b m ops assms(3) in \<open>auto simp: act_bind_def\<close>)
qed

lemma emits_silent: "joins Q \<Longrightarrow> emits Q (act_lift r)" "joins Q \<Longrightarrow> emits Q (act_ret a)"
  by (auto simp: emits_def joins_def)

lemma emits_call: "joins Q \<Longrightarrow> Q [op] \<Longrightarrow> emits Q (call sys op)" "joins Q \<Longrightarrow> Q [op] \<Longrightarrow> emits Q (call_ignored sys op)" "Q [op] \<Longrightarrow> emits Q (noted op)"
  by (auto simp: emits_def joins_def call_def call_ignored_def noted_def split: option.splits)

lemma emits_calls: "joins Q \<Longrightarrow> \<forall>op \<in> set ops. Q [op] \<Longrightarrow> emits Q (calls sys ops)"
  by (induction ops) (auto simp: calls.simps intro: emits_silent emits_bind emits_call)

lemma emits_deferred:
  assumes "emits Q m" "\<And>ops. Q ops \<Longrightarrow> R (ops @ [op])"
  shows "emits R (deferred op m)"
proof (rule emitsI)
  fix h x h' assume d: "deferred op m h = (x, h')"
  obtain y h1 where y: "m h = (y, h1)" by (cases "m h")
  from emitsD [OF assms(1) y] obtain ops where "h1 = h @ ops" "Q ops" by blast
  with d y assms(2) show "\<exists>ops. h' = h @ ops \<and> R ops" by (auto simp: deferred_def act_finally_def)
qed

lemma emits_try: "emits Q m \<Longrightarrow> emits Q (act_try m)"
  by (rule emitsI) (auto simp: act_try_def split: prod.splits dest: emitsD)

section \<open>When every call succeeds\<close>

lemma willing_call:
  assumes "\<And>h op. sys h op = None"
  shows "call sys op h = (Ret (), h @ [op])" "call_ignored sys op h = (Ret (), h @ [op])"
  by (simp_all add: assms call_def call_ignored_def)

lemma willing_calls: "(\<And>h op. sys h op = None) \<Longrightarrow> calls sys ops h = (Ret (), h @ ops)"
  by (induction ops arbitrary: h) (auto simp: calls.simps willing_call act_bind_def act_ret_def)

lemma deferred_runs: "deferred op m h = (case m h of (x, h') \<Rightarrow> (x, h' @ [op]))"
  by (simp add: deferred_def act_finally_def)

end
