(* ===== verification/Setup.thy ===== *)
theory Setup
  imports Container Calls
begin

text \<open>
  \<^verbatim>\<open>runContainer\<close> of \<^verbatim>\<open>src/run_container.go\<close> with everything it calls, as a sequence of system calls in the style of \<open>Calls\<close>. The state is the history of the calls that
  succeeded; \<open>k_sys\<close> decides, on the history, whether the next one fails, so that a statement about every \<open>kernel\<close> covers a failure at any point.
  What the kernel and the netlink package hold behind a call is not modelled: a call is the record of its arguments.
\<close>

section \<open>System calls\<close>

datatype fd = ControlFd | TunFd | DnsUdpFd | DnsTcpFd

datatype sysop =
    Sethostname string
  | CloseOnExec fd
  | TunOpen string
  | CloseFd fd
  | LinkByName string
  | AddrAdd string string bool
  | LinkSetUp string
  | LinkSetTxQLen string nat
  | RouteAdd "bytes option" "ipnet option" string
  | Socket fd bool
  | Reuseaddr fd
  | Bind fd bytes nat
  | Listen fd
  | SendFds "fd list"
  | SendMTU "32 word"
  | ReceiveACK
  | WriteFile string string
  | MountPrivate string
  | MountTmpfs string string
  | MountBind string string
  | MkdirTemp string
  | Unmount string
  | Remove string
  | Exec string "string list" sys_attr

record kernel =
  k_sys :: "sysop list \<Rightarrow> sysop \<Rightarrow> err option"
  k_tmpDir :: "sysop list \<Rightarrow> string"
  k_file :: "sysop list \<Rightarrow> string \<Rightarrow> string option"
  k_mtu :: "32 word"
  k_ParseAddr :: "string \<Rightarrow> err + bytes"
  k_euid :: int
  k_egid :: int

section \<open>The setup\<close>

definition loDevice :: string where "loDevice = ''lo''"
definition tunDevice :: string where "tunDevice = ''tun0''"

definition tunQueueLength :: nat where
  "tunQueueLength = 10000"

definition setupLoopback :: "kernel \<Rightarrow> (sysop list, unit) act" where
  "setupLoopback k =
     act_bind (call (k_sys k) (LinkByName loDevice)) (\<lambda>_.
     act_bind (case k_ParseAddr k ''127.0.0.1/8'' of
        Inl _ \<Rightarrow> act_ret ()
      | Inr addr \<Rightarrow> call_ignored (k_sys k) (AddrAdd loDevice ''127.0.0.1/8'' False)) (\<lambda>_.
     call (k_sys k) (LinkSetUp loDevice)))"

definition createResolverSockets :: "kernel \<Rightarrow> (sysop list, unit) act" where
  "createResolverSockets k =
     calls (k_sys k) [Socket DnsUdpFd True, Bind DnsUdpFd [127, 0, 0, 1] 53,
              Socket DnsTcpFd True, Reuseaddr DnsTcpFd, Bind DnsTcpFd [127, 0, 0, 1] 53, Listen DnsTcpFd]"

definition allowPing :: "kernel \<Rightarrow> int \<Rightarrow> (sysop list, unit) act" where
  "allowPing k g = call_ignored (k_sys k) (WriteFile ''/proc/sys/net/ipv4/ping_group_range'' (allowPing_content g))"

definition setupIPAddress :: "kernel \<Rightarrow> string \<Rightarrow> string \<Rightarrow> (sysop list, bytes) act" where
  "setupIPAddress k device networkAddr =
     act_bind (calls (k_sys k) [LinkByName device, LinkSetTxQLen device tunQueueLength, LinkSetUp device]) (\<lambda>_.
     act_bind (act_lift (Throw2 (k_ParseAddr k networkAddr))) (\<lambda>addr.
     act_bind (call (k_sys k) (AddrAdd device networkAddr False)) (\<lambda>_. act_ret addr)))"

text \<open>A route is its gateway and its destination, where they are set, and its device.\<close>

definition setupIPNetwork :: "kernel \<Rightarrow> bool \<Rightarrow> int \<Rightarrow> (sysop list, unit) act" where
  "setupIPNetwork k ipv6 g =
     act_bind (setupLoopback k) (\<lambda>_.
     act_bind (allowPing k g) (\<lambda>_.
     act_bind (setupIPAddress k tunDevice tunNetworkAddr) (\<lambda>tunAddr.
     act_bind (call (k_sys k) (RouteAdd (Some tunAddr) None tunDevice)) (\<lambda>_.
     if \<not> ipv6 then act_ret ()
     else
       act_bind (act_lift (Throw2 (k_ParseAddr k tunNetworkAddrV6))) (\<lambda>_.
       calls (k_sys k) [AddrAdd tunDevice tunNetworkAddrV6 True, RouteAdd None (Some \<lparr>net_IP = replicate 16 0, net_Mask = CIDRMask 0 128\<rparr>) tunDevice])))))"

definition makeMountsPrivate :: "kernel \<Rightarrow> (sysop list, unit) act" where
  "makeMountsPrivate k = call (k_sys k) (MountPrivate ''/'')"

text \<open>\<^verbatim>\<open>filepath.Join(tmpDir, filepath.Base(target))\<close> for the targets of the program, which end in a file name.\<close>

definition base_name :: "string \<Rightarrow> string" where
  "base_name path = last (split_on CHR ''/'' path)"

definition bindMountFile :: "kernel \<Rightarrow> string \<Rightarrow> string \<Rightarrow> (sysop list, unit) act" where
  "bindMountFile k target content h =
     (let tmpDir = k_tmpDir k h; tmpFile = tmpDir @ ''/'' @ base_name target
      in calls (k_sys k) [MkdirTemp tmpDir, MountTmpfs tmpDir ''size=4k'', WriteFile tmpFile content, MountBind tmpFile target,
                  Unmount tmpDir, Remove tmpDir] h)"

definition readHostFile :: "kernel \<Rightarrow> string \<Rightarrow> (sysop list, string) act" where
  "readHostFile k path h = (Ret (case k_file k h path of None \<Rightarrow> '''' | Some data \<Rightarrow> data), h)"

section \<open>The container process\<close>

text \<open>The child's end of the control socket; the two messages are JSON objects, of which the model keeps the fields.\<close>

definition child_SendFds :: "kernel \<Rightarrow> fd list \<Rightarrow> (sysop list, unit) act" where
  "child_SendFds k fds = call (k_sys k) (SendFds fds)"

definition child_SendMTU :: "kernel \<Rightarrow> 32 word \<Rightarrow> (sysop list, unit) act" where
  "child_SendMTU k mtu = call (k_sys k) (SendMTU mtu)"

definition child_ReceiveACK :: "kernel \<Rightarrow> (sysop list, unit) act" where
  "child_ReceiveACK k = call (k_sys k) ReceiveACK"

text \<open>From the descriptors on.\<close>

definition runContainer_network :: "kernel \<Rightarrow> runcFlags \<Rightarrow> fd list \<Rightarrow> (sysop list, unit) act" where
  "runContainer_network k f fds =
     act_bind (child_SendFds k fds) (\<lambda>_.
     act_bind (call (k_sys k) (LinkByName tunDevice)) (\<lambda>_.
     act_bind (child_SendMTU k (k_mtu k)) (\<lambda>_.
     act_bind (child_ReceiveACK k) (\<lambda>_.
     setupIPNetwork k (rc_ipv6 f) (rc_gid f)))))"

definition runContainer_files :: "kernel \<Rightarrow> runcFlags \<Rightarrow> (sysop list, unit) act" where
  "runContainer_files k f =
     act_bind (makeMountsPrivate k) (\<lambda>_.
     act_bind (readHostFile k ''/etc/resolv.conf'') (\<lambda>hostResolv.
     act_bind (act_lift (resolvConfContent (rc_dns f) hostResolv)) (\<lambda>resolv.
     act_bind (bindMountFile k ''/etc/resolv.conf'' resolv) (\<lambda>_.
     act_bind (readHostFile k ''/etc/hosts'') (\<lambda>hostHosts.
     act_bind (act_lift (hostsContent (rc_hostname f) hostHosts)) (\<lambda>hosts.
     bindMountFile k ''/etc/hosts'' hosts))))))"

definition runContainer_command :: "kernel \<Rightarrow> runcFlags \<Rightarrow> string list \<Rightarrow> (sysop list, unit) act" where
  "runContainer_command k f cmdArgs =
     act_bind (act_lift (runc_command cmdArgs)) (\<lambda>(name, args).
     call (k_sys k) (Exec name args (runc_sys_attr f (k_euid k) (k_egid k))))"

definition runContainer_main :: "kernel \<Rightarrow> runcFlags \<Rightarrow> string list \<Rightarrow> fd list \<Rightarrow> (sysop list, unit) act" where
  "runContainer_main k f cmdArgs fds =
     act_bind (runContainer_network k f fds) (\<lambda>_.
     act_bind (runContainer_files k f) (\<lambda>_.
     runContainer_command k f cmdArgs))"

text \<open>The descriptors \<^verbatim>\<open>fds\<close> holds when they are sent.\<close>

definition descriptors :: "bool \<Rightarrow> fd list" where
  "descriptors dns = [TunFd] @ (if dns then [DnsUdpFd, DnsTcpFd] else [])"

definition runContainer :: "kernel \<Rightarrow> string list \<Rightarrow> (sysop list, unit) act" where
  "runContainer k args =
     act_bind (act_lift (runc_parse (k_euid k) (k_egid k) args)) (\<lambda>(f, cmdArgs).
     act_bind (call (k_sys k) (Sethostname (rc_hostname f))) (\<lambda>_.
     act_bind (noted (CloseOnExec ControlFd)) (\<lambda>_.
     deferred (CloseFd ControlFd) (
       act_bind (call (k_sys k) (TunOpen tunDevice)) (\<lambda>_.
       deferred (CloseFd TunFd) (
         act_bind (noted (CloseOnExec TunFd)) (\<lambda>_.
         if rc_dns f
         then act_bind (setupLoopback k) (\<lambda>_.
              act_bind (createResolverSockets k) (\<lambda>_.
              deferred (CloseFd DnsUdpFd) (deferred (CloseFd DnsTcpFd) (
                runContainer_main k f cmdArgs (descriptors True)))))
         else runContainer_main k f cmdArgs (descriptors False))))))))"

section \<open>The order of the calls\<close>

text \<open>
  What has to have happened before a call. The descriptors leave the process only when none of them can leak into the user's command; the
  child waits for the acknowledgement after it has sent them and the MTU, and touches routes and mounts only after it (addresses are not
  guarded: for the resolver the loopback one is set before the sockets are bound); a file is shadowed only in a private mount namespace, and a staging directory goes only when nothing is mounted on it any
  more; the command starts last, behind the routes and the two shadowed files, and inherits neither end of the plumbing.
\<close>

definition cloexec :: "sysop set \<Rightarrow> fd \<Rightarrow> bool" where
  "cloexec S d \<longleftrightarrow> CloseOnExec d \<in> S \<or> Socket d True \<in> S"

definition guard :: "sysop set \<Rightarrow> sysop \<Rightarrow> bool" where
  "guard S op = (case op of
      Socket d b \<Rightarrow> b
    | SendFds fds \<Rightarrow> \<forall>d \<in> set fds. cloexec S d
    | SendMTU m \<Rightarrow> \<exists>fds. SendFds fds \<in> S
    | ReceiveACK \<Rightarrow> \<exists>m. SendMTU m \<in> S
    | RouteAdd gw dst dev \<Rightarrow> ReceiveACK \<in> S
    | MountPrivate p \<Rightarrow> \<exists>gw. RouteAdd (Some gw) None tunDevice \<in> S
    | MountTmpfs d opts \<Rightarrow> MkdirTemp d \<in> S \<and> MountPrivate ''/'' \<in> S
    | MountBind src target \<Rightarrow> (\<exists>content. WriteFile src content \<in> S) \<and> MountPrivate ''/'' \<in> S
    | Remove d \<Rightarrow> Unmount d \<in> S
    | Exec name args attr \<Rightarrow> CloseOnExec ControlFd \<in> S \<and> CloseOnExec TunFd \<in> S \<and> ReceiveACK \<in> S \<and>
        (\<exists>gw. RouteAdd (Some gw) None tunDevice \<in> S) \<and>
        (\<exists>src. MountBind src ''/etc/resolv.conf'' \<in> S) \<and> (\<exists>src. MountBind src ''/etc/hosts'' \<in> S)
    | _ \<Rightarrow> True)"

section \<open>The setup keeps the order\<close>

lemma descriptors_simps: "descriptors True = [TunFd, DnsUdpFd, DnsTcpFd]" "descriptors False = [TunFd]"
  by (simp_all add: descriptors_def)

text \<open>Calls that are allowed at any time.\<close>

definition anytime :: "sysop \<Rightarrow> bool" where
  "anytime op \<longleftrightarrow> (case op of
      Socket d b \<Rightarrow> b
    | SendFds fds \<Rightarrow> False | SendMTU m \<Rightarrow> False | ReceiveACK \<Rightarrow> False | RouteAdd gw dst dev \<Rightarrow> False
    | MountPrivate p \<Rightarrow> False | MountTmpfs d opts \<Rightarrow> False | MountBind src target \<Rightarrow> False | Remove d \<Rightarrow> False | Exec name args attr \<Rightarrow> False
    | _ \<Rightarrow> True)"

interpretation child: call_guard guard anytime
  by unfold_locales (auto simp: guard_def anytime_def cloexec_def split: sysop.splits)

lemma anytime_simps [simp]:
  "anytime (LinkByName d)" "anytime (AddrAdd d a n)" "anytime (LinkSetUp d)" "anytime (LinkSetTxQLen d l)" "anytime (WriteFile p c)"
  "anytime (Sethostname name)" "anytime (TunOpen d)" "anytime (CloseOnExec fd)" "anytime (Reuseaddr fd)" "anytime (Bind fd ip port)" "anytime (Listen fd)"
  "anytime (Socket fd True)" "anytime (MkdirTemp d)" "anytime (Unmount d)" "anytime (CloseFd fd)"
  by (simp_all add: anytime_def)

lemma follows_setupLoopback: "grows F \<Longrightarrow> follows guard F (setupLoopback k) (\<lambda>_. True)"
  unfolding setupLoopback_def
  by (intro follows_idle) (auto intro: child.follows_anytime follows_lift split: sum.split)

lemma follows_setupIPAddress: "grows F \<Longrightarrow> follows guard F (setupIPAddress k dev a) (\<lambda>_. True)"
  unfolding setupIPAddress_def
  by (intro follows_idle) (auto intro!: child.follows_anytime child.follows_anytimes follows_lift)

text \<open>The stations of the setup.\<close>

definition sealed :: "sysop set \<Rightarrow> bool" where
  "sealed S \<longleftrightarrow> CloseOnExec ControlFd \<in> S \<and> CloseOnExec TunFd \<in> S"

definition routed :: "sysop set \<Rightarrow> bool" where
  "routed S \<longleftrightarrow> sealed S \<and> ReceiveACK \<in> S \<and> (\<exists>gw. RouteAdd (Some gw) None tunDevice \<in> S)"

definition shadowed :: "string \<Rightarrow> sysop set \<Rightarrow> bool" where
  "shadowed target S \<longleftrightarrow> (\<exists>src. MountBind src target \<in> S)"

definition private_ns :: "sysop set \<Rightarrow> bool" where
  "private_ns S \<longleftrightarrow> MountPrivate ''/'' \<in> S"

lemma grows_stations [simp]:
  "grows sealed" "grows routed" "grows (shadowed target)" "grows private_ns" "grows (\<lambda>_. True)" "grows (\<lambda>S. op \<in> S)"
  "grows F \<Longrightarrow> grows G \<Longrightarrow> grows (\<lambda>S. F S \<and> G S)"
  by (auto simp: grows_def sealed_def routed_def shadowed_def private_ns_def; blast)+

lemma follows_setupIPNetwork:
  "follows guard (\<lambda>S. sealed S \<and> ReceiveACK \<in> S) (setupIPNetwork k v6 g) routed"
proof -
  let ?F = "\<lambda>S. sealed S \<and> ReceiveACK \<in> S"
  let ?ops = "[AddrAdd tunDevice tunNetworkAddrV6 True, RouteAdd None (Some \<lparr>net_IP = replicate 16 0, net_Mask = CIDRMask 0 128\<rparr>) tunDevice]"
  let ?tail = "if \<not> v6 then act_ret () else act_bind (act_lift (Throw2 (k_ParseAddr k tunNetworkAddrV6))) (\<lambda>_. calls (k_sys k) ?ops)"
  have routes: "follows guard ?F (act_bind (call (k_sys k) (RouteAdd (Some tunAddr) None tunDevice)) (\<lambda>_. ?tail)) routed" for tunAddr
  proof -
    let ?r = "RouteAdd (Some tunAddr) None tunDevice"
    let ?G = "\<lambda>S. ?F S \<and> ?r \<in> S"
    have "follows guard ?G (calls (k_sys k) ?ops) (\<lambda>_. True)"
      by (rule follows_weaken [OF follows_calls [where F = ?G]]) (simp_all add: guard_def)
    then have "follows guard ?G ?tail (\<lambda>_. True)"
      by (cases v6) (simp_all add: follows_lift follows_idle)
    then have "follows guard ?G ?tail (\<lambda>S. ?G S \<and> True)" by (intro follows_keep) simp_all
    then have "follows guard ?G ?tail routed" by (rule follows_weaken) (auto simp: routed_def)
    then show ?thesis
      by (intro follows_bind [OF _ follows_call]) (simp_all add: guard_def)
  qed
  show ?thesis
    unfolding setupIPNetwork_def allowPing_def
    by (rule follows_idle [OF _ follows_setupLoopback follows_idle [OF _ child.follows_anytime(2) follows_idle [OF _ follows_setupIPAddress routes]]]) simp_all
qed

lemma network_calls:
  "runContainer_network k f fds =
     act_bind (calls (k_sys k) [SendFds fds, LinkByName tunDevice, SendMTU (k_mtu k), ReceiveACK]) (\<lambda>_. setupIPNetwork k (rc_ipv6 f) (rc_gid f))"
  unfolding runContainer_network_def child_SendFds_def child_SendMTU_def child_ReceiveACK_def
  by (rule ext) (auto simp: calls.simps act_bind_def act_ret_def split: prod.splits res.splits)

lemma follows_network:
  assumes "\<forall>d \<in> set fds. \<forall>S. F S \<longrightarrow> cloexec S d" and "grows F" and "\<And>S. F S \<Longrightarrow> sealed S"
  shows "follows guard F (runContainer_network k f fds) routed"
  unfolding network_calls
proof (rule follows_bind)
  show "follows guard F (calls (k_sys k) [SendFds fds, LinkByName tunDevice, SendMTU (k_mtu k), ReceiveACK])
      (\<lambda>S. set [SendFds fds, LinkByName tunDevice, SendMTU (k_mtu k), ReceiveACK] \<subseteq> S)"
    using assms(1,2) by (intro follows_calls) (auto simp: guard_def)
  show "follows guard (\<lambda>S. F S \<and> set [SendFds fds, LinkByName tunDevice, SendMTU (k_mtu k), ReceiveACK] \<subseteq> S)
      (setupIPNetwork k (rc_ipv6 f) (rc_gid f)) routed" for a
    by (rule follows_weaken [OF follows_setupIPNetwork]) (use assms(3) in auto)
qed (rule assms)

lemma follows_bindMountFile:
  assumes "grows F" and "\<And>S. F S \<Longrightarrow> private_ns S"
  shows "follows guard F (bindMountFile k target content) (shadowed target)"
proof (rule followsI)
  fix h x h' assume h: "ordered guard h" "F (set h)" "bindMountFile k target content h = (x, h')"
  let ?d = "k_tmpDir k h"
  let ?f = "?d @ ''/'' @ base_name target"
  let ?ops = "[MkdirTemp ?d, MountTmpfs ?d ''size=4k'', WriteFile ?f content, MountBind ?f target, Unmount ?d, Remove ?d]"
  have "follows guard F (calls (k_sys k) ?ops) (\<lambda>S. set ?ops \<subseteq> S)"
    using assms by (intro follows_calls) (auto simp: guard_def private_ns_def)
  from followsD [OF this h(1,2), of x h']
  have "ordered guard h' \<and> set h \<subseteq> set h' \<and> (\<forall>a. x = Ret a \<longrightarrow> set ?ops \<subseteq> set h')"
    using h(3) by (simp add: bindMountFile_def Let_def)
  then show "ordered guard h' \<and> set h \<subseteq> set h' \<and> (\<forall>a. x = Ret a \<longrightarrow> shadowed target (set h'))" by (auto simp: shadowed_def)
qed

lemma follows_readHostFile: "follows guard F (readHostFile k p) (\<lambda>_. True)"
  by (auto simp: follows_def readHostFile_def)

lemma follows_files:
  "follows guard routed (runContainer_files k f) (\<lambda>S. routed S \<and> shadowed ''/etc/resolv.conf'' S \<and> shadowed ''/etc/hosts'' S)"
proof -
  let ?P = "\<lambda>S. routed S \<and> private_ns S" and ?R = "shadowed ''/etc/resolv.conf''" and ?H = "shadowed ''/etc/hosts''"
  have hosts: "follows guard (\<lambda>S. ?P S \<and> ?R S) (bindMountFile k ''/etc/hosts'' c) (\<lambda>S. (?P S \<and> ?R S) \<and> ?H S)" for c
    by (intro follows_keep follows_bindMountFile) simp_all
  have "follows guard routed (makeMountsPrivate k) private_ns"
    unfolding makeMountsPrivate_def private_ns_def by (rule follows_call) (auto simp: guard_def routed_def)
  moreover have "follows guard ?P (bindMountFile k ''/etc/resolv.conf'' c) ?R" for c
    by (rule follows_bindMountFile) simp_all
  ultimately have "follows guard routed (runContainer_files k f) (\<lambda>S. (?P S \<and> ?R S) \<and> ?H S)"
    unfolding runContainer_files_def
    by (intro follows_bind [where F = routed and G = private_ns] follows_idle [where F = ?P] follows_bind [where F = ?P and G = ?R]
        follows_idle [where F = "\<lambda>S. ?P S \<and> ?R S"] follows_lift follows_readHostFile hosts) simp_all
  then show ?thesis by (rule follows_weaken) auto
qed

lemma follows_command:
  "follows guard (\<lambda>S. routed S \<and> shadowed ''/etc/resolv.conf'' S \<and> shadowed ''/etc/hosts'' S) (runContainer_command k f cmd) (\<lambda>_. True)"
  unfolding runContainer_command_def
proof (rule follows_idle, goal_cases)
  case (3 a)
  show ?case
    by (cases a) (auto simp: guard_def routed_def sealed_def shadowed_def intro!: follows_weaken [OF follows_call])
qed (simp_all add: follows_lift)

lemma follows_main:
  assumes "\<forall>d \<in> set fds. \<forall>S. F S \<longrightarrow> cloexec S d" and "grows F" and "\<And>S. F S \<Longrightarrow> sealed S"
  shows "follows guard F (runContainer_main k f cmd fds) (\<lambda>_. True)"
proof -
  have "follows guard (\<lambda>S. F S \<and> routed S) (act_bind (runContainer_files k f) (\<lambda>_. runContainer_command k f cmd)) (\<lambda>_. True)"
    by (rule follows_weaken [OF follows_bind [OF _ follows_files follows_weaken [OF follows_command]]]) auto
  from follows_bind [OF assms(2) follows_network [OF assms] this] show ?thesis
    unfolding runContainer_main_def .
qed

lemma follows_sockets: "grows F \<Longrightarrow> follows guard F (createResolverSockets k) (\<lambda>S. Socket DnsUdpFd True \<in> S \<and> Socket DnsTcpFd True \<in> S)"
  unfolding createResolverSockets_def
  by (rule follows_weaken [OF follows_calls [where F = F]]) (auto simp: guard_def)

lemma follows_runContainer: "follows guard (\<lambda>_. True) (runContainer k args) (\<lambda>_. True)"
proof -
  let ?C = "\<lambda>S. CloseOnExec ControlFd \<in> S" and ?N = "\<lambda>S. Socket DnsUdpFd True \<in> S \<and> Socket DnsTcpFd True \<in> S"
  let ?T = "\<lambda>S. ?C S \<and> CloseOnExec TunFd \<in> S"
  have plain: "follows guard ?T (runContainer_main k f cmd [TunFd]) (\<lambda>_. True)" for f cmd
    by (rule follows_main) (simp_all add: cloexec_def sealed_def)
  have "follows guard (\<lambda>S. ?T S \<and> ?N S) (runContainer_main k f cmd [TunFd, DnsUdpFd, DnsTcpFd]) (\<lambda>_. True)" for f cmd
    by (rule follows_main) (auto simp: cloexec_def sealed_def)
  then have "follows guard (\<lambda>S. ?T S \<and> ?N S)
      (deferred (CloseFd DnsUdpFd) (deferred (CloseFd DnsTcpFd) (runContainer_main k f cmd [TunFd, DnsUdpFd, DnsTcpFd]))) (\<lambda>_. True)" for f cmd
    by (intro child.follows_deferred) simp_all
  then have dns: "follows guard ?T (act_bind (setupLoopback k) (\<lambda>_. act_bind (createResolverSockets k) (\<lambda>_.
      deferred (CloseFd DnsUdpFd) (deferred (CloseFd DnsTcpFd) (runContainer_main k f cmd [TunFd, DnsUdpFd, DnsTcpFd]))))) (\<lambda>_. True)" for f cmd
    by (intro follows_idle [OF _ follows_setupLoopback follows_bind [OF _ follows_sockets]]) simp_all
  show ?thesis
    unfolding runContainer_def descriptors_simps
    by (rule follows_idle [OF _ follows_lift(1)])
      (auto simp: guard_def intro!: follows_idle [OF _ child.follows_anytime(1)] follows_bind [OF _ follows_note] child.follows_deferred plain dns split: prod.split)
qed

section \<open>What the container process gives back\<close>

text \<open>Only the list \<open>fds\<close> is sent; and every descriptor that is sent is closed.\<close>

definition sends_only :: "fd list \<Rightarrow> sysop list \<Rightarrow> bool" where
  "sends_only fds ops \<longleftrightarrow> (\<forall>fds'. SendFds fds' \<in> set ops \<longrightarrow> fds' = fds)"

definition sent_closed :: "sysop list \<Rightarrow> bool" where
  "sent_closed ops \<longleftrightarrow> (\<forall>fds. SendFds fds \<in> set ops \<longrightarrow> (\<forall>d \<in> set fds. CloseFd d \<in> set ops))"

definition sends_nothing :: "sysop list \<Rightarrow> bool" where
  "sends_nothing ops \<longleftrightarrow> (\<forall>fds. SendFds fds \<notin> set ops)"

lemma joins_sent [simp]: "joins (sends_only fds)" "joins sent_closed" "joins sends_nothing"
  by (auto simp: joins_def sends_only_def sent_closed_def sends_nothing_def)

lemma sends_nothing_weaken: "sends_nothing ops \<Longrightarrow> sends_only fds ops" "sends_nothing ops \<Longrightarrow> sent_closed ops"
  by (auto simp: sends_only_def sent_closed_def sends_nothing_def)

lemma emits_bindMountFile: "emits sends_nothing (bindMountFile k target content)"
proof (rule emitsI)
  fix h x h' assume "bindMountFile k target content h = (x, h')"
  then have "calls (k_sys k) [MkdirTemp (k_tmpDir k h), MountTmpfs (k_tmpDir k h) ''size=4k'', WriteFile (k_tmpDir k h @ ''/'' @ base_name target) content,
      MountBind (k_tmpDir k h @ ''/'' @ base_name target) target, Unmount (k_tmpDir k h), Remove (k_tmpDir k h)] h = (x, h')"
    by (simp add: bindMountFile_def Let_def)
  moreover have "sends_nothing [op]" if "\<And>fds. op \<noteq> SendFds fds" for op using that by (auto simp: sends_nothing_def)
  ultimately show "\<exists>ops. h' = h @ ops \<and> sends_nothing ops" by (elim emitsD [OF emits_calls, rotated -1]) simp_all
qed

lemma emits_pieces:
  "emits sends_nothing (setupLoopback k)" "emits sends_nothing (createResolverSockets k)" "emits sends_nothing (setupIPNetwork k six g)"
  "emits sends_nothing (runContainer_files k f)" "emits sends_nothing (runContainer_command k f cmd)"
proof -
  have one: "emits sends_nothing (call (k_sys k) op)" "emits sends_nothing (call_ignored (k_sys k) op)" if "\<And>fds. op \<noteq> SendFds fds" for op
  proof -
    have "sends_nothing [op]" using that by (auto simp: sends_nothing_def)
    then show "emits sends_nothing (call (k_sys k) op)" "emits sends_nothing (call_ignored (k_sys k) op)" by (simp_all add: emits_call)
  qed
  have several: "emits sends_nothing (calls (k_sys k) ops)" if "\<And>fds. SendFds fds \<notin> set ops" for ops
    using that by (intro emits_calls) (auto simp: sends_nothing_def)
  have read: "emits sends_nothing (readHostFile k p)" for p
    by (rule emitsI) (simp add: readHostFile_def sends_nothing_def)
  show l: "emits sends_nothing (setupLoopback k)"
    unfolding setupLoopback_def by (intro emits_bind) (simp_all add: one emits_silent split: sum.split)
  show "emits sends_nothing (createResolverSockets k)"
    unfolding createResolverSockets_def by (rule several) simp
  show "emits sends_nothing (setupIPNetwork k six g)"
    unfolding setupIPNetwork_def setupIPAddress_def allowPing_def by (intro emits_bind) (simp_all add: l one several emits_silent emits_bind)
  show "emits sends_nothing (runContainer_files k f)"
    unfolding runContainer_files_def makeMountsPrivate_def by (intro emits_bind) (simp_all add: one read emits_silent emits_bindMountFile)
  show "emits sends_nothing (runContainer_command k f cmd)"
    unfolding runContainer_command_def by (intro emits_bind) (simp_all add: one emits_silent split: prod.split)
qed

lemma emits_main: "emits (sends_only fds) (runContainer_main k f cmd fds)"
proof -
  note quiet = emits_weaken [where R = "sends_only fds", OF _ sends_nothing_weaken(1)]
  have "emits (sends_only fds) (calls (k_sys k) [SendFds fds, LinkByName tunDevice, SendMTU (k_mtu k), ReceiveACK])"
    by (rule emits_calls) (simp_all add: sends_only_def)
  then show ?thesis
    unfolding runContainer_main_def network_calls
    by (intro emits_bind) (simp_all add: quiet [OF emits_pieces(3)] quiet [OF emits_pieces(4)] quiet [OF emits_pieces(5)])
qed

lemma emits_runContainer: "emits sent_closed (runContainer k args)"
proof -
  note quiet = emits_weaken [where R = sent_closed, OF _ sends_nothing_weaken(2)]
  have one: "emits sent_closed (call (k_sys k) op)" "emits sent_closed (noted op)" if "\<And>fds. op \<noteq> SendFds fds" for op
  proof -
    have "sent_closed [op]" using that by (auto simp: sent_closed_def)
    then show "emits sent_closed (call (k_sys k) op)" "emits sent_closed (noted op)" by (simp_all add: emits_call)
  qed
  have udp: "emits (\<lambda>ops. sends_only [TunFd, DnsUdpFd, DnsTcpFd] ops \<and> CloseFd DnsTcpFd \<in> set ops)
      (deferred (CloseFd DnsTcpFd) (runContainer_main k f cmd [TunFd, DnsUdpFd, DnsTcpFd]))" for f cmd
    by (rule emits_deferred [OF emits_main]) (simp add: sends_only_def)
  let ?tun = "\<lambda>ops. \<forall>fds. SendFds fds \<in> set ops \<longrightarrow> (\<forall>d \<in> set fds. d \<noteq> TunFd \<longrightarrow> CloseFd d \<in> set ops)"
  have joins: "joins ?tun" by (auto simp: joins_def)
  note calm = emits_weaken [where R = ?tun, OF emits_pieces(1)] emits_weaken [where R = ?tun, OF emits_pieces(2)]
  have dns: "emits ?tun (act_bind (setupLoopback k) (\<lambda>_. act_bind (createResolverSockets k) (\<lambda>_.
      deferred (CloseFd DnsUdpFd) (deferred (CloseFd DnsTcpFd) (runContainer_main k f cmd [TunFd, DnsUdpFd, DnsTcpFd])))))" for f cmd
    by (intro emits_bind joins calm emits_deferred [OF udp]) (auto simp: sends_nothing_def sends_only_def)
  have plain: "emits ?tun (runContainer_main k f cmd [TunFd])" for f cmd
    by (rule emits_weaken [OF emits_main]) (auto simp: sends_only_def)
  have inner: "emits sent_closed (deferred (CloseFd TunFd) (act_bind (noted (CloseOnExec TunFd)) (\<lambda>_.
         if rc_dns f
         then act_bind (setupLoopback k) (\<lambda>_. act_bind (createResolverSockets k) (\<lambda>_.
              deferred (CloseFd DnsUdpFd) (deferred (CloseFd DnsTcpFd) (runContainer_main k f cmd [TunFd, DnsUdpFd, DnsTcpFd]))))
         else runContainer_main k f cmd [TunFd])))" for f cmd
    by (rule emits_deferred [where Q = ?tun], intro emits_bind joins emits_call(3)) (use dns plain in \<open>auto simp: sent_closed_def\<close>)
  have outer: "emits sent_closed (deferred (CloseFd ControlFd) (act_bind (call (k_sys k) (TunOpen tunDevice)) (\<lambda>_. m)))"
    if "emits sent_closed m" for m :: "(sysop list, unit) act"
    by (rule emits_deferred [where Q = sent_closed], rule emits_bind) (use that one in \<open>auto simp: sent_closed_def\<close>)
  show ?thesis
    unfolding runContainer_def descriptors_simps
  proof (rule emits_bind [OF _ emits_silent(1)], simp_all only: joins_sent, goal_cases)
    case (1 fc)
    show ?case by (cases fc) (simp only: prod.case, intro emits_bind one outer inner joins_sent; simp)
  qed
qed

section \<open>When every call succeeds\<close>

definition willing :: "kernel \<Rightarrow> bool" where
  "willing k \<longleftrightarrow> (\<forall>h op. k_sys k h op = None) \<and> (\<forall>a. \<exists>ip. k_ParseAddr k a = Inr ip)"

lemma willing_sys: "willing k \<Longrightarrow> k_sys k h op = None"
  by (simp add: willing_def)

lemmas willing_k = willing_call [of "k_sys k" for k, OF willing_sys] willing_calls [of "k_sys k" for k, OF willing_sys]

lemma willing_ParseAddr: "willing k \<Longrightarrow> \<exists>ip. k_ParseAddr k a = Inr ip"
  by (simp add: willing_def)

lemma willing_loopback:
  "willing k \<Longrightarrow> setupLoopback k h = (Ret (), h @ [LinkByName loDevice, AddrAdd loDevice ''127.0.0.1/8'' False, LinkSetUp loDevice])"
  using willing_ParseAddr [of k "''127.0.0.1/8''"] by (auto simp: setupLoopback_def act_bind_def willing_k)

text \<open>What the setup amounts to: everything up to the command, with nothing run in between and no staging directory left.\<close>

definition network_ready :: "kernel \<Rightarrow> bool \<Rightarrow> sysop set \<Rightarrow> bool" where
  "network_ready k six S \<longleftrightarrow> SendMTU (k_mtu k) \<in> S \<and> ReceiveACK \<in> S \<and> (\<exists>gw. RouteAdd (Some gw) None tunDevice \<in> S) \<and>
     (six \<longrightarrow> RouteAdd None (Some \<lparr>net_IP = replicate 16 0, net_Mask = CIDRMask 0 128\<rparr>) tunDevice \<in> S)"

definition files_ready :: "sysop set \<Rightarrow> bool" where
  "files_ready S \<longleftrightarrow> private_ns S \<and> shadowed ''/etc/resolv.conf'' S \<and> shadowed ''/etc/hosts'' S"

definition no_traces :: "sysop set \<Rightarrow> bool" where
  "no_traces S \<longleftrightarrow> (\<forall>d. MkdirTemp d \<in> S \<longrightarrow> Remove d \<in> S) \<and> (\<forall>name args attr. Exec name args attr \<notin> S)"

lemma no_traces_Un: "no_traces S \<Longrightarrow> no_traces T \<Longrightarrow> no_traces (S \<union> T)"
  by (auto simp: no_traces_def)

lemma willing_network:
  assumes "willing k"
  shows "\<exists>ops. runContainer_network k f fds h = (Ret (), h @ SendFds fds # ops) \<and> network_ready k (rc_ipv6 f) (set ops) \<and> no_traces (set ops)"
proof -
  obtain ip ip6 where "k_ParseAddr k tunNetworkAddr = Inr ip" "k_ParseAddr k tunNetworkAddrV6 = Inr ip6"
    using willing_ParseAddr [OF assms] by metis
  with assms show ?thesis
    by (auto simp: network_calls setupIPNetwork_def setupIPAddress_def allowPing_def act_bind_def act_lift_def act_ret_def
        willing_k willing_loopback network_ready_def no_traces_def)
qed

lemma willing_files:
  assumes "willing k"
  shows "\<exists>ops. runContainer_files k f h = (Ret (), h @ ops) \<and> files_ready (set ops) \<and> no_traces (set ops)"
proof -
  have "\<exists>out. resolvConfContent (rc_dns f) s = Ret out" "\<exists>out. hostsContent (rc_hostname f) s = Ret out" for s
    by (simp_all add: resolvConfContent_def hostsContent_def tunPeerAddr_eq Let_def)
  then obtain resolv hosts where "resolvConfContent (rc_dns f) s = Ret (resolv s)" "hostsContent (rc_hostname f) s = Ret (hosts s)" for s
    by metis
  with assms show ?thesis
    by (auto simp: runContainer_files_def makeMountsPrivate_def bindMountFile_def readHostFile_def act_bind_def act_lift_def Let_def
        willing_k files_ready_def private_ns_def shadowed_def no_traces_def)
qed

text \<open>The main part is two such pieces and the command.\<close>

definition set_up :: "kernel \<Rightarrow> bool \<Rightarrow> fd list \<Rightarrow> sysop set \<Rightarrow> bool" where
  "set_up k six fds S \<longleftrightarrow> SendFds fds \<in> S \<and> network_ready k six S \<and> files_ready S \<and> no_traces S"

lemma willing_main:
  assumes "willing k"
  shows "\<exists>ops. runContainer_main k f cmd fds h = runContainer_command k f cmd (h @ ops) \<and> set_up k (rc_ipv6 f) fds (set ops)"
proof -
  obtain o1 where o1: "runContainer_network k f fds h = (Ret (), h @ SendFds fds # o1)" "network_ready k (rc_ipv6 f) (set o1)" "no_traces (set o1)"
    using willing_network [OF assms] by blast
  obtain o2 where o2: "runContainer_files k f (h @ SendFds fds # o1) = (Ret (), (h @ SendFds fds # o1) @ o2)"
      "files_ready (set o2)" "no_traces (set o2)"
    using willing_files [OF assms] by blast
  have "set_up k (rc_ipv6 f) fds (set (SendFds fds # o1 @ o2))"
    using o1(2,3) o2(2,3) by (auto simp: set_up_def network_ready_def files_ready_def private_ns_def shadowed_def no_traces_def)
  with o1(1) o2(1) show ?thesis
    by (intro exI [of _ "SendFds fds # o1 @ o2"]) (auto simp: runContainer_main_def act_bind_def)
qed

lemma set_up_more:
  assumes "set_up k six fds S" "no_traces T"
  shows "set_up k six fds (T \<union> S)"
  using assms no_traces_Un by (auto simp: set_up_def network_ready_def files_ready_def private_ns_def shadowed_def)

lemma willing_run:
  assumes "willing k" and "runc_parse (k_euid k) (k_egid k) args = Ret (f, cmd)"
  shows "\<exists>ops. runContainer k args [] =
      (case runContainer_command k f cmd ops of (x, h) \<Rightarrow> (x, h @ map CloseFd (rev (descriptors (rc_dns f)) @ [ControlFd]))) \<and>
    set_up k (rc_ipv6 f) (descriptors (rc_dns f)) (set ops)"
proof -
  let ?h = "[Sethostname (rc_hostname f), CloseOnExec ControlFd, TunOpen tunDevice, CloseOnExec TunFd]"
  let ?dns = "[LinkByName loDevice, AddrAdd loDevice ''127.0.0.1/8'' False, LinkSetUp loDevice, Socket DnsUdpFd True, Bind DnsUdpFd [127, 0, 0, 1] 53,
              Socket DnsTcpFd True, Reuseaddr DnsTcpFd, Bind DnsTcpFd [127, 0, 0, 1] 53, Listen DnsTcpFd]"
  have quiet: "no_traces (set ?h)" "no_traces (set (?h @ ?dns))" by (auto simp: no_traces_def)
  show ?thesis
  proof (cases "rc_dns f")
    case True
    obtain ops where ops: "runContainer_main k f cmd (descriptors True) (?h @ ?dns) = runContainer_command k f cmd ((?h @ ?dns) @ ops)"
      "set_up k (rc_ipv6 f) (descriptors True) (set ops)"
      using willing_main [OF assms(1)] by blast
    from True assms ops(1) set_up_more [OF ops(2) quiet(2)] show ?thesis
      by (intro exI [of _ "(?h @ ?dns) @ ops"])
        (auto simp: runContainer_def noted_def descriptors_simps act_bind_def act_lift_def deferred_runs willing_k willing_loopback createResolverSockets_def
          split: prod.splits)
  next
    case False
    obtain ops where ops: "runContainer_main k f cmd (descriptors False) ?h = runContainer_command k f cmd (?h @ ops)"
      "set_up k (rc_ipv6 f) (descriptors False) (set ops)"
      using willing_main [OF assms(1)] by blast
    from False assms ops(1) set_up_more [OF ops(2) quiet(1)] show ?thesis
      by (intro exI [of _ "?h @ ops"])
        (auto simp: runContainer_def noted_def descriptors_simps act_bind_def act_lift_def deferred_runs willing_k split: prod.splits)
  qed
qed

lemma container_outcome:
  assumes "willing k" and "0 \<le> uid" and "uid < 2 ^ 63" and "0 \<le> gid" and "gid < 2 ^ 63"
  shows "\<exists>f x setup run. runContainer k (runc_args privileged useDNS ipv6 hostname uid gid cmdArgs) [] =
      (x, setup @ run @ map CloseFd (rev (descriptors useDNS) @ [ControlFd])) \<and>
    set_up k ipv6 (descriptors useDNS) (set setup) \<and>
    (case cmdArgs of
       [] \<Rightarrow> run = [] \<and> x = Pan ''index out of range''
     | name # rest \<Rightarrow> x = Ret () \<and> rc_uid f = uid \<and> rc_gid f = gid \<and> rc_privileged f = privileged \<and>
         run = [Exec name rest (runc_sys_attr f (k_euid k) (k_egid k))])"
proof -
  let ?args = "runc_args privileged useDNS ipv6 hostname uid gid cmdArgs"
  obtain f where f: "runc_parse (k_euid k) (k_egid k) ?args = Ret (f, cmdArgs)" "rc_uid f = uid" "rc_gid f = gid" "rc_privileged f = privileged"
      "rc_dns f = useDNS" "rc_ipv6 f = ipv6"
    using runc_parse_args [OF assms(2-5)] by simp
  from willing_run [OF assms(1) f(1)] obtain ops where
    run: "runContainer k ?args [] =
      (case runContainer_command k f cmdArgs ops of (x, h) \<Rightarrow> (x, h @ map CloseFd (rev (descriptors useDNS) @ [ControlFd])))"
    and ops: "set_up k ipv6 (descriptors useDNS) (set ops)" unfolding f(5,6) by blast
  have cmd: "runContainer_command k f cmdArgs ops = (case cmdArgs of
      [] \<Rightarrow> (Pan ''index out of range'', ops)
    | name # rest \<Rightarrow> (Ret (), ops @ [Exec name rest (runc_sys_attr f (k_euid k) (k_egid k))]))"
    by (cases cmdArgs)
      (simp_all add: runContainer_command_def runc_command_def index_def slice_def act_bind_def act_lift_def willing_k [OF assms(1)])
  show ?thesis
    by (rule exI [of _ f], cases cmdArgs) (use run cmd ops f in \<open>auto intro!: exI [of _ ops]\<close>)
qed

section \<open>Properties\<close>

text \<open>
  C30: The container is set up in a safe order, whatever fails. In every history the container process can leave, whichever call fails and
  wherever: descriptors go to the parent only when they are close-on-exec; the acknowledgement is awaited after they and the MTU were sent;
  routes and mounts change only after it; nothing is mounted before the mount namespace is private, so the host never sees it;
  and the user's command starts only when the default route and both shadowed files are in place, without the control socket or the
  TUN among its descriptors. Every descriptor that was sent is closed in the end.
\<close>

theorem container_setup_ordered:
  assumes "runContainer k args [] = (x, h)"
  shows "ordered guard h \<and> (\<forall>fds d. SendFds fds \<in> set h \<and> d \<in> set fds \<longrightarrow> CloseFd d \<in> set h)"
  using child.run_ordered [OF follows_runContainer assms] emits_start [OF emits_runContainer assms] by (auto simp: sent_closed_def)

text \<open>
  C31: A missing command is a crash after the whole setup, not an error before it. When no call fails, the history of the container process
  started with the parent's arguments is a setup, then the command if there is one, then the closes of its descriptors and nothing else. The
  setup is complete either way: the TUN and, with \<^verbatim>\<open>-D\<close>, the two resolver sockets are sent, then the MTU, the acknowledgement is received, the
  default route is set (with \<^verbatim>\<open>-6\<close> the IPv6 one too), the mounts are private, \<^verbatim>\<open>/etc/resolv.conf\<close> and \<^verbatim>\<open>/etc/hosts\<close> are shadowed,
  and every staging directory that was made is removed. With a command the process runs it once, with its arguments, under the credentials the
  flags ask for; without one it panics with an index out of range.
\<close>

theorem container_runs_command_or_panics:
  assumes "willing k" and "0 \<le> uid" and "uid < 2 ^ 63" and "0 \<le> gid" and "gid < 2 ^ 63"
  shows "\<exists>f x setup run. runContainer k (runc_args privileged useDNS ipv6 hostname uid gid cmdArgs) [] =
      (x, setup @ run @ map CloseFd (rev (descriptors useDNS) @ [ControlFd])) \<and>
    SendFds (descriptors useDNS) \<in> set setup \<and> SendMTU (k_mtu k) \<in> set setup \<and> ReceiveACK \<in> set setup \<and>
    (\<exists>gw. RouteAdd (Some gw) None tunDevice \<in> set setup) \<and>
    (ipv6 \<longrightarrow> RouteAdd None (Some \<lparr>net_IP = replicate 16 0, net_Mask = CIDRMask 0 128\<rparr>) tunDevice \<in> set setup) \<and>
    MountPrivate ''/'' \<in> set setup \<and> (\<exists>src. MountBind src ''/etc/resolv.conf'' \<in> set setup) \<and>
    (\<exists>src. MountBind src ''/etc/hosts'' \<in> set setup) \<and>
    (\<forall>d. MkdirTemp d \<in> set setup \<longrightarrow> Remove d \<in> set setup) \<and> (\<forall>name args attr. Exec name args attr \<notin> set setup) \<and>
    (case cmdArgs of
       [] \<Rightarrow> run = [] \<and> x = Pan ''index out of range''
     | name # rest \<Rightarrow> x = Ret () \<and> rc_uid f = uid \<and> rc_gid f = gid \<and> rc_privileged f = privileged \<and>
         run = [Exec name rest (runc_sys_attr f (k_euid k) (k_egid k))])"
  using container_outcome [OF assms, of privileged useDNS ipv6 hostname cmdArgs]
  unfolding set_up_def network_ready_def files_ready_def private_ns_def shadowed_def no_traces_def by (elim exE conjE) (intro exI conjI; assumption)

text \<open>Witnesses: a kernel on which everything works, and one on which the staging directory cannot be mounted.\<close>

definition demo_kernel :: kernel where
  "demo_kernel = \<lparr>k_sys = (\<lambda>_ _. None), k_tmpDir = (\<lambda>h. ''/tmp/wirez-'' @ itoa (length h)), k_file = (\<lambda>_ _. None), k_mtu = 1500,
     k_ParseAddr = (\<lambda>_. Inr [10, 1, 1, 1]), k_euid = 0, k_egid = 0\<rparr>"

definition demo_full :: kernel where
  "demo_full = demo_kernel\<lparr>k_sys := (\<lambda>_ op. case op of MountTmpfs d opts \<Rightarrow> Some (Foreign ''no space left on device'' False) | _ \<Rightarrow> None)\<rparr>"

theorem container_setup_ordered_witness:
  "\<exists>e h. runContainer demo_full (runc_args False False False ''wirez'' 1000 100 [''ls'']) [] = (Exc e, h) \<and>
    MkdirTemp ''/tmp/wirez-18'' \<in> set h \<and> ordered guard h"
proof -
  let ?args = "runc_args False False False ''wirez'' 1000 100 [''ls'']"
  have l: "(case runContainer demo_full ?args [] of (x, h) \<Rightarrow> (case x of Exc e \<Rightarrow> True | _ \<Rightarrow> False) \<and> MkdirTemp ''/tmp/wirez-18'' \<in> set h)"
    by code_simp
  then obtain e h where r: "runContainer demo_full ?args [] = (Exc e, h)" "MkdirTemp ''/tmp/wirez-18'' \<in> set h"
    by (auto split: prod.splits res.splits)
  with container_setup_ordered [OF r(1)] show ?thesis by blast
qed

theorem container_runs_command_or_panics_witness:
  "\<exists>h. runContainer demo_kernel (runc_args False True False ''wirez'' 1000 100 []) [] = (Pan ''index out of range'', h) \<and>
    ReceiveACK \<in> set h \<and> (\<exists>src. MountBind src ''/etc/hosts'' \<in> set h)"
proof -
  have w: "willing demo_kernel" by (simp add: willing_def demo_kernel_def)
  from container_runs_command_or_panics [OF w, of 1000 100 False True False "''wirez''" "[]"] show ?thesis by auto
qed

end
