(* ===== verification/Transport.thy ===== *)
theory Transport
  imports Prelude "HOL-Library.Sublist"
begin

text \<open>
  \<^verbatim>\<open>src/transport.go\<close>: the relay between the container's side of a connection and the destination's. A
  connection is a socket, or a \<^verbatim>\<open>TimeoutConn\<close> around a connection. What a socket's next reads and writes return is
  given by scripts, one entry per call, so that every behaviour of the network is a choice of scripts; a read with an
  empty script blocks. The two copying goroutines, the channel they report on and the caller that waits for it are the
  processes of \<open>tstep\<close>.
\<close>

section \<open>Connections\<close>

text \<open>
  \<open>sk_cw\<close> is \<open>None\<close> when the type has no \<^verbatim>\<open>CloseWrite\<close> method, otherwise the result of calling it. \<open>sk_sent\<close> and
  \<open>sk_got\<close> list what arrived at the socket and was read, and what the socket accepted, call by call.
\<close>

record sock =
  sk_dgram :: bool
  sk_reads :: "(bytes \<times> err option) list"
  sk_writes :: "(nat \<times> err option) list"
  sk_cw :: "err option option"
  sk_deadline :: "nat option"
  sk_sent :: "bytes list"
  sk_got :: "bytes list"
  sk_shut :: bool

datatype rwconn = Sock sock | TimeoutConn rwconn nat

definition NewTimeoutConn :: "rwconn \<Rightarrow> nat \<Rightarrow> rwconn" where
  "NewTimeoutConn conn ioTimeout = TimeoutConn conn ioTimeout"

primrec SetDeadline :: "nat \<Rightarrow> rwconn \<Rightarrow> rwconn" where
  "SetDeadline t (Sock s) = Sock (s\<lparr>sk_deadline := Some t\<rparr>)"
| "SetDeadline t (TimeoutConn c d) = TimeoutConn (SetDeadline t c) d"

text \<open>A socket's \<^verbatim>\<open>Read\<close>: a stream keeps what does not fit the buffer, a datagram socket drops it.\<close>

definition sock_Read :: "nat \<Rightarrow> sock \<Rightarrow> (bytes \<times> err option \<times> sock) option" where
  "sock_Read n s =
     (case sk_reads s of
        [] \<Rightarrow> None
      | (b, e) # rest \<Rightarrow>
          if length b \<le> n then Some (b, e, s\<lparr>sk_reads := rest, sk_sent := sk_sent s @ [b]\<rparr>)
          else if sk_dgram s then Some (take n b, e, s\<lparr>sk_reads := rest, sk_sent := sk_sent s @ [b]\<rparr>)
          else Some (take n b, None, s\<lparr>sk_reads := (drop n b, e) # rest, sk_sent := sk_sent s @ [take n b]\<rparr>))"

definition sock_Write :: "bytes \<Rightarrow> sock \<Rightarrow> nat \<times> err option \<times> sock" where
  "sock_Write b s =
     (case sk_writes s of
        [] \<Rightarrow> (length b, None, s\<lparr>sk_got := sk_got s @ [b]\<rparr>)
      | (n, e) # rest \<Rightarrow> (n, e, s\<lparr>sk_writes := rest, sk_got := sk_got s @ [take n b]\<rparr>))"

text \<open>The methods of a connection at time \<open>now\<close>; those of \<^verbatim>\<open>TimeoutConn\<close> arm the deadline first and ignore its error.\<close>

lemma size_SetDeadline [simp]: "size (SetDeadline t c) = size c"
  by (induction c) auto

fun conn_Read :: "nat \<Rightarrow> nat \<Rightarrow> rwconn \<Rightarrow> (bytes \<times> err option \<times> rwconn) option" where
  "conn_Read now n (Sock s) = map_option (\<lambda>(b, e, s'). (b, e, Sock s')) (sock_Read n s)"
| "conn_Read now n (TimeoutConn c d) =
     map_option (\<lambda>(b, e, c'). (b, e, TimeoutConn c' d)) (conn_Read now n (SetDeadline (now + d) c))"

fun conn_Write :: "nat \<Rightarrow> bytes \<Rightarrow> rwconn \<Rightarrow> nat \<times> err option \<times> rwconn" where
  "conn_Write now b (Sock s) = (case sock_Write b s of (n, e, s') \<Rightarrow> (n, e, Sock s'))"
| "conn_Write now b (TimeoutConn c d) =
     (case conn_Write now b (SetDeadline (now + d) c) of (n, e, c') \<Rightarrow> (n, e, TimeoutConn c' d))"

text \<open>The interface \<^verbatim>\<open>closeWriter\<close> of \<^verbatim>\<open>src/connect.go\<close>, and the function that half-closes any connection.\<close>

primrec is_closeWriter :: "rwconn \<Rightarrow> bool" where
  "is_closeWriter (Sock s) \<longleftrightarrow> sk_cw s \<noteq> None"
| "is_closeWriter (TimeoutConn c d) \<longleftrightarrow> True"

primrec closeWrite :: "rwconn \<Rightarrow> err option \<times> rwconn" where
  "closeWrite (Sock s) =
     (case sk_cw s of
        None \<Rightarrow> (Some ErrUnsupported, Sock s)
      | Some e \<Rightarrow> (e, Sock (s\<lparr>sk_shut := (sk_shut s \<or> e = None)\<rparr>)))"
| "closeWrite (TimeoutConn c d) = (case closeWrite c of (e, c') \<Rightarrow> (e, TimeoutConn c' d))"

section \<open>The copy\<close>

definition relayBufferSize :: nat where
  "relayBufferSize = 65536"

text \<open>
  Where a relay goroutine is: in the copy loop of \<^verbatim>\<open>io.CopyBuffer\<close>, about to write a chunk (with the error that came
  with it), about to half-close, about to report, or gone.
\<close>

datatype relay_pc =
    Reading
  | Writing bytes "err option"
  | HalfClosing
  | Posting "err option"
  | Finished "err option"

definition errInvalidWrite :: err where
  "errInvalidWrite = Fmt ''invalid write result'' []"

definition after_read :: "err option \<Rightarrow> relay_pc" where
  "after_read er = (case er of None \<Rightarrow> Reading | Some e \<Rightarrow> if e = EOF then HalfClosing else Posting (Some e))"

definition after_write :: "nat \<Rightarrow> err option \<Rightarrow> bytes \<Rightarrow> err option \<Rightarrow> relay_pc" where
  "after_write nw ew b er =
     (if length b < nw then Posting (Some (case ew of None \<Rightarrow> errInvalidWrite | Some e \<Rightarrow> e))
      else case ew of
          Some e \<Rightarrow> Posting (Some e)
        | None \<Rightarrow> if nw \<noteq> length b then Posting (Some ShortWrite) else after_read er)"

text \<open>One step of \<^verbatim>\<open>relay(w, r)\<close>, up to the report.\<close>

definition relay_step :: "nat \<Rightarrow> rwconn \<Rightarrow> rwconn \<Rightarrow> relay_pc \<Rightarrow> (rwconn \<times> rwconn \<times> relay_pc) option" where
  "relay_step now w r pc =
     (case pc of
        Reading \<Rightarrow>
          (case conn_Read now relayBufferSize r of
             None \<Rightarrow> None
           | Some (b, er, r') \<Rightarrow> Some (w, r', if b \<noteq> [] then Writing b er else after_read er))
      | Writing b er \<Rightarrow> (case conn_Write now b w of (nw, ew, w') \<Rightarrow> Some (w', r, after_write nw ew b er))
      | HalfClosing \<Rightarrow>
          (if is_closeWriter w
           then (case closeWrite w of (e, w') \<Rightarrow> Some (w', r, Posting (if e = None then None else Some EOF)))
           else Some (w, r, Posting (Some EOF)))
      | Posting e \<Rightarrow> None
      | Finished e \<Rightarrow> None)"

section \<open>Transport\<close>

datatype main_pc = WaitFirst | WaitSecond | Returned "err option"

text \<open>\<open>t_posted\<close> lists every report made so far, the received ones included; only specifications read it.\<close>

record tst =
  t_rw1 :: rwconn
  t_rw2 :: rwconn
  t_to1 :: relay_pc
  t_to2 :: relay_pc
  t_errc :: "err option list"
  t_main :: main_pc
  t_posted :: "err option list"

definition Transport :: "rwconn \<Rightarrow> rwconn \<Rightarrow> tst" where
  "Transport rw1 rw2 = \<lparr>t_rw1 = rw1, t_rw2 = rw2, t_to1 = Reading, t_to2 = Reading, t_errc = [], t_main = WaitFirst, t_posted = []\<rparr>"

definition transport_err :: "err option \<Rightarrow> err option" where
  "transport_err x = (case x of None \<Rightarrow> None | Some e \<Rightarrow> if e = EOF \<or> as_timeout e = Some True then None else Some e)"

inductive tstep :: "tst \<Rightarrow> tst \<Rightarrow> bool" where
  relay1: "relay_step now (t_rw1 s) (t_rw2 s) (t_to1 s) = Some (w, r, pc) \<Longrightarrow>
    tstep s (s\<lparr>t_rw1 := w, t_rw2 := r, t_to1 := pc\<rparr>)"
| relay2: "relay_step now (t_rw2 s) (t_rw1 s) (t_to2 s) = Some (w, r, pc) \<Longrightarrow>
    tstep s (s\<lparr>t_rw1 := r, t_rw2 := w, t_to2 := pc\<rparr>)"
| post1: "t_to1 s = Posting e \<Longrightarrow> length (t_errc s) < 2 \<Longrightarrow>
    tstep s (s\<lparr>t_to1 := Finished e, t_errc := t_errc s @ [e], t_posted := t_posted s @ [e]\<rparr>)"
| post2: "t_to2 s = Posting e \<Longrightarrow> length (t_errc s) < 2 \<Longrightarrow>
    tstep s (s\<lparr>t_to2 := Finished e, t_errc := t_errc s @ [e], t_posted := t_posted s @ [e]\<rparr>)"
| first: "t_main s = WaitFirst \<Longrightarrow> t_errc s = e # rest \<Longrightarrow>
    tstep s (s\<lparr>t_errc := rest, t_main := (if e = None then WaitSecond else Returned (transport_err e))\<rparr>)"
| second: "t_main s = WaitSecond \<Longrightarrow> t_errc s = e # rest \<Longrightarrow>
    tstep s (s\<lparr>t_errc := rest, t_main := Returned (transport_err e)\<rparr>)"

inductive treach :: "tst \<Rightarrow> tst \<Rightarrow> bool" for s0 where
  treach_refl: "treach s0 s0"
| treach_step: "treach s0 s \<Longrightarrow> tstep s s' \<Longrightarrow> treach s0 s'"

section \<open>What the methods do to the socket\<close>

primrec base :: "rwconn \<Rightarrow> sock" where
  "base (Sock s) = s"
| "base (TimeoutConn c d) = base c"

lemma base_SetDeadline [simp]: "base (SetDeadline t c) = (base c)\<lparr>sk_deadline := Some t\<rparr>"
  by (induction c) auto

text \<open>Both methods act on the socket underneath; only its deadline may be another.\<close>

lemma conn_Read_base:
  "conn_Read now n c = Some (b, e, c') \<Longrightarrow>
     \<exists>dl s. sock_Read n ((base c)\<lparr>sk_deadline := dl\<rparr>) = Some (b, e, s) \<and> base c' = s"
proof (induction now n c arbitrary: b e c' rule: conn_Read.induct)
  case (1 now n s)
  then show ?case by (intro exI [of _ "sk_deadline s"]) auto
next
  case (2 now n c d)
  then obtain c1 where "conn_Read now n (SetDeadline (now + d) c) = Some (b, e, c1)" "c' = TimeoutConn c1 d" by auto
  with 2 show ?case by fastforce
qed

lemma conn_Read_None: "conn_Read now n c = None \<longleftrightarrow> sk_reads (base c) = []"
proof (induction now n c rule: conn_Read.induct)
  case (1 now n s)
  then show ?case by (auto simp: sock_Read_def split: list.splits prod.splits if_splits)
qed simp

lemma conn_Write_base:
  "conn_Write now b c = (n, e, c') \<Longrightarrow> \<exists>dl s. sock_Write b ((base c)\<lparr>sk_deadline := dl\<rparr>) = (n, e, s) \<and> base c' = s"
proof (induction now b c arbitrary: n e c' rule: conn_Write.induct)
  case (1 now b s)
  then show ?case by (intro exI [of _ "sk_deadline s"]) (auto split: prod.splits)
next
  case (2 now b c d)
  then obtain c1 where "conn_Write now b (SetDeadline (now + d) c) = (n, e, c1)" "c' = TimeoutConn c1 d"
    by (auto split: prod.splits)
  with 2 show ?case by fastforce
qed

text \<open>The scripted stream of a peer: its bytes up to the first error, and that error.\<close>

fun todo :: "(bytes \<times> err option) list \<Rightarrow> bytes" where
  "todo [] = []"
| "todo ((b, None) # rest) = b @ todo rest"
| "todo ((b, Some e) # rest) = b"

definition whole :: "sock \<Rightarrow> bool" where
  "whole s \<longleftrightarrow> sk_dgram s \<longrightarrow> (\<forall>(b, e) \<in> set (sk_reads s). length b \<le> relayBufferSize)"

text \<open>What remains to be read, as a measure, and whether an error ends it.\<close>

definition backlog :: "(bytes \<times> err option) list \<Rightarrow> nat" where
  "backlog rs = sum_list (map (\<lambda>(b, _). Suc (length b)) rs)"

definition ends :: "(bytes \<times> err option) list \<Rightarrow> bool" where
  "ends rs \<longleftrightarrow> (\<exists>x \<in> set rs. snd x \<noteq> None)"

lemma sock_Read_effect:
  assumes "sock_Read relayBufferSize s = Some (b, e, s')" "whole s"
  shows "sk_sent s' = sk_sent s @ [b] \<and> sk_got s' = sk_got s \<and> sk_shut s' = sk_shut s \<and> sk_cw s' = sk_cw s \<and>
      sk_writes s' = sk_writes s"
    "whole s' \<and> todo (sk_reads s) = b @ (if e = None then todo (sk_reads s') else [])"
    "backlog (sk_reads s') < backlog (sk_reads s)"
    "snd ` set (sk_reads s') \<subseteq> snd ` set (sk_reads s)"
    "e \<noteq> None \<Longrightarrow> e \<in> snd ` set (sk_reads s)"
    "e = None \<Longrightarrow> ends (sk_reads s) \<Longrightarrow> ends (sk_reads s')"
proof -
  obtain b0 e0 rest where x: "sk_reads s = (b0, e0) # rest"
    using assms(1) by (cases "sk_reads s") (auto simp: sock_Read_def)
  have pos: "0 < relayBufferSize" by (simp add: relayBufferSize_def)
  show "sk_sent s' = sk_sent s @ [b] \<and> sk_got s' = sk_got s \<and> sk_shut s' = sk_shut s \<and> sk_cw s' = sk_cw s \<and>
      sk_writes s' = sk_writes s"
    using assms x by (auto simp: sock_Read_def whole_def split: if_splits)
  show "whole s' \<and> todo (sk_reads s) = b @ (if e = None then todo (sk_reads s') else [])"
    using assms x by (cases e0) (auto simp: sock_Read_def whole_def split: if_splits)
  show "backlog (sk_reads s') < backlog (sk_reads s)" "snd ` set (sk_reads s') \<subseteq> snd ` set (sk_reads s)"
    "e \<noteq> None \<Longrightarrow> e \<in> snd ` set (sk_reads s)" "e = None \<Longrightarrow> ends (sk_reads s) \<Longrightarrow> ends (sk_reads s')"
    using assms(1) x pos by (auto simp: sock_Read_def backlog_def ends_def split: if_splits)
qed

lemma read_effect:
  assumes "conn_Read now relayBufferSize c = Some (b, e, c')" "whole (base c)"
  shows "sk_sent (base c') = sk_sent (base c) @ [b]" "sk_got (base c') = sk_got (base c)" "sk_shut (base c') = sk_shut (base c)"
    "sk_cw (base c') = sk_cw (base c)" "sk_writes (base c') = sk_writes (base c)" "whole (base c')"
    "todo (sk_reads (base c)) = b @ (if e = None then todo (sk_reads (base c')) else [])"
    "backlog (sk_reads (base c')) < backlog (sk_reads (base c))"
    "snd ` set (sk_reads (base c')) \<subseteq> snd ` set (sk_reads (base c))"
    "e \<noteq> None \<Longrightarrow> e \<in> snd ` set (sk_reads (base c))"
    "e = None \<Longrightarrow> ends (sk_reads (base c)) \<Longrightarrow> ends (sk_reads (base c'))"
proof -
  from conn_Read_base [OF assms(1)] obtain dl where
    r: "sock_Read relayBufferSize ((base c)\<lparr>sk_deadline := dl\<rparr>) = Some (b, e, base c')" by blast
  have w: "whole ((base c)\<lparr>sk_deadline := dl\<rparr>)" using assms(2) by (simp add: whole_def)
  note E = sock_Read_effect [OF r w, simplified]
  show "sk_sent (base c') = sk_sent (base c) @ [b]" "sk_got (base c') = sk_got (base c)" "sk_shut (base c') = sk_shut (base c)"
    "sk_cw (base c') = sk_cw (base c)" "sk_writes (base c') = sk_writes (base c)" using E(1) by blast+
  show "whole (base c')" "todo (sk_reads (base c)) = b @ (if e = None then todo (sk_reads (base c')) else [])"
    using E(2) by auto
  show "backlog (sk_reads (base c')) < backlog (sk_reads (base c))"
    "snd ` set (sk_reads (base c')) \<subseteq> snd ` set (sk_reads (base c))" using E(3,4) by blast+
  show "e \<noteq> None \<Longrightarrow> e \<in> snd ` set (sk_reads (base c))" using E(5) by auto
  show "e = None \<Longrightarrow> ends (sk_reads (base c)) \<Longrightarrow> ends (sk_reads (base c'))" using E(6) by blast
qed

lemma write_effect:
  assumes "conn_Write now b c = (n, e, c')"
  shows "sk_sent (base c') = sk_sent (base c)" "sk_got (base c') = sk_got (base c) @ [take n b]" "sk_shut (base c') = sk_shut (base c)"
    "sk_cw (base c') = sk_cw (base c)" "sk_reads (base c') = sk_reads (base c)" "sk_dgram (base c') = sk_dgram (base c)"
    "sk_writes (base c) = [] \<Longrightarrow> n = length b \<and> e = None \<and> sk_writes (base c') = []"
proof -
  have E: "sk_sent s' = sk_sent s \<and> sk_got s' = sk_got s @ [take n b] \<and> sk_shut s' = sk_shut s \<and> sk_cw s' = sk_cw s \<and>
      sk_reads s' = sk_reads s \<and> sk_dgram s' = sk_dgram s \<and>
      (sk_writes s = [] \<longrightarrow> n = length b \<and> e = None \<and> sk_writes s' = [])"
    if "sock_Write b s = (n, e, s')" for s s' :: sock
    using that by (cases "sk_writes s") (auto simp: sock_Write_def)
  from conn_Write_base [OF assms] obtain dl where "sock_Write b ((base c)\<lparr>sk_deadline := dl\<rparr>) = (n, e, base c')" by blast
  note F = E [OF this, simplified]
  show "sk_sent (base c') = sk_sent (base c)" "sk_got (base c') = sk_got (base c) @ [take n b]"
    "sk_shut (base c') = sk_shut (base c)"
    "sk_cw (base c') = sk_cw (base c)" "sk_reads (base c') = sk_reads (base c)" "sk_dgram (base c') = sk_dgram (base c)"
    "sk_writes (base c) = [] \<Longrightarrow> n = length b \<and> e = None \<and> sk_writes (base c') = []"
    using F by blast+
qed

lemma closeWrite_effect:
  assumes "closeWrite c = (e, c')"
  shows "sk_sent (base c') = sk_sent (base c)" "sk_got (base c') = sk_got (base c)" "sk_cw (base c') = sk_cw (base c)"
    "sk_reads (base c') = sk_reads (base c)" "sk_dgram (base c') = sk_dgram (base c)" "sk_writes (base c') = sk_writes (base c)"
    "e = None \<Longrightarrow> sk_shut (base c')" "sk_cw (base c) = Some None \<Longrightarrow> e = None" "sk_shut (base c) \<Longrightarrow> sk_shut (base c')"
  using assms by (induction c arbitrary: e c') (auto split: option.splits prod.splits)

section \<open>One direction\<close>

abbreviation chunks :: "sock \<Rightarrow> bytes list" where
  "chunks r \<equiv> filter (\<lambda>b. b \<noteq> []) (sk_sent r)"

text \<open>What a finished direction leaves, for a peer whose scripted stream is \<open>T\<close>.\<close>

definition ended :: "bytes \<Rightarrow> sock \<Rightarrow> sock \<Rightarrow> err option \<Rightarrow> bool" where
  "ended T w r e \<longleftrightarrow>
     (case e of None \<Rightarrow> chunks r = sk_got w \<and> T = concat (sk_sent r) \<and> sk_shut w
      | Some _ \<Rightarrow> prefix (concat (sk_got w)) T \<and> prefix (butlast (sk_got w)) (chunks r))"

definition dir_ok :: "bytes \<Rightarrow> sock \<Rightarrow> sock \<Rightarrow> relay_pc \<Rightarrow> bool" where
  "dir_ok T w r pc \<longleftrightarrow> whole r \<and>
     (case pc of
        Reading \<Rightarrow> chunks r = sk_got w \<and> T = concat (sk_sent r) @ todo (sk_reads r)
      | Writing b er \<Rightarrow> b \<noteq> [] \<and> chunks r = sk_got w @ [b] \<and>
          T = concat (sk_sent r) @ (if er = None then todo (sk_reads r) else [])
      | HalfClosing \<Rightarrow> chunks r = sk_got w \<and> T = concat (sk_sent r)
      | Posting e \<Rightarrow> ended T w r e
      | Finished e \<Rightarrow> ended T w r e)"

lemma concat_filter_nonempty: "concat (filter (\<lambda>b. b \<noteq> []) bs) = concat bs"
  by (induction bs) auto

lemma concat_chunks: "concat (chunks r) = concat (sk_sent r)"
  using concat_filter_nonempty [of "sk_sent r"] by simp

lemma after_read_ok:
  assumes "whole r" "chunks r = sk_got w" "T = concat (sk_sent r) @ (if er = None then todo (sk_reads r) else [])"
  shows "dir_ok T w r (after_read er)"
  using assms concat_chunks [of r] by (auto simp: dir_ok_def after_read_def ended_def prefixeq_butlast split: option.splits)

lemma relay_step_ok:
  assumes "relay_step now w r pc = Some (w', r', pc')" "dir_ok T (base w) (base r) pc"
  shows "dir_ok T (base w') (base r') pc'"
proof (cases pc)
  case Reading
  with assms(1) obtain b er where x: "conn_Read now relayBufferSize r = Some (b, er, r')"
    "w' = w" "pc' = (if b \<noteq> [] then Writing b er else after_read er)"
    by (auto simp: relay_step_def split: option.splits)
  have w: "whole (base r)" using assms(2) by (simp add: dir_ok_def)
  note E = read_effect [OF x(1) w]
  have inv: "chunks (base r) = sk_got (base w)" "T = concat (sk_sent (base r)) @ todo (sk_reads (base r))"
    using assms(2) Reading by (simp_all add: dir_ok_def)
  have T: "T = concat (sk_sent (base r')) @ (if er = None then todo (sk_reads (base r')) else [])"
    unfolding inv(2) E(1) E(7) by simp
  show ?thesis
  proof (cases "b = []")
    case True
    have "chunks (base r') = sk_got (base w)" using inv(1) E(1) True by simp
    with E(6) T x True show ?thesis by (simp add: after_read_ok)
  next
    case False
    then show ?thesis using E(1,6) T x inv(1) by (auto simp: dir_ok_def)
  qed
next
  case (Writing b er)
  with assms(1) obtain nw ew where x: "conn_Write now b w = (nw, ew, w')" "r' = r" "pc' = after_write nw ew b er"
    by (auto simp: relay_step_def split: prod.splits)
  note E = write_effect [OF x(1)]
  have inv: "whole (base r)" "chunks (base r) = sk_got (base w) @ [b]"
    "T = concat (sk_sent (base r)) @ (if er = None then todo (sk_reads (base r)) else [])"
    using assms(2) Writing by (simp_all add: dir_ok_def)
  show ?thesis
  proof (cases "nw = length b \<and> ew = None")
    case True
    then have "chunks (base r) = sk_got (base w')" using E(2) inv(2) by simp
    with inv(1,3) x True show ?thesis by (simp add: after_write_def after_read_ok)
  next
    case False
    then obtain e where "pc' = Posting (Some e)" using x(3) by (auto simp: after_write_def split: option.splits if_splits)
    moreover have "concat (sk_sent (base r)) = concat (sk_got (base w)) @ b" using inv(2) concat_chunks [of "base r"] by simp
    then have "prefix (concat (sk_got (base w'))) T" using inv(3) E(2) by (simp add: take_is_prefix prefix_prefix)
    ultimately show ?thesis using inv(1,2) x(2) E(2) by (simp add: dir_ok_def ended_def)
  qed
next
  case HalfClosing
  then have inv: "whole (base r)" "chunks (base r) = sk_got (base w)" "T = concat (sk_sent (base r))"
    using assms(2) by (simp_all add: dir_ok_def)
  show ?thesis
  proof (cases "is_closeWriter w")
    case True
    obtain e w1 where c: "closeWrite w = (e, w1)" by (cases "closeWrite w")
    with assms(1) HalfClosing True have "w' = w1" "r' = r" "pc' = Posting (if e = None then None else Some EOF)"
      by (simp_all add: relay_step_def)
    with closeWrite_effect [OF c] inv concat_chunks [of "base r"] show ?thesis by (auto simp: dir_ok_def ended_def prefixeq_butlast)
  next
    case False
    with assms(1) HalfClosing inv concat_chunks [of "base r"] show ?thesis
      by (auto simp: relay_step_def dir_ok_def ended_def prefixeq_butlast)
  qed
qed (use assms in \<open>simp_all add: relay_step_def\<close>)

text \<open>The other direction does not notice.\<close>

lemma dir_ok_cong:
  assumes "dir_ok T w r pc" "sk_got w' = sk_got w" "sk_shut w \<longrightarrow> sk_shut w'" "sk_sent r' = sk_sent r"
    "sk_reads r' = sk_reads r" "sk_dgram r' = sk_dgram r"
  shows "dir_ok T w' r' pc"
  using assms by (auto simp: dir_ok_def ended_def whole_def split: relay_pc.splits option.splits)

lemma relay_step_frame:
  assumes "relay_step now w r pc = Some (w', r', pc')" "whole (base r)"
  shows "sk_got (base r') = sk_got (base r)" "sk_shut (base r') = sk_shut (base r)" "sk_cw (base r') = sk_cw (base r)"
    "sk_writes (base r') = sk_writes (base r)" "sk_sent (base w') = sk_sent (base w)" "sk_reads (base w') = sk_reads (base w)"
    "sk_dgram (base w') = sk_dgram (base w)" "sk_cw (base w') = sk_cw (base w)"
    "sk_writes (base w) = [] \<Longrightarrow> sk_writes (base w') = []"
    "snd ` set (sk_reads (base r')) \<subseteq> snd ` set (sk_reads (base r))"
proof -
  have "(\<exists>b er. conn_Read now relayBufferSize r = Some (b, er, r') \<and> w' = w) \<or>
      (\<exists>b nw ew. conn_Write now b w = (nw, ew, w') \<and> r' = r) \<or> (\<exists>e. closeWrite w = (e, w') \<and> r' = r) \<or> w' = w \<and> r' = r"
    using assms(1) by (cases pc) (auto simp: relay_step_def split: option.splits prod.splits if_splits)
  then show "sk_got (base r') = sk_got (base r)" "sk_shut (base r') = sk_shut (base r)" "sk_cw (base r') = sk_cw (base r)"
    "sk_writes (base r') = sk_writes (base r)" "sk_sent (base w') = sk_sent (base w)" "sk_reads (base w') = sk_reads (base w)"
    "sk_dgram (base w') = sk_dgram (base w)" "sk_cw (base w') = sk_cw (base w)"
    "sk_writes (base w) = [] \<Longrightarrow> sk_writes (base w') = []"
    "snd ` set (sk_reads (base r')) \<subseteq> snd ` set (sk_reads (base r))"
    by (elim disjE exE conjE; simp add: read_effect [OF _ assms(2)] write_effect closeWrite_effect)+
qed

section \<open>Both directions and the channel\<close>

definition tinv :: "bytes \<Rightarrow> bytes \<Rightarrow> tst \<Rightarrow> bool" where
  "tinv T1 T2 s \<longleftrightarrow> dir_ok T2 (base (t_rw1 s)) (base (t_rw2 s)) (t_to1 s) \<and>
     dir_ok T1 (base (t_rw2 s)) (base (t_rw1 s)) (t_to2 s)"

lemma relay_both:
  assumes "relay_step now w r pc = Some (w', r', pc')" "dir_ok T (base w) (base r) pc" "dir_ok T' (base r) (base w) pd"
  shows "dir_ok T (base w') (base r') pc'" "dir_ok T' (base r') (base w') pd"
proof -
  show "dir_ok T (base w') (base r') pc'" by (rule relay_step_ok [OF assms(1,2)])
  have "whole (base r)" using assms(2) by (simp add: dir_ok_def)
  note F = relay_step_frame [OF assms(1) this]
  show "dir_ok T' (base r') (base w') pd" by (rule dir_ok_cong [OF assms(3)]) (simp_all add: F(1,2,5-7))
qed

lemma tinv_step: "tstep s s' \<Longrightarrow> tinv T1 T2 s \<Longrightarrow> tinv T1 T2 s'"
proof (induction rule: tstep.induct)
  case (relay1 now s w r pc)
  then show ?case using relay_both [OF relay1(1)] by (auto simp: tinv_def)
next
  case (relay2 now s w r pc)
  then show ?case using relay_both [OF relay2(1)] by (auto simp: tinv_def)
qed (auto simp: tinv_def dir_ok_def)

text \<open>The channel: what is in it, what the caller has received, and who has reported.\<close>

definition is_finished :: "relay_pc \<Rightarrow> bool" where
  "is_finished pc \<longleftrightarrow> (\<exists>e. pc = Finished e)"

definition posted_ok :: "relay_pc \<Rightarrow> relay_pc \<Rightarrow> err option list \<Rightarrow> bool" where
  "posted_ok p1 p2 ps \<longleftrightarrow> length ps = of_bool (is_finished p1) + of_bool (is_finished p2) \<and>
     (\<forall>e \<in> set ps. p1 = Finished e \<or> p2 = Finished e)"

definition chan_ok :: "tst \<Rightarrow> bool" where
  "chan_ok s \<longleftrightarrow> posted_ok (t_to1 s) (t_to2 s) (t_posted s) \<and>
     (case t_main s of
        WaitFirst \<Rightarrow> t_posted s = t_errc s
      | WaitSecond \<Rightarrow> t_posted s = None # t_errc s
      | Returned x \<Rightarrow> (\<exists>e. e \<noteq> None \<and> t_posted s = e # t_errc s \<and> x = transport_err e) \<or>
          (\<exists>e. t_posted s = None # e # t_errc s \<and> x = transport_err e))"

lemma relay_not_finished: "relay_step now w r pc = Some (w', r', pc') \<Longrightarrow> \<not> is_finished pc \<and> \<not> is_finished pc'"
  by (cases pc) (auto simp: relay_step_def is_finished_def after_read_def after_write_def
      split: option.splits if_splits prod.splits)

lemma chan_ok_step: "tstep s s' \<Longrightarrow> chan_ok s \<Longrightarrow> chan_ok s'"
proof (induction rule: tstep.induct)
  case (relay1 now s w r pc)
  from relay_not_finished [OF relay1(1)] have "posted_ok pc p2 ps = posted_ok (t_to1 s) p2 ps" for p2 ps
    by (auto simp: posted_ok_def is_finished_def)
  with relay1(2) show ?case by (simp add: chan_ok_def cong: main_pc.case_cong)
next
  case (relay2 now s w r pc)
  from relay_not_finished [OF relay2(1)] have "posted_ok p1 pc ps = posted_ok p1 (t_to2 s) ps" for p1 ps
    by (auto simp: posted_ok_def is_finished_def)
  with relay2(2) show ?case by (simp add: chan_ok_def cong: main_pc.case_cong)
next
  case (post1 s e)
  then have "posted_ok (Finished e) (t_to2 s) (t_posted s @ [e])" by (auto simp: chan_ok_def posted_ok_def is_finished_def)
  with post1 show ?case by (cases "t_main s") (simp_all add: chan_ok_def)
next
  case (post2 s e)
  then have "posted_ok (t_to1 s) (Finished e) (t_posted s @ [e])" by (auto simp: chan_ok_def posted_ok_def is_finished_def)
  with post2 show ?case by (cases "t_main s") (simp_all add: chan_ok_def)
next
  case (first s e rest)
  then show ?case by (cases e) (auto simp: chan_ok_def)
next
  case (second s e rest)
  then show ?case by (auto simp: chan_ok_def)
qed

text \<open>A direction whose peer's script ends is never stuck before its report.\<close>

definition live :: "sock \<Rightarrow> relay_pc \<Rightarrow> bool" where
  "live r pc \<longleftrightarrow> whole r \<and> (case pc of Reading \<Rightarrow> ends (sk_reads r) | Writing b er \<Rightarrow> er = None \<longrightarrow> ends (sk_reads r) | _ \<Rightarrow> True)"

lemma live_step:
  assumes "relay_step now w r pc = Some (w', r', pc')" "live (base r) pc"
  shows "live (base r') pc'"
proof (cases pc)
  case Reading
  with assms(1) obtain b er where x: "conn_Read now relayBufferSize r = Some (b, er, r')"
    "pc' = (if b \<noteq> [] then Writing b er else after_read er)"
    by (auto simp: relay_step_def split: option.splits)
  have w: "whole (base r)" using assms(2) by (simp add: live_def)
  from read_effect(6,11) [OF x(1) w] assms(2) x(2) Reading show ?thesis
    by (auto simp: live_def after_read_def split: option.splits)
qed (use assms in \<open>auto simp: relay_step_def live_def after_read_def after_write_def split: prod.splits option.splits if_splits\<close>)

lemma live_cong: "live r pc \<Longrightarrow> sk_reads r' = sk_reads r \<Longrightarrow> sk_dgram r' = sk_dgram r \<Longrightarrow> live r' pc"
  by (auto simp: live_def whole_def split: relay_pc.splits)

lemma live_moves: "live (base r) pc \<Longrightarrow> relay_step now w r pc = None \<Longrightarrow> (\<exists>e. pc = Posting e) \<or> is_finished pc"
  using conn_Read_None [of now relayBufferSize r]
  by (cases pc) (auto simp: relay_step_def live_def ends_def is_finished_def split: option.splits prod.splits if_splits)

definition tlive :: "tst \<Rightarrow> bool" where
  "tlive s \<longleftrightarrow> live (base (t_rw2 s)) (t_to1 s) \<and> live (base (t_rw1 s)) (t_to2 s)"

lemma live_both:
  assumes "relay_step now w r pc = Some (w', r', pc')" "live (base r) pc" "live (base w) pd"
  shows "live (base r') pc'" "live (base w') pd"
proof -
  show "live (base r') pc'" by (rule live_step [OF assms(1,2)])
  have "whole (base r)" using assms(2) by (simp add: live_def)
  from relay_step_frame(6,7) [OF assms(1) this] show "live (base w') pd" using live_cong [OF assms(3)] by blast
qed

lemma tlive_step: "tstep s s' \<Longrightarrow> tlive s \<Longrightarrow> tlive s'"
proof (induction rule: tstep.induct)
  case (relay1 now s w r pc)
  then show ?case using live_both [OF relay1(1)] by (auto simp: tlive_def)
next
  case (relay2 now s w r pc)
  then show ?case using live_both [OF relay2(1)] by (auto simp: tlive_def)
qed (auto simp: tlive_def live_def)

text \<open>Every step brings the relay closer to its end.\<close>

definition pc_weight :: "relay_pc \<Rightarrow> nat" where
  "pc_weight pc = (case pc of Reading \<Rightarrow> 3 | Writing b er \<Rightarrow> 4 | HalfClosing \<Rightarrow> 2 | Posting e \<Rightarrow> 1 | Finished e \<Rightarrow> 0)"

definition main_weight :: "main_pc \<Rightarrow> nat" where
  "main_weight m = (case m of WaitFirst \<Rightarrow> 2 | WaitSecond \<Rightarrow> 1 | Returned e \<Rightarrow> 0)"

definition remaining :: "tst \<Rightarrow> nat" where
  "remaining s = 3 * backlog (sk_reads (base (t_rw1 s))) + 3 * backlog (sk_reads (base (t_rw2 s))) +
     pc_weight (t_to1 s) + pc_weight (t_to2 s) + main_weight (t_main s)"

lemma relay_step_decreases:
  assumes "relay_step now w r pc = Some (w', r', pc')" "whole (base r)"
  shows "3 * backlog (sk_reads (base r')) + pc_weight pc' < 3 * backlog (sk_reads (base r)) + pc_weight pc"
    "sk_reads (base w') = sk_reads (base w)"
proof -
  show "sk_reads (base w') = sk_reads (base w)" by (rule relay_step_frame(6) [OF assms])
  show "3 * backlog (sk_reads (base r')) + pc_weight pc' < 3 * backlog (sk_reads (base r)) + pc_weight pc"
  proof (cases pc)
    case Reading
    with assms(1) obtain b er where "conn_Read now relayBufferSize r = Some (b, er, r')" "pc_weight pc' \<le> 4"
      by (auto simp: relay_step_def pc_weight_def after_read_def split: option.splits relay_pc.splits if_splits)
    with read_effect(8) [OF this(1) assms(2)] Reading show ?thesis by (simp add: pc_weight_def)
  qed (use assms(1) in \<open>auto simp: relay_step_def pc_weight_def after_read_def after_write_def
      split: option.splits prod.splits if_splits\<close>)
qed

lemma remaining_step:
  assumes "tstep s s'" "tlive s"
  shows "remaining s' < remaining s"
  using assms
proof (induction rule: tstep.induct)
  case (relay1 now s w r pc)
  then have "whole (base (t_rw2 s))" by (simp add: tlive_def live_def)
  from relay_step_decreases [OF relay1(1) this] show ?case by (simp add: remaining_def)
next
  case (relay2 now s w r pc)
  then have "whole (base (t_rw1 s))" by (simp add: tlive_def live_def)
  from relay_step_decreases [OF relay2(1) this] show ?case by (simp add: remaining_def)
qed (auto simp: remaining_def pc_weight_def main_weight_def)

lemma stuck_returned:
  assumes "tlive s" "chan_ok s" "\<nexists>s'. tstep s s'"
  shows "is_finished (t_to1 s) \<and> is_finished (t_to2 s) \<and> (\<exists>e. t_main s = Returned e)"
proof -
  have r: "relay_step 0 (t_rw1 s) (t_rw2 s) (t_to1 s) = None" "relay_step 0 (t_rw2 s) (t_rw1 s) (t_to2 s) = None"
    using assms(3) tstep.relay1 [of 0 s] tstep.relay2 [of 0 s] by (metis option.exhaust prod_cases3)+
  have len: "length (t_posted s) \<ge> length (t_errc s)" using assms(2) by (auto simp: chan_ok_def split: main_pc.splits)
  have f1: "is_finished (t_to1 s)"
  proof (rule ccontr)
    assume n: "\<not> is_finished (t_to1 s)"
    with live_moves r(1) assms(1) obtain e where "t_to1 s = Posting e" unfolding tlive_def by blast
    moreover have "length (t_errc s) < 2" using len assms(2) n by (auto simp: chan_ok_def posted_ok_def of_bool_def split: if_splits)
    ultimately show False using assms(3) tstep.post1 by blast
  qed
  have f2: "is_finished (t_to2 s)"
  proof (rule ccontr)
    assume n: "\<not> is_finished (t_to2 s)"
    with live_moves r(2) assms(1) obtain e where "t_to2 s = Posting e" unfolding tlive_def by blast
    moreover have "length (t_errc s) < 2" using len assms(2) n by (auto simp: chan_ok_def posted_ok_def of_bool_def split: if_splits)
    ultimately show False using assms(3) tstep.post2 by blast
  qed
  have two: "length (t_posted s) = 2" using assms(2) f1 f2 by (simp add: chan_ok_def posted_ok_def)
  have "\<exists>e. t_main s = Returned e"
  proof (cases "t_main s")
    case WaitFirst
    with two assms(2) obtain e rest where "t_errc s = e # rest" by (cases "t_errc s") (auto simp: chan_ok_def)
    with WaitFirst assms(3) tstep.first show ?thesis by blast
  next
    case WaitSecond
    with two assms(2) obtain e rest where "t_errc s = e # rest" by (cases "t_errc s") (auto simp: chan_ok_def)
    with WaitSecond assms(3) tstep.second show ?thesis by blast
  qed simp
  with f1 f2 show ?thesis by simp
qed

text \<open>A direction in which nothing goes wrong.\<close>

definition clean :: "sock \<Rightarrow> sock \<Rightarrow> relay_pc \<Rightarrow> bool" where
  "clean w r pc \<longleftrightarrow> whole r \<and> sk_writes w = [] \<and> sk_cw w = Some None \<and> snd ` set (sk_reads r) \<subseteq> {None, Some EOF} \<and>
     (case pc of Writing b er \<Rightarrow> er \<in> {None, Some EOF} | Posting e \<Rightarrow> e = None | Finished e \<Rightarrow> e = None | _ \<Rightarrow> True)"

lemma is_closeWriter_base: "sk_cw (base w) \<noteq> None \<Longrightarrow> is_closeWriter w"
  by (cases w) auto

lemma clean_step:
  assumes "relay_step now w r pc = Some (w', r', pc')" "clean (base w) (base r) pc"
  shows "clean (base w') (base r') pc'"
proof -
  have inv: "whole (base r)" "sk_writes (base w) = []" "sk_cw (base w) = Some None" "snd ` set (sk_reads (base r)) \<subseteq> {None, Some EOF}"
    using assms(2) by (simp_all add: clean_def)
  note F = relay_step_frame [OF assms(1) inv(1)]
  have W: "sk_writes (base w') = []" "sk_cw (base w') = Some None" "snd ` set (sk_reads (base r')) \<subseteq> {None, Some EOF}"
    using F(8-10) inv by auto
  show ?thesis
  proof (cases pc)
    case Reading
    with assms(1) obtain b er where x: "conn_Read now relayBufferSize r = Some (b, er, r')"
      "pc' = (if b \<noteq> [] then Writing b er else after_read er)"
      by (auto simp: relay_step_def split: option.splits)
    note E = read_effect(6,10) [OF x(1) inv(1)]
    have "er \<noteq> None \<Longrightarrow> er \<in> {None, Some EOF}" by (rule subsetD [OF inv(4) E(2)])
    then have "er = None \<or> er = Some EOF" by (cases er) simp_all
    then show ?thesis
    proof
      assume "er = None"
      with E(1) W x(2) show ?thesis unfolding clean_def by (simp add: after_read_def)
    next
      assume "er = Some EOF"
      with E(1) W x(2) show ?thesis unfolding clean_def by (simp add: after_read_def)
    qed
  next
    case (Writing b er)
    with assms(1) obtain nw ew where x: "conn_Write now b w = (nw, ew, w')" "r' = r" "pc' = after_write nw ew b er"
      by (auto simp: relay_step_def split: prod.splits)
    have "nw = length b" "ew = None" using write_effect(7) [OF x(1) inv(2)] by simp_all
    moreover have "er = None \<or> er = Some EOF" using assms(2) Writing by (simp add: clean_def)
    ultimately show ?thesis using inv(1) W x(2,3) by (elim disjE; simp add: clean_def after_write_def after_read_def)
  next
    case HalfClosing
    obtain e w1 where c: "closeWrite w = (e, w1)" by (cases "closeWrite w")
    have "e = None" using closeWrite_effect(8) [OF c inv(3)] .
    moreover have "is_closeWriter w" using is_closeWriter_base inv(3) by simp
    ultimately have "w' = w1" "r' = r" "pc' = Posting None" using assms(1) HalfClosing c by (simp_all add: relay_step_def)
    with inv(1) W show ?thesis by (simp add: clean_def)
  qed (use assms(1) in \<open>simp_all add: relay_step_def\<close>)
qed

definition tclean :: "tst \<Rightarrow> bool" where
  "tclean s \<longleftrightarrow> clean (base (t_rw1 s)) (base (t_rw2 s)) (t_to1 s) \<and> clean (base (t_rw2 s)) (base (t_rw1 s)) (t_to2 s)"

lemma clean_both:
  assumes "relay_step now w r pc = Some (w', r', pc')" "clean (base w) (base r) pc" "clean (base r) (base w) pd"
  shows "clean (base w') (base r') pc'" "clean (base r') (base w') pd"
proof -
  show "clean (base w') (base r') pc'" by (rule clean_step [OF assms(1,2)])
  have "whole (base r)" using assms(2) by (simp add: clean_def)
  note F = relay_step_frame [OF assms(1) this]
  have "whole (base w')" using assms(3) F(6,7) by (simp add: clean_def whole_def)
  with assms(3) F(3,4,6) show "clean (base r') (base w') pd" by (simp add: clean_def)
qed

lemma tclean_step: "tstep s s' \<Longrightarrow> tclean s \<Longrightarrow> tclean s'"
proof (induction rule: tstep.induct)
  case (relay1 now s w r pc)
  then show ?case using clean_both [OF relay1(1)] by (auto simp: tclean_def)
next
  case (relay2 now s w r pc)
  then show ?case using clean_both [OF relay2(1)] by (auto simp: tclean_def)
qed (auto simp: tclean_def clean_def)

text \<open>A connection at the start: nothing read or written, no datagram larger than the buffer.\<close>

definition fresh_conn :: "rwconn \<Rightarrow> bool" where
  "fresh_conn c \<longleftrightarrow> whole (base c) \<and> sk_sent (base c) = [] \<and> sk_got (base c) = []"

lemma treach_inv:
  assumes "treach (Transport rw1 rw2) s" "fresh_conn rw1" "fresh_conn rw2"
  shows "tinv (todo (sk_reads (base rw1))) (todo (sk_reads (base rw2))) s" "chan_ok s"
proof -
  show "tinv (todo (sk_reads (base rw1))) (todo (sk_reads (base rw2))) s"
    using assms by (induction) (auto simp: tinv_step, simp add: tinv_def dir_ok_def fresh_conn_def Transport_def)
  show "chan_ok s"
    using assms(1) by (induction) (auto simp: chan_ok_step, simp add: chan_ok_def posted_ok_def Transport_def is_finished_def)
qed

lemma treach_live:
  assumes "treach (Transport rw1 rw2) s" "whole (base rw1)" "whole (base rw2)" "ends (sk_reads (base rw1))" "ends (sk_reads (base rw2))"
  shows "tlive s"
  using assms by (induction) (auto simp: tlive_step, simp add: tlive_def live_def Transport_def)

lemma dir_ok_prefix:
  assumes "dir_ok T w r pc"
  shows "prefix (concat (sk_got w)) T \<and> prefix (butlast (sk_got w)) (chunks r)"
proof -
  have b: "prefix (butlast (sk_got w)) (sk_got w @ x)" for x by (metis prefixeq_butlast prefix_prefix)
  have e: "ended T w r e \<Longrightarrow> ?thesis" for e
    using concat_chunks [of r] by (auto simp: ended_def prefixeq_butlast split: option.splits)
  show ?thesis
    using assms e b unfolding dir_ok_def concat_chunks [symmetric] by (cases pc) (auto simp: prefixeq_butlast)
qed

lemma treach_clean:
  assumes "treach (Transport rw1 rw2) s" "clean (base rw1) (base rw2) Reading" "clean (base rw2) (base rw1) Reading"
  shows "tclean s"
  using assms by (induction) (auto simp: tclean_step, simp add: tclean_def Transport_def)

text \<open>A run can always be continued to its end.\<close>

lemma runs_to_end:
  assumes "treach s0 s" "tlive s"
  shows "\<exists>s'. treach s0 s' \<and> tlive s' \<and> (\<nexists>s''. tstep s' s'')"
  using assms
proof (induction "remaining s" arbitrary: s rule: less_induct)
  case less
  show ?case
  proof (cases "\<exists>s''. tstep s s''")
    case True
    then obtain s'' where "tstep s s''" by blast
    with less treach_step tlive_step remaining_step show ?thesis by blast
  qed (use less.prems in blast)
qed

lemma transport_can_return:
  assumes "fresh_conn rw1" "fresh_conn rw2" "ends (sk_reads (base rw1))" "ends (sk_reads (base rw2))"
  shows "\<exists>s e. treach (Transport rw1 rw2) s \<and> t_main s = Returned e"
proof -
  have w: "whole (base rw1)" "whole (base rw2)" using assms by (simp_all add: fresh_conn_def)
  from runs_to_end [OF treach_refl treach_live [OF treach_refl w assms(3,4)]] obtain s where
    s: "treach (Transport rw1 rw2) s" "tlive s" "\<nexists>s''. tstep s s''" by blast
  from stuck_returned [OF s(2) treach_inv(2) [OF s(1) assms(1,2)] s(3)] s(1) show ?thesis by blast
qed

section \<open>Properties\<close>

text \<open>
  C10: The relay adds, drops and reorders nothing. At any moment of any run, what each side has been given is a prefix of
  what the other side's peer sends before its first error, and the writes are, one for one, the non-empty reads, so that a
  datagram arrives as one datagram; only the last write may be cut short, by an error.
\<close>

theorem transport_delivers_in_order:
  assumes "fresh_conn rw1" and "fresh_conn rw2" and "treach (Transport rw1 rw2) s"
  shows "prefix (concat (sk_got (base (t_rw1 s)))) (todo (sk_reads (base rw2))) \<and>
    prefix (concat (sk_got (base (t_rw2 s)))) (todo (sk_reads (base rw1))) \<and>
    prefix (butlast (sk_got (base (t_rw1 s)))) (chunks (base (t_rw2 s))) \<and>
    prefix (butlast (sk_got (base (t_rw2 s)))) (chunks (base (t_rw1 s)))"
proof -
  from treach_inv(1) [OF assms(3,1,2)] show ?thesis unfolding tinv_def using dir_ok_prefix by blast
qed

text \<open>
  C11: Half-closing loses nothing. When both peers end with an orderly EOF, no write fails and both connections can half-close,
  \<^verbatim>\<open>Transport\<close> returns no error, and only after each side has received every byte of the other's stream and the EOF: a peer that
  shuts down its sending side first still gets the whole reply.
\<close>

theorem transport_half_close:
  assumes "fresh_conn rw1" and "fresh_conn rw2" and "treach (Transport rw1 rw2) s" and "t_main s = Returned x"
    and "\<forall>rw \<in> {rw1, rw2}. sk_writes (base rw) = [] \<and> sk_cw (base rw) = Some None \<and>
      snd ` set (sk_reads (base rw)) \<subseteq> {None, Some EOF}"
  shows "x = None \<and> concat (sk_got (base (t_rw1 s))) = todo (sk_reads (base rw2)) \<and>
    concat (sk_got (base (t_rw2 s))) = todo (sk_reads (base rw1)) \<and> sk_shut (base (t_rw1 s)) \<and> sk_shut (base (t_rw2 s))"
proof -
  have c: "tclean s"
    by (rule treach_clean [OF assms(3)]) (use assms(1,2,5) in \<open>simp_all add: clean_def fresh_conn_def\<close>)
  have inv: "tinv (todo (sk_reads (base rw1))) (todo (sk_reads (base rw2))) s" "chan_ok s"
    using treach_inv [OF assms(3,1,2)] by simp_all
  have none: "e = None" if "t_to1 s = Finished e \<or> t_to2 s = Finished e" for e
    using c that by (auto simp: tclean_def clean_def)
  have posted: "\<forall>e \<in> set (t_posted s). e = None" using inv(2) none by (auto simp: chan_ok_def posted_ok_def)
  then obtain e where "t_posted s = None # e # t_errc s" "x = transport_err e"
    using inv(2) assms(4) by (auto simp: chan_ok_def)
  with posted inv(2) have "x = None" "is_finished (t_to1 s)" "is_finished (t_to2 s)"
    by (auto simp: chan_ok_def posted_ok_def transport_err_def of_bool_def split: if_splits)
  then have "x = None" "t_to1 s = Finished None" "t_to2 s = Finished None" using none by (auto simp: is_finished_def)
  with inv(1) concat_chunks [of "base (t_rw1 s)"] concat_chunks [of "base (t_rw2 s)"] show ?thesis
    by (simp add: tinv_def dir_ok_def ended_def)
qed

text \<open>
  C12: The relay ends. When both peers' streams end, in EOF or in an error (as they do once the caller closes the
  connections), every step of any process brings it closer to its end, and a state in which no process can move is one where both
  goroutines have reported and gone and \<^verbatim>\<open>Transport\<close> has returned: the report channel never blocks a goroutine, and no goroutine
  is left behind.
\<close>

theorem transport_terminates:
  assumes "whole (base rw1)" and "whole (base rw2)" and "ends (sk_reads (base rw1))" and "ends (sk_reads (base rw2))"
    and "treach (Transport rw1 rw2) s"
  shows "(\<forall>s'. tstep s s' \<longrightarrow> remaining s' < remaining s) \<and>
    ((\<nexists>s'. tstep s s') \<longrightarrow> is_finished (t_to1 s) \<and> is_finished (t_to2 s) \<and> (\<exists>e. t_main s = Returned e))"
proof -
  have l: "tlive s" by (rule treach_live [OF assms(5,1-4)])
  have "chan_ok s" using assms(5)
    by (induction) (auto simp: chan_ok_step, simp add: chan_ok_def posted_ok_def Transport_def is_finished_def)
  with l show ?thesis using remaining_step stuck_returned by blast
qed

text \<open>
  What \<^verbatim>\<open>Transport\<close> returns is decided by the first report that is an error: it returns right away with that error, or with
  none when it is an EOF that could not be passed on or an expired deadline, wrapped or not; only a clean half-close makes it wait for
  the second report.
\<close>

lemma transport_first_error_decides:
  assumes "fresh_conn rw1" and "fresh_conn rw2" and "treach (Transport rw1 rw2) s" and "t_main s = Returned x"
  shows "(\<exists>e. hd (t_posted s) = Some e \<and> x = (if e = EOF \<or> as_timeout e = Some True then None else Some e)) \<or>
    (\<exists>r. t_posted s = [None, r] \<and> is_finished (t_to1 s) \<and> is_finished (t_to2 s) \<and>
      x = (case r of None \<Rightarrow> None | Some e \<Rightarrow> if e = EOF \<or> as_timeout e = Some True then None else Some e))"
proof -
  have c: "posted_ok (t_to1 s) (t_to2 s) (t_posted s)"
    "(\<exists>e. e \<noteq> None \<and> t_posted s = e # t_errc s \<and> x = transport_err e) \<or> (\<exists>e. t_posted s = None # e # t_errc s \<and> x = transport_err e)"
    using treach_inv(2) [OF assms(3,1,2)] assms(4) by (simp_all add: chan_ok_def)
  from c(2) show ?thesis
  proof
    assume "\<exists>e. e \<noteq> None \<and> t_posted s = e # t_errc s \<and> x = transport_err e"
    then show ?thesis by (auto simp: transport_err_def)
  next
    assume "\<exists>e. t_posted s = None # e # t_errc s \<and> x = transport_err e"
    then obtain e where e: "t_posted s = None # e # t_errc s" "x = transport_err e" by blast
    with c(1) have "t_errc s = []" "is_finished (t_to1 s)" "is_finished (t_to2 s)"
      by (auto simp: posted_ok_def of_bool_def split: if_splits)
    with e show ?thesis by (auto simp: transport_err_def)
  qed
qed

text \<open>
  Witnesses: the container sends \<^verbatim>\<open>hi\<close> in two segments and half-closes, the destination answers one byte and closes; the
  container's side has an idle timeout.
\<close>

definition demo_local :: rwconn where
  "demo_local = NewTimeoutConn (Sock \<lparr>sk_dgram = False, sk_reads = [([104], None), ([105], None), ([], Some EOF)], sk_writes = [],
     sk_cw = Some None, sk_deadline = None, sk_sent = [], sk_got = [], sk_shut = False\<rparr>) 15"

definition demo_dst :: rwconn where
  "demo_dst = Sock \<lparr>sk_dgram = False, sk_reads = [([33], Some EOF)], sk_writes = [], sk_cw = Some None, sk_deadline = None,
     sk_sent = [], sk_got = [], sk_shut = False\<rparr>"

lemmas demo_conns = demo_local_def demo_dst_def NewTimeoutConn_def fresh_conn_def whole_def ends_def

lemma demo_fresh: "fresh_conn demo_local" "fresh_conn demo_dst" "ends (sk_reads (base demo_local))" "ends (sk_reads (base demo_dst))"
  by (simp_all add: demo_conns)

theorem transport_delivers_in_order_witness:
  "prefix (concat (sk_got (base (t_rw2 (Transport demo_local demo_dst))))) [104, 105]"
  using transport_delivers_in_order [OF demo_fresh(1,2) treach_refl] by (simp add: demo_conns)

theorem transport_half_close_witness:
  "\<exists>s. treach (Transport demo_local demo_dst) s \<and> t_main s = Returned None \<and>
    concat (sk_got (base (t_rw1 s))) = [33] \<and> concat (sk_got (base (t_rw2 s))) = [104, 105] \<and> sk_shut (base (t_rw2 s))"
proof -
  obtain s e where s: "treach (Transport demo_local demo_dst) s" "t_main s = Returned e"
    using transport_can_return [OF demo_fresh] by blast
  have "\<forall>rw \<in> {demo_local, demo_dst}. sk_writes (base rw) = [] \<and> sk_cw (base rw) = Some None \<and>
      snd ` set (sk_reads (base rw)) \<subseteq> {None, Some EOF}" by (simp add: demo_conns)
  from transport_half_close [OF demo_fresh(1,2) s this] s show ?thesis by (auto simp: demo_conns)
qed

theorem transport_terminates_witness:
  "\<exists>s e. treach (Transport demo_local demo_dst) s \<and> (\<nexists>s'. tstep s s') \<and> t_main s = Returned e"
proof -
  have w: "whole (base demo_local)" "whole (base demo_dst)" using demo_fresh by (simp_all add: fresh_conn_def)
  from runs_to_end [OF treach_refl treach_live [OF treach_refl w demo_fresh(3,4)]] obtain s where
    s: "treach (Transport demo_local demo_dst) s" "\<nexists>s''. tstep s s''" by blast
  with transport_terminates [OF w demo_fresh(3,4) s(1)] show ?thesis by blast
qed

end
