(* ===== verification/RunFlags.thy ===== *)
theory RunFlags
  imports FlagPkg
begin

text \<open>
  The command line of the outer process: \<^verbatim>\<open>newRunFlagSet\<close> of \<^verbatim>\<open>src/run.go\<close>, its parsing, and the checks \<^verbatim>\<open>runRun\<close> makes before anything else.
\<close>

section \<open>Definitions\<close>

text \<open>The flags after parsing; durations are nanoseconds.\<close>

record runFlags =
  forwardProxies :: "string list"
  localMappings :: "string list"
  bypassCIDRs :: "string list"
  dnsServers :: "string list"
  verboseLevel :: int
  ipv6 :: bool
  nat64Prefix :: string
  hostname :: string
  connectTimeout :: int
  tcpTimeout :: int
  udpTimeout :: int
  quiet :: bool
  uid :: int
  gid :: int

text \<open>The defaults of \<^verbatim>\<open>src/connect.go\<close>.\<close>

definition udpIOTimeout :: int where
  "udpIOTimeout = 15 * 10 ^ 9"

definition default_connectTimeout :: int where
  "default_connectTimeout = 10 * 10 ^ 9"

definition newRunFlagSet :: "int \<Rightarrow> int \<Rightarrow> runFlags" where
  "newRunFlagSet euid egid =
     \<lparr>forwardProxies = [], localMappings = [], bypassCIDRs = [], dnsServers = [], verboseLevel = 0, ipv6 = False, nat64Prefix = '''',
      hostname = ''wirez'', connectTimeout = default_connectTimeout, tcpTimeout = 0, udpTimeout = udpIOTimeout, quiet = False,
      uid = euid, gid = egid\<rparr>"

definition run_kind :: "string \<Rightarrow> bool option" where
  "run_kind name =
     (if name \<in> {''v'', ''6'', ''q''} then Some True
      else if name \<in> {''F'', ''L'', ''B'', ''D'', ''nat64'', ''hostname'', ''connect-timeout'', ''tcp-timeout'', ''udp-timeout'', ''uid'', ''gid''}
      then Some False
      else None)"

text \<open>\<^verbatim>\<open>Set\<close> of each flag. The count flag takes any value; a value that does not parse is an error.\<close>

definition run_set :: "(nat \<Rightarrow> nat \<Rightarrow> nat \<Rightarrow> nat) \<Rightarrow> string \<Rightarrow> string \<Rightarrow> runFlags \<Rightarrow> err + runFlags" where
  "run_set frac name v f =
     (if name = ''F'' then Inr (f\<lparr>forwardProxies := stringArrayFlag_Set (forwardProxies f) v\<rparr>)
      else if name = ''L'' then Inr (f\<lparr>localMappings := stringArrayFlag_Set (localMappings f) v\<rparr>)
      else if name = ''B'' then Inr (f\<lparr>bypassCIDRs := stringArrayFlag_Set (bypassCIDRs f) v\<rparr>)
      else if name = ''D'' then Inr (f\<lparr>dnsServers := stringArrayFlag_Set (dnsServers f) v\<rparr>)
      else if name = ''v'' then Inr (f\<lparr>verboseLevel := countFlag_Set (verboseLevel f)\<rparr>)
      else if name = ''nat64'' then Inr (f\<lparr>nat64Prefix := v\<rparr>)
      else if name = ''hostname'' then Inr (f\<lparr>hostname := v\<rparr>)
      else if name \<in> {''6'', ''q''} then
        (case ParseBool v of Inl e \<Rightarrow> Inl e | Inr b \<Rightarrow> Inr (if name = ''6'' then f\<lparr>ipv6 := b\<rparr> else f\<lparr>quiet := b\<rparr>))
      else if name \<in> {''uid'', ''gid''} then
        (case ParseInt v of Inl e \<Rightarrow> Inl e | Inr n \<Rightarrow> Inr (if name = ''uid'' then f\<lparr>uid := n\<rparr> else f\<lparr>gid := n\<rparr>))
      else
        (case ParseDuration frac v of
           None \<Rightarrow> Inl (Fmt ''parse error'' [])
         | Some d \<Rightarrow>
             Inr (if name = ''connect-timeout'' then f\<lparr>connectTimeout := d\<rparr>
                  else if name = ''tcp-timeout'' then f\<lparr>tcpTimeout := d\<rparr> else f\<lparr>udpTimeout := d\<rparr>)))"

definition run_parse :: "(nat \<Rightarrow> nat \<Rightarrow> nat \<Rightarrow> nat) \<Rightarrow> int \<Rightarrow> int \<Rightarrow> string list \<Rightarrow> (runFlags \<times> string list) res" where
  "run_parse frac euid egid args = Throw2 (flag_parse run_kind (run_set frac) args (newRunFlagSet euid egid))"

definition checkFlags :: "runFlags \<Rightarrow> unit res" where
  "checkFlags f =
     (if uid f < 0 then ThrowFmt ''uid is negative'' []
      else if gid f < 0 then ThrowFmt ''gid is negative'' []
      else if forwardProxies f = [] then ThrowFmt ''forward proxies list is empty'' []
      else if connectTimeout f \<le> 0 \<or> udpTimeout f \<le> 0 \<or> tcpTimeout f < 0
      then ThrowFmt ''timeouts must be positive (-tcp-timeout may be 0)'' []
      else Ret ())"

section \<open>The text of the flags\<close>

text \<open>A command line that asks for given flags: the repeated ones in order, then the others.\<close>

definition repeated :: "string \<Rightarrow> string list \<Rightarrow> string list" where
  "repeated name vs = concat (map (\<lambda>v. [CHR ''-'' # name, v]) vs)"

definition run_text :: "runFlags \<Rightarrow> string list" where
  "run_text f =
     repeated ''F'' (forwardProxies f) @ repeated ''L'' (localMappings f) @ repeated ''B'' (bypassCIDRs f) @ repeated ''D'' (dnsServers f) @
     replicate (nat (verboseLevel f)) ''-v'' @
     [''-6='' @ fmt_bool (ipv6 f), ''-nat64'', nat64Prefix f, ''-hostname'', hostname f, ''-connect-timeout'', duration_text (connectTimeout f),
      ''-tcp-timeout'', duration_text (tcpTimeout f), ''-udp-timeout'', duration_text (udpTimeout f), ''-q='' @ fmt_bool (quiet f),
      ''-uid'', itoa_int (uid f), ''-gid'', itoa_int (gid f)]"

definition flags_ok :: "runFlags \<Rightarrow> bool" where
  "flags_ok f \<longleftrightarrow> 0 \<le> verboseLevel f \<and>
     list_all (\<lambda>n. 0 \<le> n \<and> n < 2 ^ 63) [connectTimeout f, tcpTimeout f, udpTimeout f, uid f, gid f]"

lemma run_names:
  "flag_name ''F''" "flag_name ''L''" "flag_name ''B''" "flag_name ''D''" "flag_name ''nat64''" "flag_name ''hostname''" "flag_name ''connect-timeout''"
  "flag_name ''tcp-timeout''" "flag_name ''udp-timeout''" "flag_name ''uid''" "flag_name ''gid''" "flag_name ''v''" "flag_name ''6''" "flag_name ''q''"
  by (simp_all add: flag_name_def)

lemma run_kinds:
  "run_kind ''F'' = Some False" "run_kind ''L'' = Some False" "run_kind ''B'' = Some False" "run_kind ''D'' = Some False"
  "run_kind ''nat64'' = Some False" "run_kind ''hostname'' = Some False" "run_kind ''connect-timeout'' = Some False"
  "run_kind ''tcp-timeout'' = Some False" "run_kind ''udp-timeout'' = Some False" "run_kind ''uid'' = Some False" "run_kind ''gid'' = Some False"
  "run_kind ''v'' = Some True" "run_kind ''6'' = Some True" "run_kind ''q'' = Some True"
  by (simp_all add: run_kind_def)

lemma fold_add:
  "fold (\<lambda>v f. f\<lparr>forwardProxies := forwardProxies f @ [v]\<rparr>) vs f = f\<lparr>forwardProxies := forwardProxies f @ vs\<rparr>"
  "fold (\<lambda>v f. f\<lparr>localMappings := localMappings f @ [v]\<rparr>) vs f = f\<lparr>localMappings := localMappings f @ vs\<rparr>"
  "fold (\<lambda>v f. f\<lparr>bypassCIDRs := bypassCIDRs f @ [v]\<rparr>) vs f = f\<lparr>bypassCIDRs := bypassCIDRs f @ vs\<rparr>"
  "fold (\<lambda>v f. f\<lparr>dnsServers := dnsServers f @ [v]\<rparr>) vs f = f\<lparr>dnsServers := dnsServers f @ vs\<rparr>"
  by (induction vs arbitrary: f) simp_all

lemma run_set_add:
  "run_set frac ''F'' v f = Inr (f\<lparr>forwardProxies := forwardProxies f @ [v]\<rparr>)" "run_set frac ''L'' v f = Inr (f\<lparr>localMappings := localMappings f @ [v]\<rparr>)"
  "run_set frac ''B'' v f = Inr (f\<lparr>bypassCIDRs := bypassCIDRs f @ [v]\<rparr>)" "run_set frac ''D'' v f = Inr (f\<lparr>dnsServers := dnsServers f @ [v]\<rparr>)"
  by (simp_all add: run_set_def stringArrayFlag_Set_def)

lemmas run_parse_repeated = flag_parse_repeated [where kind = run_kind]

lemma run_repeated:
  "flag_parse run_kind (run_set frac) (repeated ''F'' vs @ args) f = flag_parse run_kind (run_set frac) args (f\<lparr>forwardProxies := forwardProxies f @ vs\<rparr>)"
  "flag_parse run_kind (run_set frac) (repeated ''L'' vs @ args) f = flag_parse run_kind (run_set frac) args (f\<lparr>localMappings := localMappings f @ vs\<rparr>)"
  "flag_parse run_kind (run_set frac) (repeated ''B'' vs @ args) f = flag_parse run_kind (run_set frac) args (f\<lparr>bypassCIDRs := bypassCIDRs f @ vs\<rparr>)"
  "flag_parse run_kind (run_set frac) (repeated ''D'' vs @ args) f = flag_parse run_kind (run_set frac) args (f\<lparr>dnsServers := dnsServers f @ vs\<rparr>)"
  unfolding repeated_def
  by (subst run_parse_repeated, rule run_names, rule run_kinds, rule run_set_add, simp add: fold_add)+

lemma run_counted:
  "flag_parse run_kind (run_set frac) (replicate n ''-v'' @ args) f = flag_parse run_kind (run_set frac) args (f\<lparr>verboseLevel := verboseLevel f + int n\<rparr>)"
proof -
  have "((\<lambda>f. f\<lparr>verboseLevel := verboseLevel f + 1\<rparr>) ^^ n) f = f\<lparr>verboseLevel := verboseLevel f + int n\<rparr>"
    by (induction n) (simp_all add: algebra_simps)
  then show ?thesis
    using flag_parse_counted [where kind = run_kind and st = "run_set frac" and inc = "\<lambda>f. f\<lparr>verboseLevel := verboseLevel f + 1\<rparr>",
        OF run_names(12) run_kinds(12), of n args f]
    by (simp add: run_set_def countFlag_Set_def)
qed

lemma run_text_parse:
  assumes "flags_ok f" and "is_command cmd"
  shows "flag_parse run_kind (run_set frac) (run_text f @ cmd) (newRunFlagSet euid egid) = Inr (f, cmd)"
proof -
  note val = flag_parse_value [where kind = run_kind and st = "run_set frac"] and bool = flag_parse_bool [where kind = run_kind and st = "run_set frac"]
  have ok: "0 \<le> verboseLevel f" "ParseInt (itoa_int (uid f)) = Inr (uid f)" "ParseInt (itoa_int (gid f)) = Inr (gid f)"
    "ParseDuration frac (duration_text (connectTimeout f)) = Some (connectTimeout f)"
    "ParseDuration frac (duration_text (tcpTimeout f)) = Some (tcpTimeout f)" "ParseDuration frac (duration_text (udpTimeout f)) = Some (udpTimeout f)"
    using assms(1) ParseInt_itoa ParseDuration_text by (simp_all add: flags_ok_def)
  have rest: "flag_parse run_kind (run_set frac) ([''-6='' @ fmt_bool (ipv6 f), ''-nat64'', nat64Prefix f, ''-hostname'', hostname f,
      ''-connect-timeout'', duration_text (connectTimeout f), ''-tcp-timeout'', duration_text (tcpTimeout f), ''-udp-timeout'', duration_text (udpTimeout f),
      ''-q='' @ fmt_bool (quiet f), ''-uid'', itoa_int (uid f), ''-gid'', itoa_int (gid f)] @ cmd) g =
    Inr (f\<lparr>forwardProxies := forwardProxies g, localMappings := localMappings g, bypassCIDRs := bypassCIDRs g, dnsServers := dnsServers g,
      verboseLevel := verboseLevel g\<rparr>, cmd)" for g
    using ok(2-) bool [OF run_names(13) run_kinds(13)] bool [OF run_names(14) run_kinds(14)] val [OF run_names(5) run_kinds(5)]
      val [OF run_names(6) run_kinds(6)] val [OF run_names(7) run_kinds(7)] val [OF run_names(8) run_kinds(8)] val [OF run_names(9) run_kinds(9)]
      val [OF run_names(10) run_kinds(10)] val [OF run_names(11) run_kinds(11)] flag_parse_command [OF assms(2)]
    by (cases f, cases g) (simp add: run_set_def ParseBool_fmt)
  show ?thesis
    unfolding run_text_def append_assoc run_repeated run_counted rest
    using ok(1) by (cases f) (simp add: newRunFlagSet_def)
qed

section \<open>Properties\<close>

text \<open>
  C39: The command line means what it says. Every setting of the flags, with any lists of proxies, mappings, bypass networks and DNS servers,
  any verbosity, any texts, and durations and ids of the full range, is read back from its command line, and what follows, from the first
  word that is not a flag, is the user's command untouched, its own flags included.
\<close>

theorem run_flags_roundtrip:
  assumes "flags_ok f" and "is_command cmd"
  shows "run_parse frac euid egid (run_text f @ cmd) = Ret (f, cmd)"
  using run_text_parse [OF assms] by (simp add: run_parse_def)

theorem run_flags_roundtrip_witness:
  "run_parse (\<lambda>_ _ _. 0) 1000 100
     ([''-F'', ''192.0.2.1:1080'', ''-D'', ''192.0.2.53'', ''-v'', ''-v'', ''-6=true'', ''-nat64'', '''', ''-hostname'', ''box'',
       ''-connect-timeout'', ''5000000000ns'', ''-tcp-timeout'', ''0ns'', ''-udp-timeout'', ''15000000000ns'', ''-q=false'', ''-uid'', ''0'', ''-gid'', ''7'']
      @ [''ls'', ''-l'']) =
   Ret (\<lparr>forwardProxies = [''192.0.2.1:1080''], localMappings = [], bypassCIDRs = [], dnsServers = [''192.0.2.53''], verboseLevel = 2, ipv6 = True,
     nat64Prefix = '''', hostname = ''box'', connectTimeout = 5000000000, tcpTimeout = 0, udpTimeout = 15000000000, quiet = False, uid = 0, gid = 7\<rparr>,
     [''ls'', ''-l''])"
proof -
  let ?f = "\<lparr>forwardProxies = [''192.0.2.1:1080''], localMappings = [], bypassCIDRs = [], dnsServers = [''192.0.2.53''], verboseLevel = 2, ipv6 = True,
     nat64Prefix = '''', hostname = ''box'', connectTimeout = 5000000000, tcpTimeout = 0, udpTimeout = 15000000000, quiet = False, uid = 0, gid = 7\<rparr>"
  have t: "run_text ?f = [''-F'', ''192.0.2.1:1080'', ''-D'', ''192.0.2.53'', ''-v'', ''-v'', ''-6=true'', ''-nat64'', '''', ''-hostname'', ''box'',
       ''-connect-timeout'', ''5000000000ns'', ''-tcp-timeout'', ''0ns'', ''-udp-timeout'', ''15000000000ns'', ''-q=false'', ''-uid'', ''0'', ''-gid'', ''7'']"
    by code_simp
  show ?thesis
    unfolding t [symmetric] by (rule run_flags_roundtrip) (simp_all add: flags_ok_def is_command_def)
qed

end
