(* ===== verification/Run.thy ===== *)
theory Run
  imports NetStack Setup Transport RunFlags
begin

text \<open>
  \<^verbatim>\<open>src/run.go\<close>: from the flags to the running container. The first part is what \<^verbatim>\<open>runRun\<close> makes of the command line before it starts the child; the
  second is the conversation of the two processes over the control socket, as a step relation on both of them. Here the router and the DNS policy that one
  command line gives are compared too. The text of a proxy URL is
  read by \<^verbatim>\<open>net/url\<close>, whose host grammar depends on the toolchain; \<open>url_parse\<close> stands for it, and no statement below assumes anything of it.
\<close>

section \<open>Proxy URLs\<close>

text \<open>The parts of a parsed URL that \<^verbatim>\<open>parseProxyURL\<close> of \<^verbatim>\<open>src/config.go\<close> reads.\<close>

record url =
  url_Scheme :: string
  url_Host :: string
  url_User :: "userinfo option"

definition parseProxyURL :: "(string \<Rightarrow> err + url) \<Rightarrow> string \<Rightarrow> ProxyAddr res" where
  "parseProxyURL url_parse proxyURL =
     (let proxyURL = trim_both CHR '' '' proxyURL;
          proxyURL = (if contains_str proxyURL ''//'' then proxyURL else ''socks5://'' @ proxyURL)
      in res_bind (Throw2 (url_parse proxyURL)) (\<lambda>u.
         res_bind (if url_Scheme u \<in> {''socks5'', ''socks5h''} then Ret ''socks5''
                   else if url_Scheme u = ''http'' then Ret ''http''
                   else ThrowFmt ''unsupported proxy scheme %q in %s: use socks5:// or http://'' [url_Scheme u, proxyURL]) (\<lambda>scheme.
         res_bind (Throw3 (SplitHostPort (url_Host u))) (\<lambda>_.
         Ret \<lparr>pa_Scheme = scheme, pa_Address = url_Host u, pa_Auth = url_User u\<rparr>))))"

fun parseProxyURLs :: "(string \<Rightarrow> err + url) \<Rightarrow> string list \<Rightarrow> ProxyAddr list res" where
  "parseProxyURLs url_parse [] = Ret []"
| "parseProxyURLs url_parse (p # ps) =
     res_bind (parseProxyURL url_parse p) (\<lambda>a. res_bind (parseProxyURLs url_parse ps) (\<lambda>as. Ret (a # as)))"

section \<open>The plan of a run\<close>

text \<open>The attributes of the child process.\<close>

definition run_sys_attr :: "bool \<Rightarrow> runFlags \<Rightarrow> int \<Rightarrow> int \<Rightarrow> sys_attr" where
  "run_sys_attr privileged f euid egid =
     (if privileged then \<lparr>at_newuser = False, at_credential = None, at_uidMappings = [], at_gidMappings = []\<rparr>
      else \<lparr>at_newuser = True, at_credential = Some (0, word_of_int (gid f)),
            at_uidMappings = [\<lparr>ContainerID = 0, HostID = euid\<rparr>], at_gidMappings = [\<lparr>ContainerID = gid f, HostID = egid\<rparr>]\<rparr>)"

record run_plan =
  rp_logLevel :: int
  rp_proxies :: "ProxyAddr list"
  rp_nat :: mapper
  rp_bypass :: "ipnet list"
  rp_dns :: "string list"
  rp_nat64 :: "ipnet option"
  rp_useDNS :: bool
  rp_args :: "string list"
  rp_attr :: sys_attr
  rp_wantFds :: nat
  rp_tunNetworks :: "string list"
  rp_tun :: "ipnet list"
  rp_policy :: dnsPolicy

text \<open>The first error ends it, in the order the source parses.\<close>

definition runRun_plan ::
    "(string \<Rightarrow> err + url) \<Rightarrow> runFlags \<Rightarrow> string list \<Rightarrow> int \<Rightarrow> int \<Rightarrow> string option \<Rightarrow> run_plan res" where
  "runRun_plan url_parse f cmdArgs euid egid uid_map =
     res_bind (checkFlags f) (\<lambda>_.
     res_bind (parseProxyURLs url_parse (forwardProxies f)) (\<lambda>proxies.
     res_bind (parseAddressMapper (localMappings f)) (\<lambda>nt.
     res_bind (parseBypassNets (bypassCIDRs f)) (\<lambda>bypass.
     res_bind (parseUpstreamDNSList (dnsServers f)) (\<lambda>dns.
     res_bind (parseNAT64 (nat64Prefix f)) (\<lambda>nat64.
     let useDNS = (0 < length dns);
         privileged = isInitialUserNamespaceRoot euid uid_map;
         tunNetworks = tunNetworkAddr # (if ipv6 f then [tunNetworkAddrV6] else [])
     in res_bind (parseBypassNets tunNetworks) (\<lambda>tun.
        Ret \<lparr>rp_logLevel = setLogLevel (if quiet f then - 1 else verboseLevel f), rp_proxies = proxies, rp_nat = nt, rp_bypass = bypass,
             rp_dns = dns, rp_nat64 = nat64, rp_useDNS = useDNS,
             rp_args = runc_args privileged useDNS (ipv6 f) (hostname f) (uid f) (gid f) cmdArgs,
             rp_attr = run_sys_attr privileged f euid egid, rp_wantFds = (if useDNS then 3 else 1),
             rp_tunNetworks = tunNetworks, rp_tun = tun,
             rp_policy = \<lparr>pol_ipv6 = ipv6 f, pol_allow = bypass, pol_nat64 = nat64\<rparr>\<rparr>)))))))"

text \<open>The connector of the container's TCP traffic under a plan.\<close>

definition run_tcp :: "netenv \<Rightarrow> run_plan \<Rightarrow> (world, nat) connector res" where
  "run_tcp env p =
     res_bind (buildProxyChain env (rp_proxies p)) (\<lambda>(tcp, _).
     Ret (localForwarding_DialContext
       (NewLocalForwardingConnector (NewDirectConnector env) tcp (rp_nat p) (rp_bypass p) (rp_tun p) (rp_nat64 p))))"

section \<open>The control socket\<close>

text \<open>
  The child sends its descriptors and the MTU and waits for the acknowledgement; the parent takes them, starts the stack and the resolver,
  acknowledges, and waits for the child to end. Each socket direction is a queue; a process that ends closes its end.
\<close>

datatype msg = Fds nat | MTU nat | ACK

datatype child_pc = ChildBoot | SentFds | SentMTU | GotACK | NetworkUp | AppRunning | ChildExited wait_status

datatype parent_pc = Started | GotFds | GotMTU nat | StackUp | SentACK | ParentEnded "unit res"

record conv =
  v_dns :: bool
  v_want :: nat
  v_cmd :: "string list"
  v_child :: child_pc
  v_parent :: parent_pc
  v_up :: "msg list"
  v_down :: "msg list"
  v_app :: "wait_status option"

definition conv_start :: "bool \<Rightarrow> nat \<Rightarrow> string list \<Rightarrow> conv" where
  "conv_start dns want cmd =
     \<lparr>v_dns = dns, v_want = want, v_cmd = cmd, v_child = ChildBoot, v_parent = Started, v_up = [], v_down = [], v_app = None\<rparr>"

definition child_gone :: "conv \<Rightarrow> bool" where
  "child_gone s \<longleftrightarrow> (\<exists>st. v_child s = ChildExited st)"

definition parent_gone :: "conv \<Rightarrow> bool" where
  "parent_gone s \<longleftrightarrow> (\<exists>x. v_parent s = ParentEnded x)"

text \<open>The status of the container process after its command ended: \<^verbatim>\<open>main\<close> of the child reports it as a shell does.\<close>

definition container_status :: "wait_status \<Rightarrow> wait_status" where
  "container_status st = Exited (exitCode st)"

text \<open>How many descriptors the child sends: the TUN and, with a resolver, its UDP socket and TCP listener.\<close>

definition container_fds :: "bool \<Rightarrow> nat" where
  "container_fds dns = length (descriptors dns)"

text \<open>\<^verbatim>\<open>ReceiveFds\<close>, given how many descriptors the message carries; at the end of the stream there is no message.\<close>

definition fds_received :: "nat \<Rightarrow> nat option \<Rightarrow> nat res" where
  "fds_received want oob =
     (case oob of
        None \<Rightarrow> ThrowFmt ''wirez child exited before sending network file descriptors'' []
      | Some fds \<Rightarrow>
          if fds \<noteq> want then ThrowFmt ''received %d network file descriptors, want %d'' [itoa fds, itoa want] else Ret fds)"

text \<open>What is left of the parent when a call of it throws.\<close>

definition go_on :: "'a res \<Rightarrow> parent_pc \<Rightarrow> parent_pc" where
  "go_on r next = (case r of Ret _ \<Rightarrow> next | Exc e \<Rightarrow> ParentEnded (Exc e) | Pan q \<Rightarrow> ParentEnded (Pan q))"

text \<open>\<^verbatim>\<open>proc.Wait\<close>.\<close>

definition wait_result :: "wait_status \<Rightarrow> unit res" where
  "wait_result st = Throw (if st = Exited 0 then None else Some (ExitErr st))"

text \<open>
  The two processes as they meet on the control socket. Each step stands for what \<^verbatim>\<open>runRun\<close> and \<^verbatim>\<open>runContainer\<close> do between two
  messages, whose calls \<open>Setup\<close> and \<open>Parent\<close> follow one by one: \<open>c_setup\<close> is all of the network and file setup after the
  acknowledgement, \<open>p_stack\<close> the network stack and the resolver. The end of the command and that of the container process are one step,
  since nothing of the conversation happens in between; a parent that a signal ends is left out.
\<close>

inductive cstep :: "conv \<Rightarrow> conv \<Rightarrow> bool" where
  c_fds: "v_child s = ChildBoot \<Longrightarrow>
    cstep s (s\<lparr>v_child := SentFds, v_up := v_up s @ [Fds (container_fds (v_dns s))]\<rparr>)"
| c_mtu: "v_child s = SentFds \<Longrightarrow> cstep s (s\<lparr>v_child := SentMTU, v_up := v_up s @ [MTU m]\<rparr>)"
| c_ack: "v_child s = SentMTU \<Longrightarrow> v_down s = ACK # rest \<Longrightarrow> cstep s (s\<lparr>v_child := GotACK, v_down := rest\<rparr>)"
| c_no_ack: "v_child s = SentMTU \<Longrightarrow> v_down s = [] \<Longrightarrow> parent_gone s \<Longrightarrow> cstep s (s\<lparr>v_child := ChildExited (Exited 1)\<rparr>)"
| c_setup: "v_child s = GotACK \<Longrightarrow> cstep s (s\<lparr>v_child := NetworkUp\<rparr>)"
| c_exec: "v_child s = NetworkUp \<Longrightarrow> runc_command (v_cmd s) = Ret (name, args) \<Longrightarrow> cstep s (s\<lparr>v_child := AppRunning\<rparr>)"
| c_panic: "v_child s = NetworkUp \<Longrightarrow> runc_command (v_cmd s) = Pan q \<Longrightarrow> cstep s (s\<lparr>v_child := ChildExited (Exited 2)\<rparr>)"
| c_throw: "v_child s \<in> {ChildBoot, SentFds, GotACK, NetworkUp} \<Longrightarrow> cstep s (s\<lparr>v_child := ChildExited (Exited 1)\<rparr>)"

| c_app_ends: "v_child s = AppRunning \<Longrightarrow> cstep s (s\<lparr>v_child := ChildExited (container_status st), v_app := Some st\<rparr>)"
| p_fds: "v_parent s = Started \<Longrightarrow> v_up s = Fds n # rest \<Longrightarrow>
    cstep s (s\<lparr>v_up := rest, v_parent := go_on (fds_received (v_want s) (Some n)) GotFds\<rparr>)"
| p_fds_eof: "v_parent s = Started \<Longrightarrow> v_up s = [] \<Longrightarrow> child_gone s \<Longrightarrow>
    cstep s (s\<lparr>v_parent := go_on (fds_received (v_want s) None) GotFds\<rparr>)"
| p_mtu: "v_parent s = GotFds \<Longrightarrow> v_up s = MTU m # rest \<Longrightarrow> cstep s (s\<lparr>v_up := rest, v_parent := GotMTU m\<rparr>)"
| p_mtu_eof: "v_parent s = GotFds \<Longrightarrow> v_up s = [] \<Longrightarrow> child_gone s \<Longrightarrow> cstep s (s\<lparr>v_parent := ParentEnded (Exc EOF)\<rparr>)"
| p_stack: "v_parent s = GotMTU m \<Longrightarrow> cstep s (s\<lparr>v_parent := StackUp\<rparr>)"
| p_stack_throw: "v_parent s = GotMTU m \<Longrightarrow> as_exit e = None \<Longrightarrow> cstep s (s\<lparr>v_parent := ParentEnded (Exc e)\<rparr>)"
| p_ack: "v_parent s = StackUp \<Longrightarrow> cstep s (s\<lparr>v_parent := SentACK, v_down := v_down s @ [ACK]\<rparr>)"
| p_ack_throw: "v_parent s = StackUp \<Longrightarrow> child_gone s \<Longrightarrow> as_exit e = None \<Longrightarrow> cstep s (s\<lparr>v_parent := ParentEnded (Exc e)\<rparr>)"
| p_wait: "v_parent s = SentACK \<Longrightarrow> v_child s = ChildExited st \<Longrightarrow> cstep s (s\<lparr>v_parent := ParentEnded (wait_result st)\<rparr>)"

text \<open>A signal from outside may end the container process at any moment.\<close>

inductive ckill :: "conv \<Rightarrow> conv \<Rightarrow> bool" where
  c_killed: "\<not> child_gone s \<Longrightarrow> ckill s (s\<lparr>v_child := ChildExited (Signaled sig)\<rparr>)"

definition crun :: "conv \<Rightarrow> conv \<Rightarrow> bool" where
  "crun s s' \<longleftrightarrow> cstep s s' \<or> ckill s s'"

section \<open>The invariant of the conversation\<close>

text \<open>
  Where the parent and the two queues can be, for every point of the child. The two ends of a run are the last two clauses: the
  application's status is the one the container process ends with, and the parent ends with what it waited for or with an error of its own.
\<close>

definition queues_ok :: "conv \<Rightarrow> bool" where
  "queues_ok s \<longleftrightarrow> (case v_child s of
      ChildBoot \<Rightarrow> v_parent s = Started \<and> v_up s = [] \<and> v_down s = []
    | SentFds \<Rightarrow> v_down s = [] \<and> (v_parent s = Started \<and> v_up s = [Fds (v_want s)] \<or> v_parent s = GotFds \<and> v_up s = [])
    | SentMTU \<Rightarrow> (case v_parent s of
          Started \<Rightarrow> v_down s = [] \<and> (\<exists>m. v_up s = [Fds (v_want s), MTU m])
        | GotFds \<Rightarrow> v_down s = [] \<and> (\<exists>m. v_up s = [MTU m])
        | SentACK \<Rightarrow> v_down s = [ACK]
        | _ \<Rightarrow> v_down s = [])
    | ChildExited st \<Rightarrow> (case v_parent s of
          Started \<Rightarrow> v_up s = [] \<or> v_up s = [Fds (v_want s)] \<or> (\<exists>m. v_up s = [Fds (v_want s), MTU m])
        | GotFds \<Rightarrow> v_up s = [] \<or> (\<exists>m. v_up s = [MTU m])
        | _ \<Rightarrow> True)
    | _ \<Rightarrow> v_parent s = SentACK)"

definition ends_ok :: "conv \<Rightarrow> bool" where
  "ends_ok s \<longleftrightarrow>
     (case v_app s of Some st \<Rightarrow> v_child s = ChildExited (container_status st) \<and>
           (v_parent s = SentACK \<or> v_parent s = ParentEnded (wait_result (container_status st)))
      | None \<Rightarrow> (\<forall>st. v_child s = ChildExited st \<longrightarrow> exitCode st \<noteq> 0)) \<and>
     (\<forall>x. v_parent s = ParentEnded x \<longrightarrow>
        (\<exists>st. v_child s = ChildExited st \<and> x = wait_result st) \<or> (\<exists>e. x = Exc e \<and> as_exit e = None))"

definition conv_ok :: "conv \<Rightarrow> bool" where
  "conv_ok s \<longleftrightarrow> v_want s = (if v_dns s then 3 else 1) \<and> queues_ok s \<and> ends_ok s"

lemmas conv_defs = queues_ok_def ends_ok_def child_gone_def parent_gone_def container_fds_def descriptors_def fds_received_def go_on_def

lemma conv_start_ok: "conv_ok (conv_start dns (if dns then 3 else 1) cmd)"
  by (simp add: conv_ok_def conv_start_def conv_defs)

lemma crun_queues:
  assumes "crun s s'" and "conv_ok s"
  shows "queues_ok s'"
  using assms unfolding crun_def conv_ok_def
  by (elim disjE cstep.cases ckill.cases) (auto simp: conv_defs split: child_pc.splits parent_pc.splits)


lemma crun_ends:
  assumes "crun s s'" and "conv_ok s"
  shows "ends_ok s'"
  using assms unfolding crun_def conv_ok_def
  by (elim disjE cstep.cases ckill.cases)
    (auto simp: conv_defs exitCode_def ThrowFmt_def split: child_pc.splits parent_pc.splits option.splits if_splits)

lemma crun_ok: "crun s s' \<Longrightarrow> conv_ok s \<Longrightarrow> conv_ok s'"
  using crun_queues [of s s'] crun_ends [of s s']
  by (auto simp: conv_ok_def crun_def elim: cstep.cases ckill.cases)

lemma crun_star_ok: "crun\<^sup>*\<^sup>* s s' \<Longrightarrow> conv_ok s \<Longrightarrow> conv_ok s'"
  by (induction rule: rtranclp_induct) (auto intro: crun_ok)

lemmas reachable_ok = crun_star_ok [OF _ conv_start_ok]

text \<open>Every step moves one of the processes on.\<close>

primrec child_rank :: "child_pc \<Rightarrow> nat" where
  "child_rank ChildBoot = 6"
| "child_rank SentFds = 5"
| "child_rank SentMTU = 4"
| "child_rank GotACK = 3"
| "child_rank NetworkUp = 2"
| "child_rank AppRunning = 1"
| "child_rank (ChildExited st) = 0"

primrec parent_rank :: "parent_pc \<Rightarrow> nat" where
  "parent_rank Started = 5"
| "parent_rank GotFds = 4"
| "parent_rank (GotMTU m) = 3"
| "parent_rank StackUp = 2"
| "parent_rank SentACK = 1"
| "parent_rank (ParentEnded x) = 0"

definition conv_rank :: "conv \<Rightarrow> nat" where
  "conv_rank s = child_rank (v_child s) + parent_rank (v_parent s)"

lemma crun_rank: "crun s s' \<Longrightarrow> conv_rank s' < conv_rank s"
  unfolding crun_def
  by (elim disjE cstep.cases ckill.cases; cases "v_child s") (auto simp: conv_rank_def child_gone_def go_on_def fds_received_def ThrowFmt_def)

lemma crun_bounded: "(crun ^^ n) s s' \<Longrightarrow> n + conv_rank s' \<le> conv_rank s"
proof (induction n arbitrary: s')
  case (Suc n)
  then obtain t where "(crun ^^ n) s t" "crun t s'" by auto
  with Suc.IH [of t] crun_rank [of t s'] show ?case by linarith
qed simp

text \<open>One of the two processes can always go on by itself until both have ended.\<close>

lemma cstep_parent:
  "v_parent s = Started \<Longrightarrow> v_up s = [] \<Longrightarrow> v_child s = ChildExited st \<Longrightarrow> Ex (cstep s)"
  "v_parent s = Started \<Longrightarrow> v_up s = Fds n # rest \<Longrightarrow> Ex (cstep s)"
  "v_parent s = GotFds \<Longrightarrow> v_up s = [] \<Longrightarrow> v_child s = ChildExited st \<Longrightarrow> Ex (cstep s)"
  "v_parent s = GotFds \<Longrightarrow> v_up s = MTU m # rest \<Longrightarrow> Ex (cstep s)"
  "v_parent s = GotMTU m \<Longrightarrow> Ex (cstep s)"
  "v_parent s = StackUp \<Longrightarrow> Ex (cstep s)"
  "v_parent s = SentACK \<Longrightarrow> v_child s = ChildExited st \<Longrightarrow> Ex (cstep s)"
  using cstep.intros(10-) [of s] unfolding child_gone_def by blast+

lemma cstep_ended: "v_child s = SentMTU \<Longrightarrow> v_down s = [] \<Longrightarrow> v_parent s = ParentEnded x \<Longrightarrow> Ex (cstep s)"
  using cstep.c_no_ack [of s] unfolding parent_gone_def by blast

lemma conv_progress:
  assumes "conv_ok s" and "\<not> (child_gone s \<and> parent_gone s)"
  shows "\<exists>s'. cstep s s'"
proof (cases "child_gone s")
  case True
  with assms have "\<not> parent_gone s" by simp
  moreover have "v_up s = [] \<or> (\<exists>rest. v_up s = Fds (v_want s) # rest)" if "v_parent s = Started"
    using that True assms(1) by (auto simp: conv_ok_def queues_ok_def child_gone_def)
  moreover have "v_up s = [] \<or> (\<exists>m rest. v_up s = MTU m # rest)" if "v_parent s = GotFds"
    using that True assms(1) by (auto simp: conv_ok_def queues_ok_def child_gone_def)
  ultimately show ?thesis
    using True by (cases "v_parent s") (auto simp: parent_gone_def child_gone_def intro: cstep_parent)
next
  case False
  note gone = False
  show ?thesis
  proof (cases "v_child s")
    case SentMTU
    with assms(1) show ?thesis
      by (cases "v_parent s")
        (auto simp: conv_ok_def queues_ok_def intro: cstep.intros cstep_ended)
  next
    case NetworkUp
    then show ?thesis using cstep.c_throw [of s] by auto
  next
    case (ChildExited st)
    with gone show ?thesis by (simp add: child_gone_def)
  qed (auto intro: cstep.intros)
qed

section \<open>What an accepted plan guarantees\<close>

lemma parseProxyURLs_ok:
  "parseProxyURLs up ps = Ret as \<Longrightarrow> length as = length ps \<and>
    (\<forall>a \<in> set as. pa_Scheme a \<in> {''socks5'', ''http''} \<and> (\<exists>host port. SplitHostPort (pa_Address a) = Inr (host, port)))"
proof (induction ps arbitrary: as)
  case (Cons p ps)
  then obtain a bs where a: "parseProxyURL up p = Ret a" and bs: "parseProxyURLs up ps = Ret bs" "as = a # bs"
    by (auto simp: res_simps)
  from a have "pa_Scheme a \<in> {''socks5'', ''http''} \<and> (\<exists>host port. SplitHostPort (pa_Address a) = Inr (host, port))"
    by (auto simp: parseProxyURL_def Let_def res_simps split: if_splits)
  with Cons.IH [OF bs(1)] bs(2) show ?case by auto
qed simp

definition tun4 :: ipnet where
  "tun4 = \<lparr>net_IP = [10, 1, 1, 0], net_Mask = [255, 255, 255, 0]\<rparr>"

definition tun6 :: ipnet where
  "tun6 = \<lparr>net_IP = [0x20, 0x01, 0x0d, 0xb8, 0, 1, 0, 1, 0, 0, 0, 0, 0, 0, 0, 0], net_Mask = replicate 8 255 @ replicate 8 0\<rparr>"

lemma tun_networks: "parseBypassNets [tunNetworkAddr] = Ret [tun4]" "parseBypassNets [tunNetworkAddr, tunNetworkAddrV6] = Ret [tun4, tun6]"
  by code_simp+

lemma parseNAT64_ok: "parseNAT64 s = Ret x \<Longrightarrow> pred_option nat64_prefix x"
  using parseNAT64_prefix by (cases x) auto

lemma runRun_plan_ok:
  assumes "runRun_plan up f cmdArgs euid egid uid_map = Ret p"
  shows "rp_proxies p \<noteq> []" "pred_option nat64_prefix (rp_nat64 p)" "rp_tun p = tun4 # (if ipv6 f then [tun6] else [])"
    "\<forall>a \<in> set (rp_proxies p). pa_Scheme a \<in> {''socks5'', ''http''} \<and> (\<exists>host port. SplitHostPort (pa_Address a) = Inr (host, port))"
    "0 \<le> uid f" "0 \<le> gid f" "rp_useDNS p \<longleftrightarrow> rp_dns p \<noteq> []" "rp_wantFds p = (if rp_useDNS p then 3 else 1)"
    "rp_args p = runc_args (isInitialUserNamespaceRoot euid uid_map) (rp_useDNS p) (ipv6 f) (hostname f) (uid f) (gid f) cmdArgs"
    "rp_policy p = \<lparr>pol_ipv6 = ipv6 f, pol_allow = rp_bypass p, pol_nat64 = rp_nat64 p\<rparr>"
proof -
  from assms obtain ps n64 where c: "checkFlags f = Ret ()" and ps: "parseProxyURLs up (forwardProxies f) = Ret ps" "rp_proxies p = ps"
    and n: "parseNAT64 (nat64Prefix f) = Ret n64" "rp_nat64 p = n64"
    and t: "parseBypassNets (tunNetworkAddr # (if ipv6 f then [tunNetworkAddrV6] else [])) = Ret (rp_tun p)"
    and rest: "rp_useDNS p \<longleftrightarrow> rp_dns p \<noteq> []" "rp_wantFds p = (if rp_useDNS p then 3 else 1)"
      "rp_args p = runc_args (isInitialUserNamespaceRoot euid uid_map) (rp_useDNS p) (ipv6 f) (hostname f) (uid f) (gid f) cmdArgs"
      "rp_policy p = \<lparr>pol_ipv6 = ipv6 f, pol_allow = rp_bypass p, pol_nat64 = rp_nat64 p\<rparr>"
    by (auto simp: runRun_plan_def Let_def res_simps)
  from c have c: "0 \<le> uid f" "0 \<le> gid f" "forwardProxies f \<noteq> []" by (auto simp: checkFlags_def res_simps split: if_splits)
  from parseProxyURLs_ok [OF ps(1)] ps(2) c
  show "rp_proxies p \<noteq> []"
    "\<forall>a \<in> set (rp_proxies p). pa_Scheme a \<in> {''socks5'', ''http''} \<and> (\<exists>host port. SplitHostPort (pa_Address a) = Inr (host, port))"
    by auto
  show "pred_option nat64_prefix (rp_nat64 p)" using parseNAT64_ok n by simp
  show "rp_tun p = tun4 # (if ipv6 f then [tun6] else [])" using t tun_networks by (simp split: if_splits)
  show "0 \<le> uid f" "0 \<le> gid f" by (rule c)+
  show "rp_useDNS p \<longleftrightarrow> rp_dns p \<noteq> []" "rp_wantFds p = (if rp_useDNS p then 3 else 1)"
    "rp_args p = runc_args (isInitialUserNamespaceRoot euid uid_map) (rp_useDNS p) (ipv6 f) (hostname f) (uid f) (gid f) cmdArgs"
    "rp_policy p = \<lparr>pol_ipv6 = ipv6 f, pol_allow = rp_bypass p, pol_nat64 = rp_nat64 p\<rparr>" by (rule rest)+
qed

text \<open>An address of the TUN subnet stays what it is under every NAT64 prefix.\<close>

lemma tun4_refused:
  assumes "ep_ip e = [10, 1, 1, b]" and "tun4 \<in> set tun" and "MapAddress nt network (render e) = None"
  shows "route_of nt bypass tun nat64 network e = Refused"
proof -
  have "network_number_and_mask tun4 = ([10, 1, 1, 0], [255, 255, 255, 0])" by code_simp
  then have "Contains tun4 [10, 1, 1, b]" "To4 [10, 1, 1, b] \<noteq> []"
    by (simp_all add: Contains_def To4_def numeral_nat ball_simps atLeast0LessThan lessThan_Suc)
  then show ?thesis using assms by (auto simp: route_of_def unmap_endpoint_def list_ex_iff split: option.splits)
qed

section \<open>Properties\<close>

text \<open>
  C27: No command runs before the network is there. In every interleaving of the two processes, and whatever fails or is killed, the user's
  command is running only while the parent has received the descriptors and the MTU, started the stack and the resolver and
  acknowledged, and the parent never sees another number of descriptors than it waits for.
\<close>

theorem command_runs_behind_the_stack:
  assumes "crun\<^sup>*\<^sup>* (conv_start dns (if dns then 3 else 1) cmd) s"
  shows "(v_child s = AppRunning \<longrightarrow> v_parent s = SentACK) \<and> (\<forall>n. Fds n \<in> set (v_up s) \<and> v_parent s = Started \<longrightarrow> n = v_want s)"
  using reachable_ok [OF assms] by (auto simp: conv_ok_def queues_ok_def split: child_pc.splits)

text \<open>
  C25: wirez never hangs on its own. A run of the two processes has at most eleven steps, and while one of them has not ended, one of them can
  go on by itself: the control socket has no deadlock, also when the child dies between two messages, the stack cannot
  be started or the acknowledgement finds nobody.
\<close>

theorem control_socket_no_deadlock:
  assumes "(crun ^^ n) (conv_start dns (if dns then 3 else 1) cmd) s"
  shows "n \<le> 11 \<and> (child_gone s \<and> parent_gone s \<or> (\<exists>s'. cstep s s'))"
proof -
  have "conv_rank (conv_start dns (if dns then 3 else 1) cmd) = 11" by (simp add: conv_rank_def conv_start_def)
  with crun_bounded [OF assms] have "n \<le> 11" by linarith
  moreover from assms have "crun\<^sup>*\<^sup>* (conv_start dns (if dns then 3 else 1) cmd) s" by (rule relpowp_imp_rtranclp)
  from reachable_ok [OF this] have "child_gone s \<and> parent_gone s \<or> (\<exists>s'. cstep s s')"
    using conv_progress by blast
  ultimately show ?thesis by simp
qed

text \<open>
  C26: The exit status of wirez is the command's, as a shell reports it, through both processes; and when the command did not run to its end,
  because the child or the parent failed before or the container was killed, wirez does not report success.
\<close>

theorem exit_status_is_the_commands:
  assumes "crun\<^sup>*\<^sup>* (conv_start dns (if dns then 3 else 1) cmd) s" and "v_parent s = ParentEnded x"
    and "2 \<le> length argv" and "argv ! 1 \<noteq> ''runc''"
  shows "case v_app s of
      Some st \<Rightarrow> main_status argv (\<lambda>args. fst (runContainer k args [])) (\<lambda>_. x) = exitCode st
    | None \<Rightarrow> main_status argv (\<lambda>args. fst (runContainer k args [])) (\<lambda>_. x) \<noteq> 0"
proof -
  have wait: "main_status argv (\<lambda>args. fst (runContainer k args [])) (\<lambda>_. wait_result st) = exitCode st" for st
    using assms(3,4) by (simp add: main_status_def wait_result_def exitCode_def)
  have exc: "main_status argv (\<lambda>args. fst (runContainer k args [])) (\<lambda>_. Exc e) = 1" if "as_exit e = None" for e
    using assms(3,4) that by (simp add: main_status_def)
  have idem: "exitCode (container_status st) = exitCode st" for st by (simp add: container_status_def exitCode_def)
  from reachable_ok [OF assms(1)] assms(2) show ?thesis
    by (auto simp: conv_ok_def ends_ok_def wait exc idem split: option.splits)
qed

text \<open>
  C29: What the parent accepts is consistent. Whatever the flags, when \<^verbatim>\<open>runRun\<close> gets past its parsing there is at least one proxy and each is
  SOCKS5 or HTTP with an address that splits into host and port; the NAT64 prefix is an IPv6 /96; the TUN networks are the
  fixed subnets, the IPv6 one only with \<^verbatim>\<open>-6\<close>; the DNS policy uses the routing's networks and prefix; and the child parses its arguments
  to the same switches and ids, to the user's command, and to a DNS switch for which it sends as many descriptors as the parent waits for.
\<close>

theorem accepted_plan_consistent:
  assumes "runRun_plan url_parse f cmdArgs euid egid uid_map = Ret p" and "uid f < 2 ^ 63" and "gid f < 2 ^ 63"
  shows "rp_proxies p \<noteq> [] \<and>
    (\<forall>a \<in> set (rp_proxies p). pa_Scheme a \<in> {''socks5'', ''http''} \<and> (\<exists>host port. SplitHostPort (pa_Address a) = Inr (host, port))) \<and>
    pred_option nat64_prefix (rp_nat64 p) \<and> rp_tun p = tun4 # (if ipv6 f then [tun6] else []) \<and>
    rp_policy p = \<lparr>pol_ipv6 = ipv6 f, pol_allow = rp_bypass p, pol_nat64 = rp_nat64 p\<rparr> \<and>
    (\<exists>rc. runc_parse ceuid cegid (rp_args p) = Ret (rc, cmdArgs) \<and> rc_uid rc = uid f \<and> rc_gid rc = gid f \<and> rc_hostname rc = hostname f \<and>
      rc_privileged rc = isInitialUserNamespaceRoot euid uid_map \<and> rc_ipv6 rc = ipv6 f \<and> (rc_dns rc \<longleftrightarrow> rp_dns p \<noteq> []) \<and>
      rp_wantFds p = container_fds (rc_dns rc))"
  using runRun_plan_ok [OF assms(1)] runc_parse_args [OF _ assms(2) _ assms(3)] by (simp add: container_fds_def descriptors_def)

text \<open>What a dial of the container's TCP connector does to the host, under any accepted plan.\<close>

lemma run_tcp_out:
  assumes "runRun_plan url_parse f cmdArgs euid egid uid_map = Ret p" and "run_tcp env p = Ret dial"
    and "endpoint_ok e" and "world_ok w" and "dial cx network (render e) w = (x, w')"
  shows "case route_of (rp_nat p) (rp_bypass p) (rp_tun p) (rp_nat64 p) network e of
      Mapped t \<Rightarrow> asks_for w (network, t) w'
    | Refused \<Rightarrow> w' = w \<and> (\<exists>er. x = Ret (Inl er))
    | Direct d \<Rightarrow> asks_for w (network, render d) w'
    | Proxied d \<Rightarrow> asks_for w (chain_entry (rp_proxies p) network (render d)) w'"
proof -
  have "localForwarding_DialContext (NewLocalForwardingConnector (NewDirectConnector env) (through env (rp_proxies p)) (rp_nat p) (rp_bypass p) (rp_tun p) (rp_nat64 p))
      cx network (render e) w = (x, w')"
    using assms(2,5) by (simp add: run_tcp_def buildProxyChain_eq)
  from router_out [OF assms(3) runRun_plan_ok(2) [OF assms(1)] assms(4) this] show ?thesis .
qed

text \<open>
  C1: From the command line to the sockets. With any flags \<^verbatim>\<open>runRun\<close> accepts, a TCP connection of the container makes the host open at most
  one socket: to the mapping's target, to the bypassed destination itself, or, for everything else, to the first proxy and never to
  the destination. A connection to the TUN subnet that no \<^verbatim>\<open>-L\<close> names fails and touches nothing, with every NAT64 prefix and bypass list.
\<close>

theorem accepted_flags_contain_traffic:
  assumes "runRun_plan url_parse f cmdArgs euid egid uid_map = Ret p" and "run_tcp env p = Ret dial"
    and "endpoint_ok e" and "world_ok w" and "dial cx ''tcp'' (render e) w = (x, w')"
  shows "(dials w' = dials w \<or> dials w' = dials w @ [(''tcp'',
      case route_of (rp_nat p) (rp_bypass p) (rp_tun p) (rp_nat64 p) ''tcp'' e of
        Mapped t \<Rightarrow> t | Direct d \<Rightarrow> render d | _ \<Rightarrow> pa_Address (hd (rp_proxies p)))]) \<and>
    (\<forall>b. ep_ip e = [10, 1, 1, b] \<and> MapAddress (rp_nat p) ''tcp'' (render e) = None \<longrightarrow> w' = w \<and> (\<exists>er. x = Ret (Inl er)))"
proof -
  note plan = runRun_plan_ok [OF assms(1)] and r = run_tcp_out [OF assms]
  have entry: "chain_entry (rp_proxies p) ''tcp'' a = (''tcp'', pa_Address (hd (rp_proxies p)))" for a
    using plan(1) by (cases "rp_proxies p") (simp_all add: chain_entry_def)
  have "dials w' = dials w \<or> dials w' = dials w @ [(''tcp'',
      case route_of (rp_nat p) (rp_bypass p) (rp_tun p) (rp_nat64 p) ''tcp'' e of
        Mapped t \<Rightarrow> t | Direct d \<Rightarrow> render d | _ \<Rightarrow> pa_Address (hd (rp_proxies p)))]"
    using r by (auto simp: asks_for_def entry split: route.splits)
  moreover have "w' = w \<and> (\<exists>er. x = Ret (Inl er))"
    if "ep_ip e = [10, 1, 1, b]" "MapAddress (rp_nat p) ''tcp'' (render e) = None" for b
    using r tun4_refused [OF that(1) _ that(2), of "rp_tun p" "rp_bypass p" "rp_nat64 p"] plan(3) by auto
  ultimately show ?thesis by blast
qed


text \<open>Witnesses: a run with one proxy and one DNS server, and the shortest conversation that ends.\<close>

definition demo_flags :: runFlags where
  "demo_flags = \<lparr>forwardProxies = [''192.0.2.1:1080''], localMappings = [], bypassCIDRs = [''192.168.0.0/16''], dnsServers = [''192.0.2.53''],
     verboseLevel = 0, ipv6 = False, nat64Prefix = ''64:ff9b::/96'', hostname = ''wirez'', connectTimeout = 10000000000, tcpTimeout = 0,
     udpTimeout = 15000000000, quiet = False, uid = 1000, gid = 100\<rparr>"

definition demo_url :: "string \<Rightarrow> err + url" where
  "demo_url s = Inr \<lparr>url_Scheme = ''socks5'', url_Host = drop 9 s, url_User = None\<rparr>"

definition demo_plan :: "run_plan res" where
  "demo_plan = runRun_plan demo_url demo_flags [''ls''] 1000 100 None"

lemma demo_plan_accepted: "\<exists>p. demo_plan = Ret p \<and> rp_nat p = NewAddressMapper"
proof -
  have p: "parseProxyURLs demo_url [''192.0.2.1:1080''] = Ret [\<lparr>pa_Scheme = ''socks5'', pa_Address = ''192.0.2.1:1080'', pa_Auth = None\<rparr>]" by code_simp
  have "\<exists>ns. parseBypassNets [''192.168.0.0/16''] = Ret ns" by (rule exI) code_simp
  then obtain ns where ns: "parseBypassNets [''192.168.0.0/16''] = Ret ns" by blast
  have d: "parseUpstreamDNSList [''192.0.2.53''] = Ret [''192.0.2.53:53'']" by code_simp
  have n: "parseNAT64 ''64:ff9b::/96'' = Ret (Some well_known_nat64)" by code_simp
  show ?thesis
    using p ns d n tun_networks(1)
    by (simp add: demo_plan_def runRun_plan_def checkFlags_def demo_flags_def parseAddressMapper_def Let_def)
qed

theorem accepted_plan_consistent_witness:
  "\<exists>p rc. runRun_plan demo_url demo_flags [''ls''] 1000 100 None = Ret p \<and> rp_tun p = [tun4] \<and>
    runc_parse 0 0 (rp_args p) = Ret (rc, [''ls'']) \<and> rc_uid rc = 1000"
proof -
  from demo_plan_accepted obtain p where p: "runRun_plan demo_url demo_flags [''ls''] 1000 100 None = Ret p"
    by (auto simp: demo_plan_def)
  have b: "uid demo_flags < 2 ^ 63" "gid demo_flags < 2 ^ 63" "uid demo_flags = 1000" "\<not> ipv6 demo_flags" by (simp_all add: demo_flags_def)
  from accepted_plan_consistent [OF p b(1,2), of 0 0] p b(3,4) show ?thesis by auto
qed

theorem accepted_flags_contain_traffic_witness:
  "\<exists>p dial x w'. runRun_plan demo_url demo_flags [''ls''] 1000 100 None = Ret p \<and> run_tcp demo_net p = Ret dial \<and>
    dial demo_ctx ''tcp'' (render \<lparr>ep_ip = [10, 1, 1, 2], ep_port = 22\<rparr>) demo_world = (x, w') \<and> w' = demo_world"
proof -
  let ?e = "\<lparr>ep_ip = [10, 1, 1, 2], ep_port = 22\<rparr> :: endpoint"
  from demo_plan_accepted obtain p where p: "runRun_plan demo_url demo_flags [''ls''] 1000 100 None = Ret p" and nt: "rp_nat p = NewAddressMapper"
    by (auto simp: demo_plan_def)
  obtain dial where c: "run_tcp demo_net p = Ret dial" by (simp add: run_tcp_def buildProxyChain_eq)
  obtain x w' where d: "dial demo_ctx ''tcp'' (render ?e) demo_world = (x, w')" by (cases "dial demo_ctx ''tcp'' (render ?e) demo_world")
  have ok: "endpoint_ok ?e" by (simp add: endpoint_ok_def)
  have "MapAddress NewAddressMapper ''tcp'' (render ?e) = None" by code_simp
  with accepted_flags_contain_traffic [OF p c ok demo_world_ok d] nt p c d show ?thesis by auto
qed




text \<open>The conversation in which nothing fails and the command ends with status 7.\<close>

definition demo_conv :: "child_pc \<Rightarrow> parent_pc \<Rightarrow> msg list \<Rightarrow> msg list \<Rightarrow> wait_status option \<Rightarrow> conv" where
  "demo_conv c q up down app = \<lparr>v_dns = False, v_want = 1, v_cmd = [''ls''], v_child = c, v_parent = q, v_up = up, v_down = down, v_app = app\<rparr>"

lemma demo_steps:
  "crun (demo_conv ChildBoot Started [] [] None) (demo_conv SentFds Started [Fds 1] [] None)"
  "crun (demo_conv SentFds Started [Fds 1] [] None) (demo_conv SentMTU Started [Fds 1, MTU 1500] [] None)"
  "crun (demo_conv SentMTU Started [Fds 1, MTU 1500] [] None) (demo_conv SentMTU GotFds [MTU 1500] [] None)"
  "crun (demo_conv SentMTU GotFds [MTU 1500] [] None) (demo_conv SentMTU (GotMTU 1500) [] [] None)"
  "crun (demo_conv SentMTU (GotMTU 1500) [] [] None) (demo_conv SentMTU StackUp [] [] None)"
  "crun (demo_conv SentMTU StackUp [] [] None) (demo_conv SentMTU SentACK [] [ACK] None)"
  "crun (demo_conv SentMTU SentACK [] [ACK] None) (demo_conv GotACK SentACK [] [] None)"
  "crun (demo_conv GotACK SentACK [] [] None) (demo_conv NetworkUp SentACK [] [] None)"
  "crun (demo_conv NetworkUp SentACK [] [] None) (demo_conv AppRunning SentACK [] [] None)"
  "crun (demo_conv AppRunning SentACK [] [] None) (demo_conv (ChildExited (Exited 7)) SentACK [] [] (Some (Exited 7)))"
  "crun (demo_conv (ChildExited (Exited 7)) SentACK [] [] (Some (Exited 7)))
     (demo_conv (ChildExited (Exited 7)) (ParentEnded (wait_result (Exited 7))) [] [] (Some (Exited 7)))"
  using c_fds [of "demo_conv ChildBoot Started [] [] None"] c_mtu [of "demo_conv SentFds Started [Fds 1] [] None" 1500]
    p_fds [of "demo_conv SentMTU Started [Fds 1, MTU 1500] [] None"] p_mtu [of "demo_conv SentMTU GotFds [MTU 1500] [] None"]
    p_stack [of "demo_conv SentMTU (GotMTU 1500) [] [] None"] p_ack [of "demo_conv SentMTU StackUp [] [] None"]
    c_ack [of "demo_conv SentMTU SentACK [] [ACK] None"] c_setup [of "demo_conv GotACK SentACK [] [] None"]
    c_exec [of "demo_conv NetworkUp SentACK [] [] None"] c_app_ends [of "demo_conv AppRunning SentACK [] [] None" "Exited 7"]
    p_wait [of "demo_conv (ChildExited (Exited 7)) SentACK [] [] (Some (Exited 7))"]
  by (simp_all add: crun_def demo_conv_def container_fds_def descriptors_def fds_received_def go_on_def runc_command_def index_def slice_def container_status_def exitCode_def)

lemma demo_conv_start: "conv_start False (if False then 3 else 1) [''ls''] = demo_conv ChildBoot Started [] [] None"
  by (simp add: conv_start_def demo_conv_def)

lemma demo_running: "crun\<^sup>*\<^sup>* (demo_conv ChildBoot Started [] [] None) (demo_conv AppRunning SentACK [] [] None)"
  by (rule rtranclp.rtrancl_refl | rule converse_rtranclp_into_rtranclp, rule demo_steps)+

lemma demo_ended:
  "(crun ^^ 11) (demo_conv ChildBoot Started [] [] None)
     (demo_conv (ChildExited (Exited 7)) (ParentEnded (wait_result (Exited 7))) [] [] (Some (Exited 7)))"
  unfolding numeral_nat relpowp.simps
  by (rule relcomppI relpowp_0_I demo_steps refl)+

theorem command_runs_behind_the_stack_witness:
  "crun\<^sup>*\<^sup>* (conv_start False 1 [''ls'']) (demo_conv AppRunning SentACK [] [] None) \<and>
    v_child (demo_conv AppRunning SentACK [] [] None) = AppRunning \<and> v_parent (demo_conv AppRunning SentACK [] [] None) = SentACK"
  using demo_running command_runs_behind_the_stack [of False "[''ls'']", unfolded demo_conv_start, OF demo_running] demo_conv_start
  by (simp add: demo_conv_def)

theorem control_socket_no_deadlock_witness:
  "(crun ^^ 11) (conv_start False 1 [''ls''])
     (demo_conv (ChildExited (Exited 7)) (ParentEnded (wait_result (Exited 7))) [] [] (Some (Exited 7))) \<and> (11 :: nat) \<le> 11"
  using demo_ended control_socket_no_deadlock [of 11 False "[''ls'']", unfolded demo_conv_start, OF demo_ended] demo_conv_start by simp

theorem exit_status_is_the_commands_witness:
  "main_status [''wirez'', ''ls''] (\<lambda>args. fst (runContainer demo_kernel args [])) (\<lambda>_. wait_result (Exited 7)) = 7"
  using exit_status_is_the_commands [of False "[''ls'']", unfolded demo_conv_start, OF relpowp_imp_rtranclp [OF demo_ended],
      of "wait_result (Exited 7)" "[''wirez'', ''ls'']" demo_kernel]
  by (simp add: demo_conv_def exitCode_def)

end
