(* ===== verification/Forwarders.thy ===== *)
theory Forwarders
  imports NetStack Calls
begin

text \<open>
  The callbacks \<^verbatim>\<open>src/network_stack.go\<close> registers with gVisor: what happens between a packet from the container and the handlers of \<open>NetStack\<close>. A
  callback runs in gVisor's own goroutine, so what it does before it returns is kept apart from the goroutine it starts.
\<close>

section \<open>TCP and UDP\<close>

text \<open>
  The goroutine of a connection: an exception of the handler is logged and ends there, a run-time panic is not caught.
\<close>

definition caught :: "('s, 'a) act \<Rightarrow> ('s, unit) act" where
  "caught m = act_bind (act_try m) (\<lambda>_. act_ret ())"

definition setTCPHandler ::
    "('s, 'c, 'e) stack_opts \<Rightarrow> (bytes \<Rightarrow> string) \<Rightarrow> nat \<Rightarrow> ('s, 'e) forwarder_request \<Rightarrow> endpoint_id \<Rightarrow> ('s, unit) act" where
  "setTCPHandler opts addr_string now r tid = caught (handleTCP opts addr_string now r tid)"

text \<open>
  A UDP request is an endpoint and its options. The callback makes the endpoint itself, and returns that the packet is handled and the goroutine it
  started, if any.
\<close>

definition udpEndpointReceiveBuffer :: nat where
  "udpEndpointReceiveBuffer = 4 * 2 ^ 20"

record ('s, 'e) udp_request =
  ur_CreateEndpoint :: "'s \<Rightarrow> (string + 'e) \<times> 's"
  ur_SetReceiveBufferSize :: "'e \<Rightarrow> nat \<Rightarrow> 's \<Rightarrow> 's"
  ur_Close :: "'e \<Rightarrow> 's \<Rightarrow> 's"

definition setUDPHandler ::
    "('s, 'c, 'e) stack_opts \<Rightarrow> (bytes \<Rightarrow> string) \<Rightarrow> nat \<Rightarrow> ('s, 'e) udp_request \<Rightarrow> endpoint_id \<Rightarrow> 's \<Rightarrow>
      (bool \<times> ('s, unit) act option) \<times> 's" where
  "setUDPHandler opts addr_string now r tid s =
     (case ur_CreateEndpoint r s of
        (Inl _, s1) \<Rightarrow> ((True, None), s1)
      | (Inr ep, s1) \<Rightarrow>
          ((True, Some (caught (handleUDP opts addr_string now (ur_Close r) ep tid))),
           ur_SetReceiveBufferSize r ep udpEndpointReceiveBuffer s1))"

section \<open>ICMP echo\<close>

text \<open>
  The echo handler. \<open>checksum\<close> is \<^verbatim>\<open>header.ICMPv4Checksum\<close> of a header over the payload's own checksum; a call of the stack fails with the text of its error.
  A packet is written with the protocol of its header; its TTL is the default of the route, which is gVisor's.
\<close>

datatype echo_op = FindRoute nat bytes bytes nat bool | WritePacket nat bytes bytes | ReplyDecRef | RouteRelease

definition IPv4ProtocolNumber :: nat where "IPv4ProtocolNumber = 0x0800"

definition tcpip_sys :: "('op list \<Rightarrow> 'op \<Rightarrow> string option) \<Rightarrow> 'op list \<Rightarrow> 'op \<Rightarrow> err option" where
  "tcpip_sys gv h op = (case throwTCPIP (gv h op) of Exc e \<Rightarrow> Some e | _ \<Rightarrow> None)"

definition echo_header :: "(bytes \<Rightarrow> bytes \<Rightarrow> u16) \<Rightarrow> bytes \<Rightarrow> bytes \<Rightarrow> bytes" where
  "echo_header checksum request payload =
     (let h = take 8 request; h = h[0 := 0]; h = h[2 := 0, 3 := 0]; c = be16 (checksum h payload)
      in h[2 := c ! 0, 3 := c ! 1])"

definition replyEcho ::
    "(echo_op list \<Rightarrow> echo_op \<Rightarrow> string option) \<Rightarrow> (bytes \<Rightarrow> bytes \<Rightarrow> u16) \<Rightarrow> endpoint_id \<Rightarrow> bytes \<Rightarrow> bytes \<Rightarrow> (echo_op list, unit) act" where
  "replyEcho gv checksum tid request payload =
     act_bind (call (tcpip_sys gv) (FindRoute defaultNICID (LocalAddress tid) (RemoteAddress tid) IPv4ProtocolNumber False)) (\<lambda>_.
     deferred RouteRelease (deferred ReplyDecRef (
       call (tcpip_sys gv) (WritePacket ICMPv4ProtocolNumber (echo_header checksum request payload) payload))))"

definition setICMPHandler ::
    "(echo_op list \<Rightarrow> echo_op \<Rightarrow> string option) \<Rightarrow> (bytes \<Rightarrow> bytes \<Rightarrow> u16) \<Rightarrow> endpoint_id \<Rightarrow> bytes \<Rightarrow> bytes \<Rightarrow> (echo_op list, bool) act" where
  "setICMPHandler gv checksum tid request payload =
     (if length request < 8 \<or> request ! 0 \<noteq> 8 then act_ret False
      else act_bind (caught (replyEcho gv checksum tid request payload)) (\<lambda>_. act_ret True))"

section \<open>Rules\<close>

lemma caught_run: "caught m s = (case m s of (Pan q, s') \<Rightarrow> (Pan q, s') | (_, s') \<Rightarrow> (Ret (), s'))"
  by (auto simp: caught_def act_bind_def act_try_def split: prod.splits res.splits)

lemma caught_keeps: "act_keeps P m \<Longrightarrow> act_keeps P (caught m)"
  unfolding caught_def by (intro keeps)

lemma tcpip_sys_eq: "tcpip_sys gv h op = map_option (\<lambda>t. Fmt ''%s'' [t]) (gv h op)"
  by (simp add: tcpip_sys_def throwTCPIP_def ThrowFmt_def split: option.split)

lemma replyEcho_run:
  "replyEcho gv checksum tid request payload [] =
    (let f = FindRoute defaultNICID (LocalAddress tid) (RemoteAddress tid) IPv4ProtocolNumber False; p = WritePacket ICMPv4ProtocolNumber (echo_header checksum request payload) payload in
     case gv [] f of
       Some t \<Rightarrow> (Exc (Fmt ''%s'' [t]), [])
     | None \<Rightarrow> (case gv [f] p of
         Some t \<Rightarrow> (Exc (Fmt ''%s'' [t]), [f, ReplyDecRef, RouteRelease])
       | None \<Rightarrow> (Ret (), [f, p, ReplyDecRef, RouteRelease])))"
  by (auto simp: replyEcho_def call_def tcpip_sys_eq deferred_runs Let_def act_bind_def split: option.splits)

lemma echo_header_mirrors:
  assumes "8 \<le> length request" and "hdr = echo_header checksum request payload"
  shows "length hdr = 8" "hdr ! 0 = 0" "hdr ! 1 = request ! 1" "drop 4 hdr = drop 4 (take 8 request)"
    "take 2 (drop 2 hdr) = be16 (checksum (hdr[2 := 0, 3 := 0]) payload)"
proof -
  obtain a b c d i j k l rest where "request = a # b # c # d # i # j # k # l # rest"
    using assms(1) by (auto simp: numeral_eq_Suc Suc_le_length_iff)
  with assms(2) show "length hdr = 8" "hdr ! 0 = 0" "hdr ! 1 = request ! 1" "drop 4 hdr = drop 4 (take 8 request)"
    "take 2 (drop 2 hdr) = be16 (checksum (hdr[2 := 0, 3 := 0]) payload)"
    by (simp_all add: echo_header_def Let_def be16_def numeral_eq_Suc)
qed

section \<open>A UDP flow on the host\<close>

definition recorded_udp :: "string + unit \<Rightarrow> (world \<times> gv_event list, unit) udp_request" where
  "recorded_udp er =
     \<lparr>ur_CreateEndpoint = (\<lambda>(w, t). (er, (w, t @ [Created]))), ur_SetReceiveBufferSize = (\<lambda>_ n (w, t). (w, t @ [Buffered n])),
      ur_Close = (\<lambda>_ (w, t). (w, t @ [LocalClosed]))\<rparr>"

lemma handleUDP_recorded:
  assumes "udp \<lparr>ctx_deadline = Some (now + ct), ctx_udp_source = Some (sourceAddress addr_string tid)\<rparr> ''udp'' (endpointAddress addr_string tid) w = (y, w1)"
  shows "handleUDP (host_opts tcp udp tr ct ti ui) addr_string now (ur_Close (recorded_udp er)) () tid (w, t) =
    (case y of
       Ret (Inl e) \<Rightarrow> (Ret (), (w1, t @ [LocalClosed]))
     | Ret (Inr k) \<Rightarrow> (case tr k w1 of (e, w2) \<Rightarrow> (Throw e, (w_close k w2, t @ [Relayed, LocalClosed])))
     | Exc e \<Rightarrow> (Exc e, (w1, t @ [LocalClosed]))
     | Pan q \<Rightarrow> (Pan q, (w1, t @ [LocalClosed])))"
  using assms
  by (auto simp: handleUDP_def host_opts_def recorded_udp_def on_world_def withUDPSource_def act_bind_def act_finally_def act_throw_def Let_def
      split: prod.split res.split sum.split)

lemma setUDPHandler_recorded:
  "setUDPHandler opts addr_string now (recorded_udp (Inr ())) tid (w, []) =
    ((True, Some (caught (handleUDP opts addr_string now (ur_Close (recorded_udp (Inr ()))) () tid))), (w, [Created, Buffered (4 * 2 ^ 20)]))"
  by (simp add: setUDPHandler_def recorded_udp_def udpEndpointReceiveBuffer_def)

lemma udp_dialer_contract:
  assumes "buildProxyChain env proxies = Ret (tcp, u)" and "udp_dialer env u = Some dial"
  shows "connector_contract dial Pair" "\<exists>p \<in> set proxies. pa_Scheme p = ''http'' \<Longrightarrow> \<exists>reason. dial = unsupportedConnector reason"
proof -
  show "connector_contract dial Pair"
    using assms(2) direct.connector_contract_axioms unsupported.connector_contract_axioms by (cases u) auto
  show "\<exists>reason. dial = unsupportedConnector reason" if "\<exists>p \<in> set proxies. pa_Scheme p = ''http''"
    using assms that by (auto simp: buildProxyChain_eq)
qed

section \<open>Properties\<close>

text \<open>
  C33: Ping, on every path. The handler takes exactly the whole ICMPv4 echo requests and leaves every other packet to the stack, and never fails. It sends
  at most one packet, to the sender and from the address that was asked: an echo reply with the request's code, identifier and sequence
  number, the same payload, the ICMPv4 protocol, and a checksum over exactly that header; if the stack has a route and takes the packet, it is sent. The route and the packet
  buffer are given back whether or not it was.
\<close>

theorem ping_answered:
  assumes "setICMPHandler gv checksum tid request payload [] = (x, h)"
  shows "x = Ret (8 \<le> length request \<and> request ! 0 = 8) \<and>
    (x = Ret False \<longrightarrow> h = []) \<and>
    (\<forall>proto hdr data. WritePacket proto hdr data \<in> set h \<longrightarrow> proto = ICMPv4ProtocolNumber \<and> data = payload \<and> length hdr = 8 \<and> hdr ! 0 = 0 \<and> hdr ! 1 = request ! 1 \<and>
       drop 4 hdr = drop 4 (take 8 request) \<and> take 2 (drop 2 hdr) = be16 (checksum (hdr[2 := 0, 3 := 0]) payload)) \<and>
    (\<forall>nic src dst proto loop. FindRoute nic src dst proto loop \<in> set h \<longrightarrow> nic = defaultNICID \<and> src = LocalAddress tid \<and> dst = RemoteAddress tid \<and>
       proto = IPv4ProtocolNumber \<and> \<not> loop \<and>
       [op \<leftarrow> h. op \<in> {ReplyDecRef, RouteRelease}] = [ReplyDecRef, RouteRelease]) \<and>
    (x = Ret True \<and> (\<forall>h op. gv h op = None) \<longrightarrow>
       (\<exists>hdr. h = [FindRoute defaultNICID (LocalAddress tid) (RemoteAddress tid) IPv4ProtocolNumber False, WritePacket ICMPv4ProtocolNumber hdr payload, ReplyDecRef, RouteRelease]))"
proof (cases "8 \<le> length request \<and> request ! 0 = 8")
  case True
  then have "setICMPHandler gv checksum tid request payload [] = (Ret True, snd (replyEcho gv checksum tid request payload []))"
    by (auto simp: setICMPHandler_def caught_run replyEcho_run Let_def act_bind_def split: option.splits)
  with assms True echo_header_mirrors [OF _ refl, of request checksum payload] show ?thesis
    by (auto simp: replyEcho_run Let_def split: option.splits)
next
  case False
  with assms show ?thesis by (auto simp: setICMPHandler_def not_le [symmetric])
qed

text \<open>
  C5: UDP stays inside when the chain cannot carry it, end to end. Of a chain with an HTTP hop, a flow to a destination that would be proxied opens no socket on
  the host and relays nothing, as does one to the TUN subnet; a flow to a \<^verbatim>\<open>-L\<close> target or a bypassed destination opens at most the one socket to it. However the
  dial and the relay behave: the endpoint and its buffer are there before the callback returns, the goroutine ends without an exception or a panic, the container's endpoint is
  closed last, and no connection is left open.
\<close>

theorem http_chain_contains_udp:
  assumes "e = \<lparr>ep_ip = LocalAddress tid, ep_port = LocalPort tid\<rparr>" and "endpoint_ok e"
    and "addr_string (LocalAddress tid) = ip_string (LocalAddress tid)"
    and "pred_option nat64_prefix nat64" and "buildProxyChain env proxies = Ret (tcp, u)" and "udp_dialer env u = Some dial" and "world_ok w"
    and "\<exists>p \<in> set proxies. pa_Scheme p = ''http''"
    and "\<And>k v. act_keeps (touched k v) (act_throw (tr k))"
    and "setUDPHandler (host_opts tcp (localForwarding_DialContext
           (NewLocalForwardingConnector (NewDirectConnector env) dial nt bypass tun nat64)) tr ct ti ui)
         addr_string now (recorded_udp (Inr ())) tid (w, []) = ((handled, Some goroutine), s)"
    and "goroutine s = (x, (w', t))"
  shows "handled \<and> x = Ret () \<and> world_ok w' \<and> old_kept w w' \<and> new_open w w' = {} \<and>
    (\<exists>relayed. snd s = [Created, Buffered (4 * 2 ^ 20)] \<and> t = snd s @ (if relayed then [Relayed, LocalClosed] else [LocalClosed]) \<and>
      (case route_of nt bypass tun nat64 ''udp'' e of
         Mapped a \<Rightarrow> asks_for w (''udp'', a) w'
       | Direct d \<Rightarrow> asks_for w (''udp'', render d) w'
       | _ \<Rightarrow> dials w' = dials w \<and> \<not> relayed))"
proof -
  let ?c = "NewLocalForwardingConnector (NewDirectConnector env) dial nt bypass tun nat64"
  let ?cx = "\<lparr>ctx_deadline = Some (now + ct), ctx_udp_source = Some (sourceAddress addr_string tid)\<rparr>"
  note D = udp_dialer_contract [OF assms(5,6)]
  have addr: "endpointAddress addr_string tid = render e" using assms(1,3) by (simp add: endpointAddress_def render_def)
  have s: "handled" "s = (w, [Created, Buffered (4 * 2 ^ 20)])"
    "goroutine = caught (handleUDP (host_opts tcp (localForwarding_DialContext ?c) tr ct ti ui) addr_string now (ur_Close (recorded_udp (Inr ()))) () tid)"
    using assms(10) by (simp_all add: setUDPHandler_recorded)
  obtain y w1 where d: "localForwarding_DialContext ?c ?cx ''udp'' (render e) w = (y, w1)"
    by (cases "localForwarding_DialContext ?c ?cx ''udp'' (render e) w")
  note H = handleUDP_recorded [where udp = "localForwarding_DialContext ?c", OF d [folded addr], of tcp tr ti ui "Inr ()" "[Created, Buffered (4 * 2 ^ 20)]"]
  note run = assms(11) [unfolded s, unfolded caught_run H]
  note out = router_out_any [OF D(1) assms(2,4,7) d]
  obtain reason where "dial = unsupportedConnector reason" using D(2) [OF assms(8)] by blast
  then have none: "dials w1 = dials w \<and> (\<exists>er. y = Ret (Inl er))" if "route_of nt bypass tun nat64 ''udp'' e = Proxied p" for p
    using d that by (auto simp: router_dial [OF assms(2,4)] unsupportedConnector_def)
  from router_held_any [OF D(1) assms(2,4) held_start [OF assms(7)] d] show ?thesis
  proof (elim disjE exE conjE)
    fix er assume y: "y = Ret (Inl er)" "held w {} w1"
    with run have "x = Ret ()" "w' = w1" "t = [Created, Buffered (4 * 2 ^ 20), LocalClosed]" by auto
    with y out none s show ?thesis by (auto simp: held_def asks_for_def split: route.splits)
  next
    fix k assume k: "y = Ret (Inr k)" "held w {k} w1"
    have open_k: "conn_open k w1" using held_mem [OF k(2)] by simp
    obtain re w2 where tr: "tr k w1 = (re, w2)" by (cases "tr k w1")
    have "touched k w1 w2" using act_keepsD [OF assms(9) touched_refl [OF open_k], of "Throw re" w2] tr by (simp add: act_throw_def)
    then have h2: "held w {} (w_close k w2)" "dials w2 = dials w1"
      using held_close [OF held_touched [OF k(2)], of k] by (auto simp: touched_def)
    from run k tr have "x = Ret ()" "w' = w_close k w2" "t = [Created, Buffered (4 * 2 ^ 20), Relayed, LocalClosed]"
      by (cases re; auto)+
    with h2 out none k s show ?thesis by (auto simp: held_def asks_for_def intro!: exI [of _ True] split: route.splits)
  qed
qed

text \<open>
  A UDP request is handled before the next datagram of its flow can be: the callback always takes the packet, has made the endpoint and its receive buffer
  when it returns, and starts no goroutine without one; the goroutine, whenever it runs, ends without an exception and closes the endpoint last.
\<close>

lemma udp_request_handled:
  assumes "setUDPHandler opts addr_string now r tid s = ((handled, go), s')"
  shows "handled \<and> (case ur_CreateEndpoint r s of
      (Inl _, s1) \<Rightarrow> go = None \<and> s' = s1
    | (Inr ep, s1) \<Rightarrow> s' = ur_SetReceiveBufferSize r ep (4 * 2 ^ 20) s1 \<and>
        (\<exists>g. go = Some g \<and> (\<forall>t x t'. g t = (x, t') \<longrightarrow> (\<exists>u. t' = ur_Close r ep u) \<and> (\<forall>e. x \<noteq> Exc e))))"
  using assms
  by (auto simp: setUDPHandler_def udpEndpointReceiveBuffer_def caught_run handleUDP_def act_finally_def split: prod.splits sum.splits res.splits)

text \<open>Witness: the request of \<^verbatim>\<open>ping -c1 1.1.1.1\<close>, and a stack that cannot send.\<close>

definition demo_ping :: endpoint_id where
  "demo_ping = \<lparr>LocalAddress = [1, 1, 1, 1], LocalPort = 0, RemoteAddress = [10, 1, 1, 2], RemotePort = 0\<rparr>"

theorem ping_answered_witness:
  "\<exists>h. setICMPHandler (\<lambda>_ op. case op of WritePacket _ _ _ \<Rightarrow> Some ''no route'' | _ \<Rightarrow> None) (\<lambda>_ _. 0xbeef) demo_ping [8, 0, 1, 2, 3, 4, 0, 1] [7] [] = (Ret True, h) \<and>
    [op \<leftarrow> h. op \<in> {ReplyDecRef, RouteRelease}] = [ReplyDecRef, RouteRelease]"
proof -
  let ?run = "setICMPHandler (\<lambda>_ op. case op of WritePacket _ _ _ \<Rightarrow> Some ''no route'' | _ \<Rightarrow> None) (\<lambda>_ _. 0xbeef) demo_ping [8, 0, 1, 2, 3, 4, 0, 1] [7] []"
  obtain x h where r: "?run = (x, h)" by (cases ?run)
  have "FindRoute 1 [1, 1, 1, 1] [10, 1, 1, 2] 0x0800 False \<in> set (snd ?run)" by code_simp
  with ping_answered [OF r] r show ?thesis by auto
qed

definition demo_query_flow :: endpoint_id where
  "demo_query_flow = \<lparr>LocalAddress = [198, 51, 100, 7], LocalPort = 53, RemoteAddress = [10, 1, 1, 2], RemotePort = 40000\<rparr>"

theorem http_chain_contains_udp_witness:
  "\<exists>tcp u dial handled goroutine s x w' t. buildProxyChain demo_net [demo_proxy\<lparr>pa_Scheme := ''http''\<rparr>] = Ret (tcp, u) \<and> udp_dialer demo_net u = Some dial \<and>
    setUDPHandler (host_opts tcp (localForwarding_DialContext
        (NewLocalForwardingConnector (NewDirectConnector demo_net) dial NewAddressMapper [] [] None)) (\<lambda>_ w. (None, w)) 10 0 15)
      ip_string 0 (recorded_udp (Inr ())) demo_query_flow (demo_world, []) = ((handled, Some goroutine), s) \<and>
    goroutine s = (x, (w', t)) \<and> dials w' = dials demo_world \<and> t = [Created, Buffered 4194304, LocalClosed]"
proof -
  let ?e = "\<lparr>ep_ip = LocalAddress demo_query_flow, ep_port = LocalPort demo_query_flow\<rparr>" and ?ps = "[demo_proxy\<lparr>pa_Scheme := ''http''\<rparr>]"
  have e: "endpoint_ok ?e" by (simp add: endpoint_ok_def demo_query_flow_def)
  obtain tcp u dial where c: "buildProxyChain demo_net ?ps = Ret (tcp, u)" and u: "udp_dialer demo_net u = Some dial"
    by (simp add: buildProxyChain_eq)
  let ?opts = "host_opts tcp (localForwarding_DialContext
        (NewLocalForwardingConnector (NewDirectConnector demo_net) dial NewAddressMapper [] [] None)) (\<lambda>_ w. (None, w)) 10 0 15"
  obtain handled goroutine s where h: "setUDPHandler ?opts ip_string 0 (recorded_udp (Inr ())) demo_query_flow (demo_world, []) = ((handled, Some goroutine), s)"
    by (simp add: setUDPHandler_recorded)
  obtain x w' t where g: "goroutine s = (x, (w', t))" by (cases "goroutine s") auto
  have k: "act_keeps (touched k v) (act_throw (\<lambda>w. (None, w)))" for k v by (simp add: act_keeps_def act_throw_def)
  have r: "route_of NewAddressMapper [] [] None ''udp'' ?e = Proxied ?e" by code_simp
  have p: "\<exists>p \<in> set ?ps. pa_Scheme p = ''http''" by simp
  from http_chain_contains_udp [where tr = "\<lambda>_ w. (None, w)", OF refl e refl _ c u demo_world_ok p k h g] r
  have "dials w' = dials demo_world" "t = [Created, Buffered 4194304, LocalClosed]" by auto
  with c u h g show ?thesis by blast
qed

end
