(* ===== verification/Parent.thy ===== *)
theory Parent
  imports Run Forwarders
begin

text \<open>
  \<^verbatim>\<open>runRun\<close> of \<^verbatim>\<open>src/run.go\<close> with \<^verbatim>\<open>NewNetworkStack\<close> of \<^verbatim>\<open>src/network_stack.go\<close> and \<^verbatim>\<open>startDNSResolver\<close> of \<^verbatim>\<open>src/resolver.go\<close>, as a sequence of calls into the
  operating system and gVisor, in the style of \<open>Calls\<close>: what the parent does between its command line and the end of the container, in which order, and what
  it gives back, whichever call fails.
\<close>

section \<open>Calls of the parent\<close>

text \<open>A route table is a list of entries over the subnets \<open>'n\<close> of \<^verbatim>\<open>tcpip\<close>. The two goroutines of the resolver are calls that start them.\<close>

datatype 'n parentop =
    Socketpair
  | StartChild "string list" sys_attr
  | CloseChildFile
  | CloseParentConn
  | Recvmsg nat
  | DecodeMTU
  | CloseTun int
  | NewEndpoint int "32 word"
  | NewStack
  | SetHandler nat
  | CreateNIC nat
  | SetPromiscuousMode nat bool
  | SetSpoofing nat bool
  | SetRouteTable "'n route_entry list"
  | CloseStack
  | FilePacketConn int
  | FileListener int
  | CloseFile int
  | ServeDNS
  | ServeDNSTCP
  | EncodeACK
  | WaitChild

text \<open>
  What the parent runs on. \<open>h_oob\<close> is the control data a \<^verbatim>\<open>Recvmsg\<close> with the given space returns, empty at the end of the stream; the decoders of
  \<^verbatim>\<open>golang.org/x/sys/unix\<close>, \<^verbatim>\<open>tcpip.NewSubnet\<close> and the stack's own route table are not code of the repository.
\<close>

record ('m, 'n) host =
  h_sys :: "'n parentop list \<Rightarrow> 'n parentop \<Rightarrow> err option"
  h_gv :: "'n parentop list \<Rightarrow> 'n parentop \<Rightarrow> string option"
  h_net :: netenv
  h_url :: "string \<Rightarrow> err + url"
  h_frac :: "nat \<Rightarrow> nat \<Rightarrow> nat \<Rightarrow> nat"
  h_euid :: int
  h_egid :: int
  h_uid_map :: "string option"
  h_CmsgSpace :: "nat \<Rightarrow> nat"
  h_oob :: "nat \<Rightarrow> bytes"
  h_ParseSocketControlMessage :: "bytes \<Rightarrow> err + 'm list"
  h_ParseUnixRights :: "'m \<Rightarrow> err + int list"
  h_mtu :: "32 word"
  h_NewSubnet :: "bytes \<Rightarrow> bytes \<Rightarrow> err + 'n"
  h_GetRouteTable :: "'n parentop list \<Rightarrow> 'n route_entry list"

section \<open>The control socket\<close>

definition newControlSocket :: "('m, 'n) host \<Rightarrow> ('n parentop list, unit) act" where
  "newControlSocket ho = call (h_sys ho) Socketpair"

definition ReceiveFds :: "('m, 'n) host \<Rightarrow> nat \<Rightarrow> ('n parentop list, int list) act" where
  "ReceiveFds ho want =
     (let b = h_CmsgSpace ho (4 * want) in
      act_bind (call (h_sys ho) (Recvmsg b)) (\<lambda>_.
      let oob = h_oob ho b in
      if oob = [] then act_lift (ThrowFmt ''wirez child exited before sending network file descriptors'' [])
      else
        act_bind (act_lift (Throw2 (h_ParseSocketControlMessage ho oob))) (\<lambda>cmsgs.
        act_bind (act_lift (index 0 cmsgs)) (\<lambda>m.
        act_bind (act_lift (Throw2 (h_ParseUnixRights ho m))) (\<lambda>fds.
        if length fds \<noteq> want
        then act_lift (ThrowFmt ''received %d network file descriptors, want %d'' [itoa (length fds), itoa want])
        else act_ret fds)))))"

definition ReceiveMTU :: "('m, 'n) host \<Rightarrow> ('n parentop list, 32 word) act" where
  "ReceiveMTU ho = act_bind (call (h_sys ho) DecodeMTU) (\<lambda>_. act_ret (h_mtu ho))"

definition SendACK :: "('m, 'n) host \<Rightarrow> ('n parentop list, unit) act" where
  "SendACK ho = call (h_sys ho) EncodeACK"

section \<open>The network stack\<close>

definition newTUNEndpoint :: "('m, 'n) host \<Rightarrow> int \<Rightarrow> 32 word \<Rightarrow> ('n parentop list, unit) act" where
  "newTUNEndpoint ho d mtu = call (h_sys ho) (NewEndpoint d mtu)"

definition addRoute :: "('m, 'n) host \<Rightarrow> nat \<Rightarrow> string \<Rightarrow> ('n parentop list, unit) act" where
  "addRoute ho nic network h =
     (case setupRouting (h_NewSubnet ho) nic network (h_GetRouteTable ho h) of
        (Ret _, rt) \<Rightarrow> (Ret (), h @ [SetRouteTable rt])
      | (Exc e, _) \<Rightarrow> (Exc e, h)
      | (Pan q, _) \<Rightarrow> (Pan q, h))"

fun addRoutes :: "('m, 'n) host \<Rightarrow> string list \<Rightarrow> ('n parentop list, unit) act" where
  "addRoutes ho [] = act_ret ()"
| "addRoutes ho (network # networks) = act_bind (addRoute ho defaultNICID network) (\<lambda>_. addRoutes ho networks)"

definition NewNetworkStack :: "('m, 'n) host \<Rightarrow> string list \<Rightarrow> ('n parentop list, unit) act" where
  "NewNetworkStack ho networks =
     act_bind (noted NewStack) (\<lambda>_.
     act_bind (noted (SetHandler TCPProtocolNumber)) (\<lambda>_.
     act_bind (noted (SetHandler UDPProtocolNumber)) (\<lambda>_.
     act_bind (noted (SetHandler ICMPv4ProtocolNumber)) (\<lambda>_.
     act_bind (calls (tcpip_sys (h_gv ho))
       [CreateNIC defaultNICID, SetPromiscuousMode defaultNICID True, SetSpoofing defaultNICID True]) (\<lambda>_.
     addRoutes ho networks)))))"

section \<open>The resolver\<close>

definition startDNSResolver :: "('m, 'n) host \<Rightarrow> int \<Rightarrow> int \<Rightarrow> ('n parentop list, unit) act" where
  "startDNSResolver ho udpFd tcpFd =
     act_bind (calls (h_sys ho) [FilePacketConn udpFd, CloseFile udpFd, FileListener tcpFd, CloseFile tcpFd]) (\<lambda>_.
     act_bind (noted ServeDNS) (\<lambda>_. noted ServeDNSTCP))"

section \<open>The parent\<close>

text \<open>From the stack on.\<close>

definition runRun_serve :: "('m, 'n) host \<Rightarrow> run_plan \<Rightarrow> int \<Rightarrow> int \<Rightarrow> ('n parentop list, unit) act" where
  "runRun_serve ho p dnsUDPFd dnsTCPFd =
     deferred CloseStack (
       act_bind (if rp_useDNS p then startDNSResolver ho dnsUDPFd dnsTCPFd else act_ret ()) (\<lambda>_.
       act_bind (SendACK ho) (\<lambda>_.
       call (h_sys ho) WaitChild)))"

text \<open>With the descriptors at hand. The connectors of the stack are \<open>run_tcp\<close> and its counterpart for UDP.\<close>

definition runRun_network :: "('m, 'n) host \<Rightarrow> run_plan \<Rightarrow> int \<Rightarrow> int \<Rightarrow> int \<Rightarrow> ('n parentop list, unit) act" where
  "runRun_network ho p tunFd dnsUDPFd dnsTCPFd =
     act_bind (ReceiveMTU ho) (\<lambda>tunMTU.
     act_bind (act_lift (buildProxyChain (h_net ho) (rp_proxies p))) (\<lambda>_.
     act_bind (newTUNEndpoint ho tunFd tunMTU) (\<lambda>_.
     act_bind (NewNetworkStack ho (rp_tunNetworks p)) (\<lambda>_.
     runRun_serve ho p dnsUDPFd dnsTCPFd))))"

definition runRun_child :: "('m, 'n) host \<Rightarrow> run_plan \<Rightarrow> ('n parentop list, unit) act" where
  "runRun_child ho p =
     act_bind (calls (h_sys ho) [StartChild (rp_args p) (rp_attr p), CloseChildFile]) (\<lambda>_.
     act_bind (ReceiveFds ho (rp_wantFds p)) (\<lambda>fds.
     act_bind (act_lift (index 0 fds)) (\<lambda>tunFd.
     deferred (CloseTun tunFd) (
       act_bind (if rp_useDNS p
         then act_bind (act_lift (index 1 fds)) (\<lambda>u. act_bind (act_lift (index 2 fds)) (\<lambda>t. act_ret (u, t)))
         else act_ret (- 1, - 1)) (\<lambda>(dnsUDPFd, dnsTCPFd).
       runRun_network ho p tunFd dnsUDPFd dnsTCPFd)))))"

definition runRun :: "('m, 'n) host \<Rightarrow> string list \<Rightarrow> ('n parentop list, unit) act" where
  "runRun ho args =
     act_bind (act_lift (run_parse (h_frac ho) (h_euid ho) (h_egid ho) args)) (\<lambda>(f, cmdArgs).
     act_bind (act_lift (runRun_plan (h_url ho) f cmdArgs (h_euid ho) (h_egid ho) (h_uid_map ho))) (\<lambda>p.
     act_bind (newControlSocket ho) (\<lambda>_.
     deferred CloseParentConn (deferred CloseChildFile (runRun_child ho p)))))"

section \<open>The order of the calls\<close>

text \<open>
  The child is started with its end of the socket; the parent listens to it only when no copy of that end is left but the child's, so that a dead child
  is an end of file; the link is attached only to a stack whose handlers are all in place; the acknowledgement goes out only when the stack takes the packets of every
  address and is routed, and the resolver, when there is one, is being served; the parent waits for the child only after it.
\<close>

definition parent_guard :: "bool \<Rightarrow> 'n parentop set \<Rightarrow> 'n parentop \<Rightarrow> bool" where
  "parent_guard dns S op = (case op of
      StartChild args attr \<Rightarrow> Socketpair \<in> S
    | Recvmsg n \<Rightarrow> CloseChildFile \<in> S \<and> (\<exists>args attr. StartChild args attr \<in> S)
    | DecodeMTU \<Rightarrow> \<exists>n. Recvmsg n \<in> S
    | NewEndpoint d mtu \<Rightarrow> DecodeMTU \<in> S
    | CreateNIC n \<Rightarrow> NewStack \<in> S \<and> (\<exists>d mtu. NewEndpoint d mtu \<in> S) \<and> SetHandler 6 \<in> S \<and> SetHandler 17 \<in> S \<and> SetHandler 1 \<in> S
    | SetPromiscuousMode n b \<Rightarrow> CreateNIC n \<in> S
    | SetSpoofing n b \<Rightarrow> CreateNIC n \<in> S
    | SetRouteTable rt \<Rightarrow> CreateNIC 1 \<in> S
    | ServeDNS \<Rightarrow> \<exists>d. FilePacketConn d \<in> S
    | ServeDNSTCP \<Rightarrow> \<exists>d. FileListener d \<in> S
    | EncodeACK \<Rightarrow> SetPromiscuousMode 1 True \<in> S \<and> SetSpoofing 1 True \<in> S \<and> (\<exists>rt. SetRouteTable rt \<in> S) \<and>
        (dns \<longrightarrow> ServeDNS \<in> S \<and> ServeDNSTCP \<in> S)
    | WaitChild \<Rightarrow> EncodeACK \<in> S
    | _ \<Rightarrow> True)"

definition parent_anytime :: "'n parentop \<Rightarrow> bool" where
  "parent_anytime op \<longleftrightarrow> (case op of
      Socketpair \<Rightarrow> True | CloseChildFile \<Rightarrow> True | CloseParentConn \<Rightarrow> True | CloseTun d \<Rightarrow> True | NewStack \<Rightarrow> True | SetHandler n \<Rightarrow> True
    | CloseStack \<Rightarrow> True | FilePacketConn d \<Rightarrow> True | FileListener d \<Rightarrow> True | CloseFile d \<Rightarrow> True | _ \<Rightarrow> False)"

interpretation parent: call_guard "parent_guard dns" parent_anytime for dns
  by unfold_locales (auto simp: parent_guard_def parent_anytime_def split: parentop.splits)

section \<open>The parent keeps the order\<close>

lemma parent_anytime_simps [simp]:
  "parent_anytime Socketpair" "parent_anytime CloseChildFile" "parent_anytime CloseParentConn" "parent_anytime (CloseTun d)" "parent_anytime NewStack"
  "parent_anytime (SetHandler n)" "parent_anytime CloseStack" "parent_anytime (FilePacketConn d)" "parent_anytime (FileListener d)" "parent_anytime (CloseFile d)"
  by (simp_all add: parent_anytime_def)

lemma plan_shape:
  assumes "runRun_plan url f cmdArgs euid egid uid_map = Ret p"
  shows "rp_useDNS p \<longleftrightarrow> dnsServers f \<noteq> []" "rp_tunNetworks p = tunNetworkAddr # (if ipv6 f then [tunNetworkAddrV6] else [])"
    "rp_attr p = run_sys_attr (isInitialUserNamespaceRoot euid uid_map) f euid egid"
proof -
  have len: "parseUpstreamDNSList ss = Ret ds \<Longrightarrow> length ds = length ss" for ss ds
    by (induction ss arbitrary: ds) (auto simp: res_simps)
  show "rp_useDNS p \<longleftrightarrow> dnsServers f \<noteq> []" "rp_tunNetworks p = tunNetworkAddr # (if ipv6 f then [tunNetworkAddrV6] else [])"
    "rp_attr p = run_sys_attr (isInitialUserNamespaceRoot euid uid_map) f euid egid"
    using assms by (auto simp: runRun_plan_def Let_def res_simps dest!: len)
qed

definition stack_up :: "'n parentop set \<Rightarrow> bool" where
  "stack_up S \<longleftrightarrow> SetPromiscuousMode 1 True \<in> S \<and> SetSpoofing 1 True \<in> S \<and> (\<exists>rt. SetRouteTable rt \<in> S)"

lemma grows_stack_up [simp]: "grows stack_up"
  by (auto simp: grows_def stack_up_def)

lemma follows_addRoute:
  assumes "\<And>S. F S \<Longrightarrow> CreateNIC 1 \<in> S"
  shows "follows (parent_guard dns) F (addRoute ho nic network) (\<lambda>S. \<exists>rt. SetRouteTable rt \<in> S)"
  using assms by (auto simp: follows_def addRoute_def parent_guard_def split: prod.splits res.splits)

lemma follows_addRoutes:
  "grows F \<Longrightarrow> (\<And>S. F S \<Longrightarrow> CreateNIC 1 \<in> S) \<Longrightarrow> follows (parent_guard dns) F (addRoutes ho networks) (\<lambda>_. True)"
proof (induction networks)
  case (Cons network networks)
  from Cons.prems have "follows (parent_guard dns) F (addRoute ho defaultNICID network) (\<lambda>_. True)"
    by (auto intro: follows_weaken [OF follows_addRoute])
  with Cons show ?case by (simp add: follows_idle)
qed (simp add: follows_lift)

lemma follows_routes:
  assumes "grows F" "\<And>S. F S \<Longrightarrow> CreateNIC 1 \<in> S"
  shows "follows (parent_guard dns) F (addRoutes ho (network # networks)) (\<lambda>S. \<exists>rt. SetRouteTable rt \<in> S)"
proof -
  let ?R = "\<lambda>S. F S \<and> (\<exists>rt. SetRouteTable rt \<in> S)"
  have g: "grows ?R" using assms(1) by (auto simp: grows_def; blast)
  have "follows (parent_guard dns) ?R (addRoutes ho networks) (\<lambda>S. ?R S \<and> True)"
    by (rule follows_keep [OF g follows_addRoutes [OF g]]) (use assms(2) in auto)
  then have "follows (parent_guard dns) ?R (addRoutes ho networks) (\<lambda>S. \<exists>rt. SetRouteTable rt \<in> S)" by (rule follows_weaken) auto
  then show ?thesis
    using assms by (auto intro!: follows_bind [OF assms(1) follows_addRoute])
qed

lemma follows_NewNetworkStack:
  "follows (parent_guard dns) (\<lambda>S. NewEndpoint d mtu \<in> S) (NewNetworkStack ho (network # networks)) stack_up"
proof -
  let ?e = "\<lambda>S. NewEndpoint d mtu \<in> S" and ?links = "[CreateNIC defaultNICID, SetPromiscuousMode defaultNICID True, SetSpoofing defaultNICID True]"
  let ?H = "\<lambda>S. (((?e S \<and> NewStack \<in> S) \<and> SetHandler TCPProtocolNumber \<in> S) \<and> SetHandler UDPProtocolNumber \<in> S) \<and> SetHandler ICMPv4ProtocolNumber \<in> S"
  let ?L = "\<lambda>S. ?H S \<and> set ?links \<subseteq> S"
  have g: "grows ?L" by (auto simp: grows_def)
  have links: "follows (parent_guard dns) ?H (calls (tcpip_sys (h_gv ho)) ?links) (\<lambda>S. set ?links \<subseteq> S)"
    by (rule follows_calls)
      (auto simp: parent_guard_def defaultNICID_def TCPProtocolNumber_def UDPProtocolNumber_def ICMPv4ProtocolNumber_def)
  have "follows (parent_guard dns) ?L (addRoutes ho (network # networks)) (\<lambda>S. ?L S \<and> (\<exists>rt. SetRouteTable rt \<in> S))"
    by (rule follows_keep [OF g follows_routes [OF g]]) (simp add: defaultNICID_def)
  then have "follows (parent_guard dns) ?L (addRoutes ho (network # networks)) stack_up"
    by (rule follows_weaken) (auto simp: stack_up_def defaultNICID_def)
  with links show ?thesis
    unfolding NewNetworkStack_def
    by (intro follows_bind [OF _ follows_note] follows_bind [where F = ?H]) (simp_all add: parent_guard_def)
qed

lemma follows_startDNSResolver:
  assumes "grows F"
  shows "follows (parent_guard dns) F (startDNSResolver ho u t) (\<lambda>S. ServeDNS \<in> S \<and> ServeDNSTCP \<in> S)"
proof -
  let ?ops = "[FilePacketConn u, CloseFile u, FileListener t, CloseFile t]"
  have 1: "follows (parent_guard dns) F (calls (h_sys ho) ?ops) (\<lambda>S. set ?ops \<subseteq> S)"
    using assms by (intro follows_calls) (auto simp: parent_guard_def)
  let ?G = "\<lambda>S. F S \<and> set ?ops \<subseteq> S"
  have g: "grows ?G" using assms by (auto simp: grows_def; blast)
  then have g': "grows (\<lambda>S. ?G S \<and> ServeDNS \<in> S)" by (rule grows_simps(4)) simp
  have "follows (parent_guard dns) (\<lambda>S. ?G S \<and> ServeDNS \<in> S) (noted ServeDNSTCP) (\<lambda>S. (?G S \<and> ServeDNS \<in> S) \<and> ServeDNSTCP \<in> S)"
    by (intro follows_keep [OF g'] follows_note) (auto simp: parent_guard_def)
  then have "follows (parent_guard dns) (\<lambda>S. ?G S \<and> ServeDNS \<in> S) (noted ServeDNSTCP) (\<lambda>S. ServeDNS \<in> S \<and> ServeDNSTCP \<in> S)"
    by (rule follows_weaken) auto
  then show ?thesis
    unfolding startDNSResolver_def
    by (intro follows_bind [OF assms 1] follows_bind [OF g follows_note]) (auto simp: parent_guard_def)
qed

lemma follows_serve:
  assumes "rp_useDNS p = dns"
  shows "follows (parent_guard dns) stack_up (runRun_serve ho p u t) (\<lambda>_. True)"
proof -
  let ?D = "\<lambda>S. dns \<longrightarrow> ServeDNS \<in> S \<and> ServeDNSTCP \<in> S"
  have "follows (parent_guard dns) stack_up (if rp_useDNS p then startDNSResolver ho u t else act_ret ()) ?D"
    using assms by (auto intro!: follows_idle follows_lift follows_weaken [OF follows_lift(2)] follows_startDNSResolver)
  moreover have "follows (parent_guard dns) (\<lambda>S. stack_up S \<and> ?D S) (SendACK ho) (\<lambda>S. EncodeACK \<in> S)"
    unfolding SendACK_def by (rule follows_call) (auto simp: parent_guard_def stack_up_def)
  moreover have "follows (parent_guard dns) (\<lambda>S. (stack_up S \<and> ?D S) \<and> EncodeACK \<in> S) (call (h_sys ho) WaitChild) (\<lambda>_. True)"
    by (rule follows_weaken [OF follows_call [where F = "\<lambda>S. EncodeACK \<in> S"]]) (auto simp: parent_guard_def)
  ultimately show ?thesis
    unfolding runRun_serve_def
    by (intro parent.follows_deferred follows_bind [where F = stack_up and G = ?D] follows_bind [where F = "\<lambda>S. stack_up S \<and> ?D S" and G = "\<lambda>S. EncodeACK \<in> S"])
      (auto simp: grows_def stack_up_def)
qed

lemma follows_runRun_network:
  assumes "rp_useDNS p = dns" "rp_tunNetworks p = network # networks"
  shows "follows (parent_guard dns) (\<lambda>S. \<exists>n. Recvmsg n \<in> S) (runRun_network ho p d u t) (\<lambda>_. True)"
proof -
  let ?F = "\<lambda>S. \<exists>n. Recvmsg n \<in> S"
  let ?M = "\<lambda>S. ?F S \<and> DecodeMTU \<in> S"
  have g: "grows ?M" by simp
  have "follows (parent_guard dns) ?F (call (h_sys ho) DecodeMTU) (\<lambda>S. DecodeMTU \<in> S)"
    by (rule follows_call) (simp add: parent_guard_def)
  then have mtu: "follows (parent_guard dns) ?F (ReceiveMTU ho) (\<lambda>S. DecodeMTU \<in> S)"
    unfolding ReceiveMTU_def by (rule follows_bind [rotated]) (rule follows_ret, simp_all)
  have "follows (parent_guard dns) (\<lambda>S. ?M S \<and> NewEndpoint d m \<in> S) (act_bind (NewNetworkStack ho (rp_tunNetworks p)) (\<lambda>_. runRun_serve ho p u t)) (\<lambda>_. True)" for m
    unfolding assms(2)
    by (rule follows_weaken [OF follows_bind [OF _ follows_NewNetworkStack [of dns d m] follows_weaken [OF follows_serve [OF assms(1)]]]]) auto
  then have "follows (parent_guard dns) ?M (act_bind (newTUNEndpoint ho d m) (\<lambda>_. act_bind (NewNetworkStack ho (rp_tunNetworks p)) (\<lambda>_. runRun_serve ho p u t)))
      (\<lambda>_. True)" for m
    unfolding newTUNEndpoint_def by (intro follows_bind [OF g follows_call]) (auto simp: parent_guard_def)
  then show ?thesis
    unfolding runRun_network_def
    by (intro follows_bind [OF _ mtu] follows_idle [OF g follows_lift(1)]) simp_all
qed

lemma follows_ReceiveFds:
  assumes "grows F" "\<And>S. F S \<Longrightarrow> CloseChildFile \<in> S \<and> (\<exists>args attr. StartChild args attr \<in> S)"
  shows "follows (parent_guard dns) F (ReceiveFds ho want) (\<lambda>S. \<exists>n. Recvmsg n \<in> S)"
  using assms(2)
  by (auto simp: follows_def ReceiveFds_def call_def act_bind_def Let_def parent_guard_def split: option.splits res.splits prod.splits if_splits)

lemma follows_runRun_child:
  assumes "rp_useDNS p = dns" "rp_tunNetworks p = network # networks"
  shows "follows (parent_guard dns) (\<lambda>S. Socketpair \<in> S) (runRun_child ho p) (\<lambda>_. True)"
proof -
  let ?ops = "[StartChild (rp_args p) (rp_attr p), CloseChildFile]"
  let ?F = "\<lambda>S. Socketpair \<in> S \<and> set ?ops \<subseteq> S"
  have g: "grows ?F" by (auto simp: grows_def)
  have 1: "follows (parent_guard dns) (\<lambda>S. Socketpair \<in> S) (calls (h_sys ho) ?ops) (\<lambda>S. set ?ops \<subseteq> S)"
    by (rule follows_calls) (auto simp: parent_guard_def)
  have 2: "follows (parent_guard dns) ?F (ReceiveFds ho (rp_wantFds p)) (\<lambda>S. \<exists>n. Recvmsg n \<in> S)"
    by (rule follows_ReceiveFds [OF g]) auto
  let ?G = "\<lambda>S. ?F S \<and> (\<exists>n. Recvmsg n \<in> S)"
  have g': "grows ?G" by (rule grows_simps(4) [OF g]) simp
  have net: "follows (parent_guard dns) ?G (runRun_network ho p d u t) (\<lambda>_. True)" for d u t
    by (rule follows_weaken [OF follows_runRun_network [OF assms]]) auto
  have tun: "follows (parent_guard dns) ?G (deferred (CloseTun d) (act_bind m (\<lambda>(u, t). runRun_network ho p d u t))) (\<lambda>_. True)"
    if "follows (parent_guard dns) ?G m (\<lambda>_. True)" for d m
    by (intro parent.follows_deferred follows_idle [OF g' that] parent_anytime_simps) (simp only: split_beta net)
  have ix: "follows (parent_guard dns) ?G (if rp_useDNS p
      then act_bind (act_lift (index 1 fds)) (\<lambda>u. act_bind (act_lift (index 2 fds)) (\<lambda>t. act_ret (u, t))) else act_ret (- 1, - 1)) (\<lambda>_. True)" for fds :: "int list"
    using g' by (auto intro!: follows_idle follows_lift)
  show ?thesis
    unfolding runRun_child_def
    by (intro follows_bind [OF _ 1] follows_bind [OF g 2] follows_idle [OF g' follows_lift(1)] tun [OF ix]) simp_all
qed

lemma parent_ordered:
  assumes "runRun ho args [] = (x, h)" "run_parse (h_frac ho) (h_euid ho) (h_egid ho) args = Ret (f, cmdArgs)"
    and p: "runRun_plan (h_url ho) f cmdArgs (h_euid ho) (h_egid ho) (h_uid_map ho) = Ret p"
  shows "ordered (parent_guard (dnsServers f \<noteq> [])) h"
proof -
  have "follows (parent_guard (dnsServers f \<noteq> [])) (\<lambda>_. True) (act_bind (newControlSocket ho) (\<lambda>_.
      deferred CloseParentConn (deferred CloseChildFile (runRun_child ho p)))) (\<lambda>_. True)"
    unfolding newControlSocket_def
    by (intro follows_bind [OF _ follows_call] parent.follows_deferred follows_weaken [OF follows_runRun_child [OF _ plan_shape(2) [OF p]]])
      (auto simp: parent_guard_def plan_shape(1) [OF p])
  then show ?thesis by (rule parent.run_ordered) (use assms in \<open>simp add: runRun_def act_bind_def\<close>)
qed

section \<open>What the parent gives back\<close>

lemma emits_startDNSResolver:
  assumes "joins Q" "\<And>d. Q [FilePacketConn d]" "\<And>d. Q [FileListener d]" "\<And>d. Q [CloseFile d]" "Q [ServeDNS]" "Q [ServeDNSTCP]"
  shows "emits Q (startDNSResolver ho u t)"
  unfolding startDNSResolver_def using assms by (intro emits_bind emits_calls emits_call(3)) auto

text \<open>
  Calls that neither route a subnet, nor close the stack, nor receive a message; the stack is complete once every TUN subnet is routed, which is the
  last thing \<^verbatim>\<open>NewNetworkStack\<close> does.
\<close>

definition routes_set :: "'n parentop list \<Rightarrow> nat" where
  "routes_set h = length (filter (\<lambda>op. case op of SetRouteTable rt \<Rightarrow> True | _ \<Rightarrow> False) h)"

definition quiet :: "'n parentop list \<Rightarrow> bool" where
  "quiet ops \<longleftrightarrow> routes_set ops = 0 \<and> CloseStack \<notin> set ops \<and> (\<forall>b. Recvmsg b \<notin> set ops)"

lemma routes_set_simps [simp]: "routes_set [] = 0" "routes_set (xs @ ys) = routes_set xs + routes_set ys"
    "routes_set (op # ops) = (case op of SetRouteTable rt \<Rightarrow> 1 | _ \<Rightarrow> 0) + routes_set ops"
  by (simp_all add: routes_set_def split: parentop.split)

lemma joins_quiet [simp]: "joins quiet"
  by (auto simp: joins_def quiet_def)

lemma quiet_op: "\<forall>rt. op \<noteq> SetRouteTable rt \<Longrightarrow> op \<noteq> CloseStack \<Longrightarrow> \<forall>b. op \<noteq> Recvmsg b \<Longrightarrow> quiet [op]"
  by (cases op) (simp_all add: quiet_def)

definition network_released :: "nat \<Rightarrow> 'n parentop list \<Rightarrow> bool" where
  "network_released n ops \<longleftrightarrow> (\<forall>b. Recvmsg b \<notin> set ops) \<and>
     (routes_set ops < n \<and> CloseStack \<notin> set ops \<or> routes_set ops = n \<and> (\<exists>o'. ops = o' @ [CloseStack] \<and> CloseStack \<notin> set o'))"

lemma emits_serve: "emits (\<lambda>ops. \<exists>o'. ops = o' @ [CloseStack] \<and> quiet o') (runRun_serve ho p u t)"
  unfolding runRun_serve_def
proof (rule emits_deferred)
  show "emits quiet (act_bind (if rp_useDNS p then startDNSResolver ho u t else act_ret ()) (\<lambda>_. act_bind (SendACK ho) (\<lambda>_. call (h_sys ho) WaitChild)))"
    unfolding SendACK_def by (auto intro!: emits_bind emits_silent emits_call(1) emits_startDNSResolver quiet_op)
qed simp

lemma addRoutes_shape:
  "addRoutes ho nets h = (x, h') \<Longrightarrow> \<exists>ops. h' = h @ ops \<and> CloseStack \<notin> set ops \<and> (\<forall>b. Recvmsg b \<notin> set ops) \<and>
     (case x of Ret _ \<Rightarrow> routes_set ops = length nets | _ \<Rightarrow> routes_set ops < length nets)"
proof (induction nets arbitrary: h)
  case (Cons n nets)
  obtain y h1 where one: "addRoute ho defaultNICID n h = (y, h1)" by (cases "addRoute ho defaultNICID n h")
  show ?case
  proof (cases y)
    case (Ret u)
    with one obtain rt where h1: "h1 = h @ [SetRouteTable rt]" by (auto simp: addRoute_def split: prod.splits res.splits)
    have "addRoutes ho nets h1 = (x, h')" using Cons.prems one Ret by (simp add: act_bind_def)
    from Cons.IH [OF this] h1 obtain ops where "h' = h @ SetRouteTable rt # ops" "CloseStack \<notin> set ops" "\<forall>b. Recvmsg b \<notin> set ops"
      "case x of Ret _ \<Rightarrow> routes_set ops = length nets | _ \<Rightarrow> routes_set ops < length nets" by auto
    then show ?thesis by (intro exI [of _ "SetRouteTable rt # ops"]) (auto split: res.splits)
  next
    case (Exc e)
    then have "h1 = h" using one by (auto simp: addRoute_def split: prod.splits res.splits)
    then have "x = Exc e" "h' = h" using Cons.prems one Exc by (simp_all add: act_bind_def)
    then show ?thesis by simp
  next
    case (Pan q)
    then have "h1 = h" using one by (auto simp: addRoute_def split: prod.splits res.splits)
    then have "x = Pan q" "h' = h" using Cons.prems one Pan by (simp_all add: act_bind_def)
    then show ?thesis by simp
  qed
qed auto

lemma NewNetworkStack_shape:
  assumes "NewNetworkStack ho nets h = (x, h')" "nets \<noteq> []"
  shows "\<exists>ops. h' = h @ ops \<and> CloseStack \<notin> set ops \<and> (\<forall>b. Recvmsg b \<notin> set ops) \<and>
     (case x of Ret _ \<Rightarrow> routes_set ops = length nets | _ \<Rightarrow> routes_set ops < length nets)"
proof -
  let ?links = "[CreateNIC defaultNICID, SetPromiscuousMode defaultNICID True, SetSpoofing defaultNICID True]"
  let ?h = "h @ [NewStack, SetHandler TCPProtocolNumber, SetHandler UDPProtocolNumber, SetHandler ICMPv4ProtocolNumber]"
  obtain y h1 where links: "calls (tcpip_sys (h_gv ho)) ?links ?h = (y, h1)" by (cases "calls (tcpip_sys (h_gv ho)) ?links ?h")
  have "emits quiet (calls (tcpip_sys (h_gv ho)) ?links)" by (rule emits_calls) (simp_all add: quiet_op)
  from emitsD [OF this links] obtain o1 where o1: "h1 = ?h @ o1" "quiet o1" by blast
  have run: "(x, h') = (case y of Ret _ \<Rightarrow> addRoutes ho nets h1 | Exc e \<Rightarrow> (Exc e, h1) | Pan q \<Rightarrow> (Pan q, h1))"
    using assms(1) links by (simp add: NewNetworkStack_def noted_def act_bind_def split: res.splits)
  show ?thesis
  proof (cases y)
    case (Ret u)
    with addRoutes_shape run obtain ops where "h' = h1 @ ops" "CloseStack \<notin> set ops" "\<forall>b. Recvmsg b \<notin> set ops"
      "case x of Ret _ \<Rightarrow> routes_set ops = length nets | _ \<Rightarrow> routes_set ops < length nets"
      by (metis res.case(1))
    with o1 show ?thesis by (auto simp: quiet_def split: res.splits)
  qed (use run o1 assms(2) in \<open>auto simp: quiet_def\<close>)
qed

lemma emits_network:
  assumes "rp_tunNetworks p \<noteq> []"
  shows "emits (network_released (length (rp_tunNetworks p))) (runRun_network ho p d u t)"
proof -
  let ?n = "length (rp_tunNetworks p)"
  have n: "0 < ?n" using assms by simp
  have stack: "emits (network_released ?n) (act_bind (NewNetworkStack ho (rp_tunNetworks p)) (\<lambda>_. runRun_serve ho p u t))"
  proof (rule emitsI)
    fix h x h' assume b: "act_bind (NewNetworkStack ho (rp_tunNetworks p)) (\<lambda>_. runRun_serve ho p u t) h = (x, h')"
    obtain y h1 where m: "NewNetworkStack ho (rp_tunNetworks p) h = (y, h1)" by (cases "NewNetworkStack ho (rp_tunNetworks p) h")
    from NewNetworkStack_shape [OF m assms] obtain o1 where o1: "h1 = h @ o1" "CloseStack \<notin> set o1" "\<forall>b. Recvmsg b \<notin> set o1"
      "case y of Ret _ \<Rightarrow> routes_set o1 = ?n | _ \<Rightarrow> routes_set o1 < ?n" by blast
    show "\<exists>ops. h' = h @ ops \<and> network_released ?n ops"
    proof (cases y)
      case (Ret a)
      with b m have "runRun_serve ho p u t h1 = (x, h')" by (simp add: act_bind_def)
      from emitsD [OF emits_serve this] obtain o2 where "h' = h1 @ o2 @ [CloseStack]" "quiet o2" by blast
      with o1 Ret show ?thesis by (intro exI [of _ "o1 @ o2 @ [CloseStack]"]) (auto simp: network_released_def quiet_def)
    qed (use b m o1 in \<open>auto simp: act_bind_def network_released_def\<close>)
  qed
  have weak: "quiet ops \<Longrightarrow> network_released ?n ops" for ops using n by (auto simp: quiet_def network_released_def)
  have add: "network_released ?n (ops @ ops')" if "quiet ops" "network_released ?n ops'" for ops ops'
    using that by (fastforce simp: quiet_def network_released_def)
  have "emits quiet (ReceiveMTU ho)" "emits quiet (newTUNEndpoint ho d mtu)" for mtu
    unfolding ReceiveMTU_def newTUNEndpoint_def by (auto intro!: emits_bind emits_silent emits_call(1) quiet_op)
  then show ?thesis
    unfolding runRun_network_def
    by (intro emits_then [where Q = quiet and R = "network_released ?n"] stack) (simp_all add: emits_silent weak add)
qed

text \<open>What \<^verbatim>\<open>ReceiveFds\<close> returns depends on the message alone.\<close>

lemma ReceiveFds_emits: "ReceiveFds ho want h = (x, h') \<Longrightarrow> h' = h \<and> (\<forall>fds. x \<noteq> Ret fds) \<or> h' = h @ [Recvmsg (h_CmsgSpace ho (4 * want))]"
  by (auto simp: ReceiveFds_def Let_def act_bind_def call_def split: option.splits if_splits res.splits prod.splits)

lemma ReceiveFds_Ret: "ReceiveFds ho want h = (Ret fds, h') \<Longrightarrow> length fds = want \<and> h' = h @ [Recvmsg (h_CmsgSpace ho (4 * want))]"
  by (auto simp: ThrowFmt_def ReceiveFds_def Let_def act_bind_def call_def split: option.splits if_splits res.splits prod.splits)

lemma ReceiveFds_same:
  assumes "ReceiveFds ho want h = (Ret fds, h')" "ReceiveFds ho want g = (x, g')" "g' \<noteq> g"
  shows "x = Ret fds"
  using assms by (auto simp: ReceiveFds_def Let_def act_bind_def call_def split: option.splits if_splits res.splits prod.splits)

text \<open>The descriptor of the TUN device is closed once \<^verbatim>\<open>ReceiveFds\<close> has returned it.\<close>

definition child_released :: "('m, 'n) host \<Rightarrow> run_plan \<Rightarrow> 'n parentop list \<Rightarrow> bool" where
  "child_released ho p ops \<longleftrightarrow>
     routes_set ops = 0 \<and> CloseStack \<notin> set ops \<and> (\<forall>h h' fds b. ReceiveFds ho (rp_wantFds p) h = (Ret fds, h') \<longrightarrow> Recvmsg b \<notin> set ops) \<or>
     (\<exists>pre o' h h' fds. ops = pre @ o' @ [CloseTun (hd fds)] \<and> routes_set pre = 0 \<and> CloseStack \<notin> set pre \<and>
        network_released (length (rp_tunNetworks p)) o' \<and> ReceiveFds ho (rp_wantFds p) h = (Ret fds, h'))"

lemma emits_child:
  assumes "rp_tunNetworks p \<noteq> []" "0 < rp_wantFds p"
  shows "emits (child_released ho p) (runRun_child ho p)"
proof (rule emitsI)
  fix h x h' assume run: "runRun_child ho p h = (x, h')"
  let ?n = "length (rp_tunNetworks p)"
  let ?start = "calls (h_sys ho) [StartChild (rp_args p) (rp_attr p), CloseChildFile]"
  obtain y h1 where start: "?start h = (y, h1)" by (cases "?start h")
  have "emits quiet ?start" by (rule emits_calls) (simp_all add: quiet_op)
  from emitsD [OF this start] obtain o1 where o1: "h1 = h @ o1" "quiet o1" by blast
  have early: "child_released ho p o1"
    using o1(2) assms(1) by (auto simp: child_released_def network_released_def quiet_def)
  show "\<exists>ops. h' = h @ ops \<and> child_released ho p ops"
  proof (cases y)
    case (Ret a)
    obtain z h2 where rec: "ReceiveFds ho (rp_wantFds p) h1 = (z, h2)" by (cases "ReceiveFds ho (rp_wantFds p) h1")
    show ?thesis
    proof (cases "\<exists>fds. z = Ret fds")
      case True
      then obtain fds where Ret: "z = Ret fds" by blast
      note f = ReceiveFds_Ret [OF rec [unfolded Ret]]
      let ?ix = "if rp_useDNS p then act_bind (act_lift (index 1 fds)) (\<lambda>u. act_bind (act_lift (index 2 fds)) (\<lambda>t. act_ret (u, t))) else act_ret (- 1, - 1)"
      let ?net = "act_bind ?ix (\<lambda>(u, t). runRun_network ho p (hd fds) u t)"
      have "index 0 fds = Ret (hd fds)" using f assms(2) by (cases fds) (auto simp: index_def)
      with run start \<open>y = Ret a\<close> rec Ret have d: "deferred (CloseTun (hd fds)) ?net h2 = (x, h')"
        by (simp add: runRun_child_def act_bind_def)
      have "emits quiet ?ix" by (simp add: emits_bind emits_silent)
      then have "emits (network_released ?n) ?net"
        by (rule emits_then) (use assms(1) emits_network in \<open>auto simp: quiet_def network_released_def split: prod.split\<close>)
      from emitsD [OF emits_deferred [where R = "\<lambda>ops. \<exists>o'. ops = o' @ [CloseTun (hd fds)] \<and> network_released ?n o'", OF this] d]
      obtain o2 where o2: "h' = h2 @ o2 @ [CloseTun (hd fds)]" "network_released ?n o2" by auto
      let ?pre = "o1 @ [Recvmsg (h_CmsgSpace ho (4 * rp_wantFds p))]"
      have "h' = h @ ?pre @ o2 @ [CloseTun (hd fds)]" using o1 o2 f by simp
      moreover have "child_released ho p (?pre @ o2 @ [CloseTun (hd fds)])"
        unfolding child_released_def
        using o1(2) o2(2) rec Ret
        by (intro disjI2 exI [of _ ?pre] exI [of _ o2] exI [of _ h1] exI [of _ h2] exI [of _ fds]) (auto simp: quiet_def)
      ultimately show ?thesis by blast
    next
      case False
      then have h': "h' = h2" using run start \<open>y = Ret a\<close> rec by (cases z) (auto simp: runRun_child_def act_bind_def)
      let ?b = "h_CmsgSpace ho (4 * rp_wantFds p)"
      show ?thesis
      proof (cases "h2 = h1")
        case True
        with h' o1(1) early show ?thesis by blast
      next
        case changed: False
        with ReceiveFds_emits [OF rec] h' o1(1) have "h' = h @ o1 @ [Recvmsg ?b]" by auto
        moreover have "child_released ho p (o1 @ [Recvmsg ?b])"
          using o1(2) ReceiveFds_same [OF _ rec changed] False by (auto simp: child_released_def quiet_def)
        ultimately show ?thesis by blast
      qed
    qed
  qed (use run start o1 early in \<open>auto simp: runRun_child_def act_bind_def\<close>)
qed

lemma runRun_shape:
  assumes "runRun ho args [] = (x, h)" "run_parse (h_frac ho) (h_euid ho) (h_egid ho) args = Ret (f, cmdArgs)"
    "runRun_plan (h_url ho) f cmdArgs (h_euid ho) (h_egid ho) (h_uid_map ho) = Ret p"
  shows "h = [] \<or> (\<exists>ops. h = Socketpair # ops @ [CloseChildFile, CloseParentConn] \<and> child_released ho p ops)"
proof -
  have p: "rp_tunNetworks p \<noteq> []" "0 < rp_wantFds p"
    using plan_shape(2) [OF assms(3)] runRun_plan_ok(8) [OF assms(3)] by simp_all
  have inner: "emits (\<lambda>ops. \<exists>o'. ops = o' @ [CloseChildFile] \<and> child_released ho p o') (deferred CloseChildFile (runRun_child ho p))"
    by (rule emits_deferred [OF emits_child [OF p]]) simp
  have "emits (\<lambda>ops. \<exists>o'. ops = o' @ [CloseChildFile, CloseParentConn] \<and> child_released ho p o')
      (deferred CloseParentConn (deferred CloseChildFile (runRun_child ho p)))"
    by (rule emits_deferred [OF inner]) auto
  with assms show ?thesis
    by (auto simp: runRun_def newControlSocket_def act_bind_def call_def split: option.splits dest!: emitsD)
qed

lemma parent_releases:
  assumes "h = [] \<or> (\<exists>ops. h = Socketpair # ops @ [CloseChildFile, CloseParentConn] \<and> child_released ho p ops)"
    and "rp_tunNetworks p \<noteq> []"
  shows "ReceiveFds ho (rp_wantFds p) h1 = (Ret fds, h2) \<Longrightarrow> h = h2 @ h3 \<Longrightarrow>
      \<exists>h0. h = h0 @ [CloseTun (hd fds), CloseChildFile, CloseParentConn]"
    and "length (rp_tunNetworks p) \<le> routes_set h \<Longrightarrow> \<exists>h0 d. h = h0 @ [CloseStack, CloseTun d, CloseChildFile, CloseParentConn]"
    and "CloseStack \<in> set h \<longleftrightarrow> routes_set h = length (rp_tunNetworks p)"
proof -
  let ?n = "length (rp_tunNetworks p)"
  have n: "0 < ?n" using assms(2) by simp
  {
    assume r: "ReceiveFds ho (rp_wantFds p) h1 = (Ret fds, h2)" and h: "h = h2 @ h3"
    from ReceiveFds_Ret [OF r] h have m: "Recvmsg (h_CmsgSpace ho (4 * rp_wantFds p)) \<in> set h" by simp
    with assms(1) obtain ops where ops: "h = Socketpair # ops @ [CloseChildFile, CloseParentConn]" "child_released ho p ops" by auto
    with m r obtain pre o' g g' fds' where o': "ops = pre @ o' @ [CloseTun (hd fds')]" "ReceiveFds ho (rp_wantFds p) g = (Ret fds', g')"
      unfolding child_released_def by auto
    moreover have "g' \<noteq> g" using ReceiveFds_Ret [OF o'(2)] by simp
    ultimately have "fds' = fds" using ReceiveFds_same [OF r] by blast
    with ops(1) o'(1) show "\<exists>h0. h = h0 @ [CloseTun (hd fds), CloseChildFile, CloseParentConn]" by auto
  }
  have cases: "CloseStack \<notin> set h \<and> routes_set h < ?n \<or>
      routes_set h = ?n \<and> (\<exists>h0 d. h = h0 @ [CloseStack, CloseTun d, CloseChildFile, CloseParentConn])"
    using assms(1)
  proof (elim disjE exE conjE)
    fix ops assume ops: "h = Socketpair # ops @ [CloseChildFile, CloseParentConn]" "child_released ho p ops"
    from ops(2) [unfolded child_released_def] show ?thesis
    proof (elim disjE exE conjE)
      fix pre o' g g' fds assume o': "ops = pre @ o' @ [CloseTun (hd fds)]" "routes_set pre = 0" "CloseStack \<notin> set pre"
        "network_released ?n o'"
      from o'(4) [unfolded network_released_def] show ?thesis
      proof (elim conjE disjE exE)
        fix o'' assume "routes_set o' = ?n" "o' = o'' @ [CloseStack]"
        with ops(1) o'(1,2) show ?thesis by auto
      qed (use ops(1) o' in auto)
    qed (use ops(1) n in auto)
  qed (use n in auto)
  then show "?n \<le> routes_set h \<Longrightarrow> \<exists>h0 d. h = h0 @ [CloseStack, CloseTun d, CloseChildFile, CloseParentConn]" by auto
  from cases show "CloseStack \<in> set h \<longleftrightarrow> routes_set h = ?n" by auto
qed

text \<open>What the parent makes of a message of the child is what the conversation of \<open>Run\<close> has it make of it.\<close>

lemma ReceiveFds_conversation:
  assumes "h_sys ho h (Recvmsg (h_CmsgSpace ho (4 * want))) = None" and "oob = h_oob ho (h_CmsgSpace ho (4 * want))"
    and "case sent of
        None \<Rightarrow> oob = []
      | Some fds \<Rightarrow> oob \<noteq> [] \<and> (\<exists>m ms. h_ParseSocketControlMessage ho oob = Inr (m # ms) \<and> h_ParseUnixRights ho m = Inr fds)"
  shows "go_on (fst (ReceiveFds ho want h)) GotFds = go_on (fds_received want (map_option length sent)) GotFds"
  using assms
  by (cases sent) (auto simp: ReceiveFds_def fds_received_def go_on_def Let_def act_bind_def call_def index_def ThrowFmt_def)

section \<open>When every call succeeds\<close>

text \<open>
  A host on which nothing fails: gVisor keeps the route table it was given last and accepts the two TUN subnets, and the message of the child carries the
  wanted descriptors.
\<close>

definition last_table :: "'n parentop list \<Rightarrow> 'n route_entry list" where
  "last_table h = fold (\<lambda>op t. case op of SetRouteTable rt \<Rightarrow> rt | _ \<Rightarrow> t) h []"

definition willing_host :: "('m, 'n) host \<Rightarrow> nat \<Rightarrow> bool" where
  "willing_host ho want \<longleftrightarrow> (\<forall>h op. h_sys ho h op = None) \<and> (\<forall>h op. h_gv ho h op = None) \<and> (\<forall>h. h_GetRouteTable ho h = last_table h) \<and>
     (\<forall>n \<in> {tun4, tun6}. \<exists>s. h_NewSubnet ho (net_IP n) (net_Mask n) = Inr s) \<and>
     h_oob ho (h_CmsgSpace ho (4 * want)) \<noteq> [] \<and>
     (\<exists>m ms fds. h_ParseSocketControlMessage ho (h_oob ho (h_CmsgSpace ho (4 * want))) = Inr (m # ms) \<and> h_ParseUnixRights ho m = Inr fds \<and> length fds = want)"

lemma willing_host_sys: "willing_host ho want \<Longrightarrow> h_sys ho h op = None" "willing_host ho want \<Longrightarrow> tcpip_sys (h_gv ho) h op = None"
  by (simp_all add: willing_host_def tcpip_sys_eq)

lemmas willing_h = willing_call [of "h_sys ho" for ho, OF willing_host_sys(1)] willing_calls [of "h_sys ho" for ho, OF willing_host_sys(1)]
  willing_calls [of "tcpip_sys (h_gv ho)" for ho, OF willing_host_sys(2)]

text \<open>The route the table has for a network.\<close>

definition route_for :: "('m, 'n) host \<Rightarrow> ipnet \<Rightarrow> 'n route_entry \<Rightarrow> bool" where
  "route_for ho n r \<longleftrightarrow> h_NewSubnet ho (net_IP n) (net_Mask n) = Inr (rt_subnet r) \<and> rt_nic r = defaultNICID"

lemma tun_cidrs: "\<exists>ip. ParseCIDR tunNetworkAddr = Inr (ip, tun4)" "\<exists>ip. ParseCIDR tunNetworkAddrV6 = Inr (ip, tun6)"
proof -
  have "case ParseCIDR tunNetworkAddr of Inl _ \<Rightarrow> False | Inr (_, n) \<Rightarrow> n = tun4" by code_simp
  then show "\<exists>ip. ParseCIDR tunNetworkAddr = Inr (ip, tun4)" by (auto split: sum.splits)
  have "case ParseCIDR tunNetworkAddrV6 of Inl _ \<Rightarrow> False | Inr (_, n) \<Rightarrow> n = tun6" by code_simp
  then show "\<exists>ip. ParseCIDR tunNetworkAddrV6 = Inr (ip, tun6)" by (auto split: sum.splits)
qed

lemma tun_addresses: "To4 (net_IP tun4) = net_IP tun4" "net_IP tun4 \<noteq> []" "To4 (net_IP tun6) = []" "To16 (net_IP tun6) = net_IP tun6"
  by code_simp+

lemma willing_addRoute:
  assumes "willing_host ho want" and "(a, n) \<in> {(tunNetworkAddr, tun4), (tunNetworkAddrV6, tun6)}"
  shows "\<exists>r. addRoute ho defaultNICID a h = (Ret (), h @ [SetRouteTable (last_table h @ [r])]) \<and> route_for ho n r"
proof -
  obtain s where s: "h_NewSubnet ho (net_IP n) (net_Mask n) = Inr s" using assms unfolding willing_host_def by blast
  obtain ip where ip: "ParseCIDR a = Inr (ip, n)" using assms(2) tun_cidrs by blast
  have "h_GetRouteTable ho h = last_table h" using assms(1) by (simp add: willing_host_def)
  with s ip assms(2) show ?thesis
    by (auto simp: addRoute_def setupRouting_def act_bind_def act_lift_def Let_def route_for_def tun_addresses)
qed

lemma last_table_snoc [simp]: "last_table (h @ [SetRouteTable rt]) = rt"
  by (simp add: last_table_def)

lemma last_table_append: "\<forall>rt. SetRouteTable rt \<notin> set ops \<Longrightarrow> last_table (h @ ops) = last_table h"
  by (induction ops rule: rev_induct) (auto simp: last_table_def split: parentop.splits)

lemma willing_routes:
  assumes "willing_host ho want"
  shows "\<exists>ops. addRoutes ho (tunNetworkAddr # (if six then [tunNetworkAddrV6] else [])) h = (Ret (), h @ ops) \<and>
    (\<exists>rs. last_table (h @ ops) = last_table h @ rs \<and> list_all2 (route_for ho) (tun4 # (if six then [tun6] else [])) rs)"
proof -
  obtain r4 where r4: "addRoute ho defaultNICID tunNetworkAddr h = (Ret (), h @ [SetRouteTable (last_table h @ [r4])])" "route_for ho tun4 r4"
    using willing_addRoute [OF assms, of tunNetworkAddr tun4] by auto
  let ?h = "h @ [SetRouteTable (last_table h @ [r4])]"
  obtain r6 where r6: "addRoute ho defaultNICID tunNetworkAddrV6 ?h = (Ret (), ?h @ [SetRouteTable (last_table ?h @ [r6])])" "route_for ho tun6 r6"
    using willing_addRoute [OF assms, of tunNetworkAddrV6 tun6 ?h] by blast
  show ?thesis
  proof (cases six)
    case True
    with r4 r6 show ?thesis
      by (intro exI [of _ "[SetRouteTable (last_table h @ [r4]), SetRouteTable (last_table h @ [r4, r6])]"])
        (auto simp: last_table_def)
  next
    case False
    with r4 show ?thesis by (intro exI [of _ "[SetRouteTable (last_table h @ [r4])]"]) auto
  qed
qed

lemma willing_stack:
  assumes "willing_host ho want"
  shows "\<exists>ops. NewNetworkStack ho (tunNetworkAddr # (if six then [tunNetworkAddrV6] else [])) h = (Ret (), h @ ops) \<and>
    (\<exists>rs. last_table (h @ ops) = last_table h @ rs \<and> list_all2 (route_for ho) (tun4 # (if six then [tun6] else [])) rs)"
proof -
  let ?pre = "[NewStack, SetHandler TCPProtocolNumber, SetHandler UDPProtocolNumber, SetHandler ICMPv4ProtocolNumber, CreateNIC defaultNICID,
    SetPromiscuousMode defaultNICID True, SetSpoofing defaultNICID True]"
  have t: "last_table (h @ ?pre) = last_table h" by (rule last_table_append) simp
  from willing_routes [OF assms, of six "h @ ?pre"] obtain ops rs where
    r: "addRoutes ho (tunNetworkAddr # (if six then [tunNetworkAddrV6] else [])) (h @ ?pre) = (Ret (), (h @ ?pre) @ ops)"
      "last_table ((h @ ?pre) @ ops) = last_table h @ rs" "list_all2 (route_for ho) (tun4 # (if six then [tun6] else [])) rs"
    using t by auto
  have "NewNetworkStack ho (tunNetworkAddr # (if six then [tunNetworkAddrV6] else [])) h = (Ret (), h @ ?pre @ ops)"
    using r(1) assms by (simp add: NewNetworkStack_def noted_def act_bind_def willing_h del: addRoutes.simps)
  with r(2,3) show ?thesis by (intro exI [of _ "?pre @ ops"]) auto
qed

lemma willing_ReceiveFds:
  assumes "willing_host ho want"
  shows "\<exists>fds b. ReceiveFds ho want h = (Ret fds, h @ [Recvmsg b]) \<and> length fds = want"
  using assms by (auto simp: willing_host_def ReceiveFds_def Let_def act_bind_def call_def index_def)

lemma willing_serve:
  assumes "willing_host ho want"
  shows "\<exists>ops. runRun_serve ho p u t h = (Ret (), h @ ops) \<and> EncodeACK \<in> set ops \<and> (\<forall>rt. SetRouteTable rt \<notin> set ops)"
  using assms by (auto simp: runRun_serve_def startDNSResolver_def SendACK_def noted_def deferred_runs act_bind_def willing_h)

lemma willing_parent:
  assumes "willing_host ho (rp_wantFds p)" and "rp_wantFds p = (if rp_useDNS p then 3 else 1)"
    and "rp_tunNetworks p = tunNetworkAddr # (if six then [tunNetworkAddrV6] else [])"
  shows "\<exists>ops. runRun_child ho p h = (Ret (), h @ ops) \<and> StartChild (rp_args p) (rp_attr p) \<in> set ops \<and> EncodeACK \<in> set ops \<and>
    (\<exists>rs. last_table (h @ ops) = last_table h @ rs \<and> list_all2 (route_for ho) (tun4 # (if six then [tun6] else [])) rs)"
proof -
  note w = assms(1)
  let ?h1 = "h @ [StartChild (rp_args p) (rp_attr p), CloseChildFile]"
  obtain fds b where f: "ReceiveFds ho (rp_wantFds p) ?h1 = (Ret fds, ?h1 @ [Recvmsg b])" "length fds = rp_wantFds p"
    using willing_ReceiveFds [OF w] by blast
  let ?h2 = "?h1 @ [Recvmsg b, DecodeMTU, NewEndpoint (fds ! 0) (h_mtu ho)]"
  obtain o1 rs where s: "NewNetworkStack ho (rp_tunNetworks p) ?h2 = (Ret (), ?h2 @ o1)" "last_table (?h2 @ o1) = last_table ?h2 @ rs"
      "list_all2 (route_for ho) (tun4 # (if six then [tun6] else [])) rs"
    unfolding assms(3) using willing_stack [OF w, of six ?h2] by blast
  let ?u = "if rp_useDNS p then fds ! 1 else - 1" and ?t = "if rp_useDNS p then fds ! 2 else - 1"
  obtain o2 where v: "runRun_serve ho p ?u ?t (?h2 @ o1) = (Ret (), (?h2 @ o1) @ o2)" "EncodeACK \<in> set o2" "\<forall>rt. SetRouteTable rt \<notin> set o2"
    using willing_serve [OF w, of p ?u ?t "?h2 @ o1"] by blast
  let ?ops = "[StartChild (rp_args p) (rp_attr p), CloseChildFile, Recvmsg b, DecodeMTU, NewEndpoint (fds ! 0) (h_mtu ho)] @ o1 @ o2 @ [CloseTun (fds ! 0)]"
  have "fds \<noteq> []" "rp_useDNS p \<Longrightarrow> 2 < length fds" using f(2) assms(2) by (auto split: if_splits)
  then have "runRun_child ho p h = (Ret (), h @ ?ops)"
    using w f s v
    by (cases "rp_useDNS p") (simp_all add: runRun_child_def runRun_network_def ReceiveMTU_def newTUNEndpoint_def deferred_runs act_bind_def index_def willing_h buildProxyChain_eq)
  moreover have "last_table (h @ ?ops) = last_table h @ rs"
    using s(2) last_table_append [of "o2 @ [CloseTun (fds ! 0)]" "?h2 @ o1"] v(3)
      last_table_append [of "[StartChild (rp_args p) (rp_attr p), CloseChildFile, Recvmsg b, DecodeMTU, NewEndpoint (fds ! 0) (h_mtu ho)]" h] by simp
  ultimately show ?thesis using v(2) s(3) by (intro exI [of _ ?ops]) auto
qed

lemma willing_runRun:
  assumes p: "runRun_plan (h_url ho) f cmdArgs (h_euid ho) (h_egid ho) (h_uid_map ho) = Ret p"
    and parse: "run_parse (h_frac ho) (h_euid ho) (h_egid ho) args = Ret (f, cmdArgs)"
    and w: "willing_host ho (if dnsServers f \<noteq> [] then 3 else 1)"
  shows "\<exists>h. runRun ho args [] = (Ret (), h) \<and> StartChild (rp_args p) (rp_attr p) \<in> set h \<and> EncodeACK \<in> set h \<and>
    list_all2 (route_for ho) (rp_tun p) (last_table h)"
proof -
  note plan = runRun_plan_ok [OF p] and shape = plan_shape [OF p]
  have want: "rp_wantFds p = (if dnsServers f \<noteq> [] then 3 else 1)" using plan(8) shape(1) by simp
  from willing_parent [of ho p, OF w [folded want] plan(8) shape(2), of "[Socketpair]"] obtain ops rs where
    o: "runRun_child ho p [Socketpair] = (Ret (), [Socketpair] @ ops)" "StartChild (rp_args p) (rp_attr p) \<in> set ops" "EncodeACK \<in> set ops"
      "last_table ([Socketpair] @ ops) = last_table [Socketpair] @ rs" "list_all2 (route_for ho) (tun4 # (if ipv6 f then [tun6] else [])) rs" by blast
  have r: "runRun ho args [] = (Ret (), [Socketpair] @ ops @ [CloseChildFile, CloseParentConn])"
    using p parse w o(1) by (simp add: runRun_def newControlSocket_def deferred_runs act_bind_def willing_h)
  have "last_table (([Socketpair] @ ops) @ [CloseChildFile, CloseParentConn]) = rs"
    using o(4) last_table_append [of "[CloseChildFile, CloseParentConn]" "[Socketpair] @ ops"] by (simp add: last_table_def)
  with r o plan(3) show ?thesis by auto
qed

section \<open>Properties\<close>

text \<open>
  C28: The parent, whatever fails. A command line that is rejected starts nothing. In every history the parent can leave, the child is started with its end of the
  socket, and listened to only when no other copy of that end is open; the link is attached only when the handlers are set; the
  child is acknowledged only when the stack is promiscuous, spoofing and routed and, with \<^verbatim>\<open>-D\<close>, both listeners of the resolver are served; and its end is awaited
  last. Both ends of the control socket are closed on every path that made them; the TUN descriptor on every path on which \<^verbatim>\<open>ReceiveFds\<close> returned it, whatever fails
  after; and the stack, before it, on every path on which \<^verbatim>\<open>NewNetworkStack\<close> returned, that is once every TUN subnet is routed. A stack that
  \<^verbatim>\<open>NewNetworkStack\<close> threw over is never closed: its caller has nothing to close.
\<close>

theorem parent_ordered_and_released:
  assumes "runRun ho args [] = (x, h)" and "run_parse (h_frac ho) (h_euid ho) (h_egid ho) args = Ret (f, cmdArgs)"
  shows "ordered (parent_guard (dnsServers f \<noteq> [])) h \<and>
    ((\<forall>p. runRun_plan (h_url ho) f cmdArgs (h_euid ho) (h_egid ho) (h_uid_map ho) \<noteq> Ret p) \<longrightarrow> h = []) \<and>
    (h = [] \<or> hd h = Socketpair \<and> (\<exists>h0. h = h0 @ [CloseChildFile, CloseParentConn])) \<and>
    (\<forall>p. runRun_plan (h_url ho) f cmdArgs (h_euid ho) (h_egid ho) (h_uid_map ho) = Ret p \<longrightarrow>
      (\<forall>h1 h2 h3 fds. ReceiveFds ho (rp_wantFds p) h1 = (Ret fds, h2) \<and> h = h2 @ h3 \<longrightarrow>
        (\<exists>h0. h = h0 @ [CloseTun (hd fds), CloseChildFile, CloseParentConn])) \<and>
      (\<forall>h1 h2 h3. NewNetworkStack ho (rp_tunNetworks p) h1 = (Ret (), h2) \<and> h = h2 @ h3 \<longrightarrow>
        (\<exists>h0 d. h = h0 @ [CloseStack, CloseTun d, CloseChildFile, CloseParentConn])) \<and>
      (CloseStack \<in> set h \<longleftrightarrow> routes_set h = length (rp_tunNetworks p)))"
proof -
  note shape = runRun_shape [OF assms]
  have none: "h = []" if "\<forall>p. runRun_plan (h_url ho) f cmdArgs (h_euid ho) (h_egid ho) (h_uid_map ho) \<noteq> Ret p"
    using assms that by (auto simp: runRun_def act_bind_def split: res.splits)
  have "ordered (parent_guard (dnsServers f \<noteq> [])) h" using none parent_ordered [OF assms] by (metis ordered_Nil)
  moreover have "h = [] \<or> hd h = Socketpair \<and> (\<exists>h0. h = h0 @ [CloseChildFile, CloseParentConn])"
    using none shape by (metis append_Cons list.sel(1))
  moreover have stack: "\<exists>h0 d. h = h0 @ [CloseStack, CloseTun d, CloseChildFile, CloseParentConn]"
    if p: "runRun_plan (h_url ho) f cmdArgs (h_euid ho) (h_egid ho) (h_uid_map ho) = Ret p"
      and s: "NewNetworkStack ho (rp_tunNetworks p) h1 = (Ret (), h2)" and h: "h = h2 @ h3" for p h1 h2 h3
  proof -
    have nets: "rp_tunNetworks p \<noteq> []" using plan_shape(2) [OF p] by simp
    from NewNetworkStack_shape [OF s nets] h have "length (rp_tunNetworks p) \<le> routes_set h" by auto
    from parent_releases(2) [OF shape [OF p] nets this] show ?thesis .
  qed
  moreover have nets: "rp_tunNetworks p \<noteq> []"
    if "runRun_plan (h_url ho) f cmdArgs (h_euid ho) (h_egid ho) (h_uid_map ho) = Ret p" for p
    using plan_shape(2) [OF that] by simp
  moreover note parent_releases(1,3) [OF shape nets]
  ultimately show ?thesis using none by blast
qed

text \<open>Witness: a host on which everything works, and one on which the resolver's socket cannot be made from its descriptor.\<close>

definition demo_host :: "(bytes, bytes \<times> bytes) host" where
  "demo_host = \<lparr>h_sys = (\<lambda>_ _. None), h_gv = (\<lambda>_ _. None), h_net = demo_net, h_url = demo_url, h_frac = (\<lambda>_ _ _. 0), h_euid = 1000, h_egid = 100,
     h_uid_map = None, h_CmsgSpace = (\<lambda>n. n), h_oob = (\<lambda>n. replicate n 0), h_ParseSocketControlMessage = (\<lambda>b. Inr [b]),
     h_ParseUnixRights = (\<lambda>m. Inr (map (\<lambda>i. int i + 7) [0..<length m div 4])), h_mtu = 1500, h_NewSubnet = (\<lambda>a m. Inr (a, m)), h_GetRouteTable = last_table\<rparr>"

definition demo_unserved :: "(bytes, bytes \<times> bytes) host" where
  "demo_unserved = demo_host\<lparr>h_sys := (\<lambda>_ op. case op of FilePacketConn d \<Rightarrow> Some (Foreign ''bad file descriptor'' False) | _ \<Rightarrow> None)\<rparr>"

definition demo_args :: "string list" where
  "demo_args = [''-F'', ''192.0.2.1:1080'', ''-D'', ''192.0.2.53'', ''ls'', ''-l'']"

definition demo_parsed :: runFlags where
  "demo_parsed = (newRunFlagSet 1000 100)\<lparr>forwardProxies := [''192.0.2.1:1080''], dnsServers := [''192.0.2.53'']\<rparr>"

lemma demo_parse: "run_parse (\<lambda>_ _ _. 0) 1000 100 demo_args = Ret (demo_parsed, [''ls'', ''-l''])"
  by code_simp

lemma demo_run: "\<exists>p. runRun_plan demo_url demo_parsed [''ls'', ''-l''] 1000 100 None = Ret p"
proof -
  have p: "parseProxyURLs demo_url [''192.0.2.1:1080''] = Ret [\<lparr>pa_Scheme = ''socks5'', pa_Address = ''192.0.2.1:1080'', pa_Auth = None\<rparr>]" by code_simp
  have d: "parseUpstreamDNSList [''192.0.2.53''] = Ret [''192.0.2.53:53'']" by code_simp
  have n: "parseNAT64 [] = Ret None" by code_simp
  show ?thesis
    using p d n tun_networks(1)
    by (simp add: runRun_plan_def checkFlags_def demo_parsed_def newRunFlagSet_def parseAddressMapper_def Let_def default_connectTimeout_def udpIOTimeout_def)
qed

theorem parent_ordered_and_released_witness:
  "\<exists>e h. runRun demo_unserved demo_args [] = (Exc e, h) \<and> EncodeACK \<notin> set h \<and> CloseStack \<in> set h \<and>
    (\<exists>h0. h = h0 @ [CloseChildFile, CloseParentConn])"
proof -
  have "case runRun demo_unserved demo_args [] of (x, h) \<Rightarrow>
      (case x of Exc e \<Rightarrow> True | _ \<Rightarrow> False) \<and> h \<noteq> [] \<and> EncodeACK \<notin> set h \<and> routes_set h = 1"
    by code_simp
  then obtain e h where r: "runRun demo_unserved demo_args [] = (Exc e, h)" "h \<noteq> []" "EncodeACK \<notin> set h" "routes_set h = 1"
    by (auto split: prod.splits res.splits)
  have f: "h_frac demo_unserved = (\<lambda>_ _ _. 0)" "h_euid demo_unserved = 1000" "h_egid demo_unserved = 100" "h_url demo_unserved = demo_url"
    "h_uid_map demo_unserved = None"
    by (simp_all add: demo_unserved_def demo_host_def)
  obtain p where p: "runRun_plan demo_url demo_parsed [''ls'', ''-l''] 1000 100 None = Ret p" using demo_run by blast
  have "length (rp_tunNetworks p) = 1" using plan_shape(2) [OF p] by (simp add: demo_parsed_def newRunFlagSet_def)
  with parent_ordered_and_released [OF r(1), unfolded f, OF demo_parse] p r show ?thesis by auto
qed

end
