(* ===== verification/DnsServer.thy ===== *)
theory DnsServer
  imports Resolver "HOL-Library.Multiset"
begin

text \<open>
  The two listeners of the resolver, \<^verbatim>\<open>serveDNS\<close> and \<^verbatim>\<open>serveDNSTCP\<close> of \<^verbatim>\<open>src/resolver.go\<close>: loops that take the next datagram or connection and leave it to a
  goroutine of its own. Both are instances of one step relation, in which the goroutines are interleaved in every possible way. Before them, what a TCP client is
  told when the queries it sends are resolved by the program's own resolver.
\<close>

section \<open>Accept loops\<close>

text \<open>
  \<open>sv_in\<close> is what the clients will have sent when the listener is closed; a goroutine first reads what it shares with the others (\<open>load\<close>) and then does its
  work (\<open>handle\<close>), of which the other goroutines see the end; a panic in it ends the program.
\<close>

record ('j, 'c, 's) server =
  sv_in :: "'j list"
  sv_new :: "'j list"
  sv_run :: "('j \<times> 'c) list"
  sv_done :: "('j \<times> unit res) list"
  sv_st :: 's
  sv_end :: "err option"
  sv_crash :: "string option"

definition server_start :: "'j list \<Rightarrow> 's \<Rightarrow> ('j, 'c, 's) server" where
  "server_start js st = \<lparr>sv_in = js, sv_new = [], sv_run = [], sv_done = [], sv_st = st, sv_end = None, sv_crash = None\<rparr>"

inductive sstep ::
    "('j \<Rightarrow> 'j) \<Rightarrow> ('s \<Rightarrow> 'c) \<Rightarrow> ('c \<Rightarrow> 'j \<Rightarrow> 's \<Rightarrow> (unit res \<times> 's) option) \<Rightarrow> ('j, 'c, 's) server \<Rightarrow> ('j, 'c, 's) server \<Rightarrow> bool"
  for recv load handle where
  s_read: "sv_end s = None \<Longrightarrow> sv_in s = j # js \<Longrightarrow> sstep recv load handle s (s\<lparr>sv_in := js, sv_new := sv_new s @ [recv j]\<rparr>)"
| s_closed: "sv_end s = None \<Longrightarrow> sv_in s = [] \<Longrightarrow> sstep recv load handle s (s\<lparr>sv_end := Some e\<rparr>)"
| s_load: "sv_new s = xs @ j # ys \<Longrightarrow> sstep recv load handle s (s\<lparr>sv_new := xs @ ys, sv_run := sv_run s @ [(j, load (sv_st s))]\<rparr>)"
| s_finish: "sv_run s = xs @ (j, c) # ys \<Longrightarrow> handle c j (sv_st s) = Some (r, st) \<Longrightarrow> \<forall>q. r \<noteq> Pan q \<Longrightarrow>
    sstep recv load handle s (s\<lparr>sv_run := xs @ ys, sv_done := sv_done s @ [(j, r)], sv_st := st\<rparr>)"
| s_panic: "sv_run s = xs @ (j, c) # ys \<Longrightarrow> handle c j (sv_st s) = Some (Pan q, st) \<Longrightarrow> sstep recv load handle s (s\<lparr>sv_crash := Some q\<rparr>)"

text \<open>Every step takes one of the goroutines, or the loop, on.\<close>

definition server_rank :: "('j, 'c, 's) server \<Rightarrow> nat" where
  "server_rank s = 3 * length (sv_in s) + 2 * length (sv_new s) + length (sv_run s) + (if sv_end s = None then 1 else 0)"

definition accounted :: "('j \<Rightarrow> 'j) \<Rightarrow> ('j, 'c, 's) server \<Rightarrow> 'j multiset" where
  "accounted recv s = mset (map recv (sv_in s)) + mset (sv_new s) + mset (map fst (sv_run s)) + mset (map fst (sv_done s))"

definition answered :: "('j \<Rightarrow> 'l) \<Rightarrow> ('j, 'c, 's) server \<Rightarrow> 'l list" where
  "answered mark s = map (mark \<circ> fst) (filter (\<lambda>(j, r). r = Ret ()) (sv_done s))"

text \<open>
  What an accept loop asks of its goroutines: they work under an invariant of the shared state that each of them keeps, whatever it loaded before, and in
  which it ends without a panic; a mark is left in the log for every job that ends well, and for no other.
\<close>

locale accept_loop =
  fixes recv :: "'j \<Rightarrow> 'j"
    and load :: "'s \<Rightarrow> 'c"
    and handle :: "'c \<Rightarrow> 'j \<Rightarrow> 's \<Rightarrow> (unit res \<times> 's) option"
    and I :: "'s \<Rightarrow> bool"
    and J :: "'c \<Rightarrow> bool"
    and log :: "'s \<Rightarrow> 'l list"
    and mark :: "'j \<Rightarrow> 'l"
    and K :: "'j \<Rightarrow> bool"
  assumes load_ok: "I s \<Longrightarrow> J (load s)"
    and recv_ok: "K j \<Longrightarrow> K (recv j)"
    and handle_ends: "I s \<Longrightarrow> J c \<Longrightarrow> K j \<Longrightarrow> \<exists>r s'. handle c j s = Some (r, s') \<and> (\<forall>q. r \<noteq> Pan q) \<and> I s'"
    and handle_marks: "I s \<Longrightarrow> J c \<Longrightarrow> K j \<Longrightarrow> handle c j s = Some (r, s') \<Longrightarrow> log s' = log s @ (if r = Ret () then [mark j] else [])"
begin

definition server_ok :: "'l list \<Rightarrow> 'j multiset \<Rightarrow> ('j, 'c, 's) server \<Rightarrow> bool" where
  "server_ok l0 js s \<longleftrightarrow> I (sv_st s) \<and> (\<forall>(j, c) \<in> set (sv_run s). J c \<and> K j) \<and> (\<forall>j \<in> set (sv_in s) \<union> set (sv_new s). K j) \<and> sv_crash s = None \<and> accounted recv s = js \<and>
     (sv_end s \<noteq> None \<longrightarrow> sv_in s = []) \<and> log (sv_st s) = l0 @ answered mark s"

lemma start_ok: "I st \<Longrightarrow> \<forall>j \<in> set js. K j \<Longrightarrow> server_ok (log st) (mset (map recv js)) (server_start js st)"
  by (simp add: server_ok_def server_start_def accounted_def answered_def)

lemma step_ok:
  assumes "sstep recv load handle s s'" "server_ok l0 js s"
  shows "server_ok l0 js s' \<and> server_rank s' < server_rank s"
  using assms
proof cases
  case (s_finish xs j c ys r st)
  then have i: "I (sv_st s)" "J c" "K j" using assms(2) by (auto simp: server_ok_def)
  with handle_ends [OF i] handle_marks [OF i, of r st] s_finish assms(2) show ?thesis
    by (auto simp: server_ok_def accounted_def answered_def server_rank_def)
next
  case (s_panic xs j c ys q st)
  then have "I (sv_st s)" "J c" "K j" using assms(2) by (auto simp: server_ok_def)
  with handle_ends [of "sv_st s" c j] s_panic show ?thesis by auto
qed (use assms(2) load_ok recv_ok in \<open>auto simp: server_ok_def accounted_def answered_def server_rank_def\<close>)

lemma steps_ok: "(sstep recv load handle ^^ n) s s' \<Longrightarrow> server_ok l0 js s \<Longrightarrow> server_ok l0 js s' \<and> n + server_rank s' \<le> server_rank s"
proof (induction n arbitrary: s')
  case (Suc n)
  then obtain t where t: "(sstep recv load handle ^^ n) s t" "sstep recv load handle t s'" by auto
  with Suc.IH [OF t(1) Suc.prems(2)] step_ok [OF t(2)] show ?case by fastforce
qed simp

lemma progress:
  assumes "server_ok l0 js s" "sv_end s = None \<or> sv_new s \<noteq> [] \<or> sv_run s \<noteq> []"
  shows "Ex (sstep recv load handle s)"
proof (cases "sv_run s")
  case Nil
  then show ?thesis
    using assms(2) sstep.s_read [of s] sstep.s_closed [of s] sstep.s_load [of s "[]"] by (cases "sv_new s"; cases "sv_in s") force+
next
  case (Cons jc rest)
  obtain j c where jc: "jc = (j, c)" by (cases jc)
  with Cons assms(1) have "I (sv_st s)" "J c" "K j" by (auto simp: server_ok_def)
  from handle_ends [OF this] obtain r st where "handle c j (sv_st s) = Some (r, st)" "\<forall>q. r \<noteq> Pan q" by blast
  with sstep.s_finish [of s "[]" j c rest handle r st] Cons jc show ?thesis by auto
qed

text \<open>Whatever the interleaving: the loop and its goroutines come to an end, and then every job was done, once.\<close>

lemma serves_everything:
  assumes "I st" and "\<forall>j \<in> set js. K j" and "(sstep recv load handle ^^ n) (server_start js st) s"
  shows "n \<le> 3 * length js + 1" "sv_crash s = None" "I (sv_st s)" "log (sv_st s) = log st @ answered mark s"
    "mset (map fst (sv_done s)) \<subseteq># mset (map recv js)"
    "(\<exists>s'. sstep recv load handle s s') \<or> mset (map fst (sv_done s)) = mset (map recv js)"
proof -
  from steps_ok [OF assms(3) start_ok [OF assms(1,2)]] have ok: "server_ok (log st) (mset (map recv js)) s"
    and n: "n + server_rank s \<le> server_rank (server_start js st :: ('j, 'c, 's) server)" by auto
  from n show "n \<le> 3 * length js + 1" by (simp add: server_rank_def server_start_def)
  from ok show "sv_crash s = None" "I (sv_st s)" "log (sv_st s) = log st @ answered mark s" by (simp_all add: server_ok_def)
  from ok have acc: "accounted recv s = mset (map recv js)" by (simp add: server_ok_def)
  then show "mset (map fst (sv_done s)) \<subseteq># mset (map recv js)" unfolding accounted_def by (metis mset_subset_eq_add_right)
  show "(\<exists>s'. sstep recv load handle s s') \<or> mset (map fst (sv_done s)) = mset (map recv js)"
  proof (cases "sv_end s = None \<or> sv_new s \<noteq> [] \<or> sv_run s \<noteq> []")
    case True
    with progress [OF ok] show ?thesis by blast
  next
    case False
    with ok have "sv_in s = []" by (simp add: server_ok_def)
    with False acc show ?thesis by (simp add: accounted_def)
  qed
qed

end

section \<open>The UDP listener\<close>

text \<open>
  The shared state: the index of the preferred upstream, the host's connections, and the answers written to the listening socket with the client each went to. The
  kernel decides, on the answers so far, whether the next \<^verbatim>\<open>WriteTo\<close> fails. \<open>c\<close> is the index the query loaded.
\<close>

type_synonym dns_state = "32 word \<times> (world \<times> (string \<times> bytes) list)"

definition dns_recv :: "string \<times> bytes \<Rightarrow> string \<times> bytes" where
  "dns_recv = (\<lambda>(addr, datagram). (addr, take dnsBufferSize datagram))"

definition dns_load :: "32 word \<times> 's \<Rightarrow> int" where
  "dns_load st = sint (fst st)"

definition host_act :: "(world, 'a) act \<Rightarrow> (world \<times> 't, 'a) act" where
  "host_act m s = (case m (fst s) of (x, w) \<Rightarrow> (x, (w, snd s)))"

definition WriteTo :: "((string \<times> bytes) list \<Rightarrow> string \<times> bytes \<Rightarrow> err option) \<Rightarrow> string \<Rightarrow> bytes \<Rightarrow> (dns_state, unit) act" where
  "WriteTo wr addr resp = (\<lambda>(p, (w, out)). case wr out (addr, resp) of None \<Rightarrow> (Ret (), (p, (w, out @ [(addr, resp)]))) | Some e \<Rightarrow> (Exc e, (p, (w, out))))"

text \<open>\<^verbatim>\<open>upstreams.forward\<close> from the loaded index on.\<close>

definition forward_from :: "string list \<Rightarrow> int \<Rightarrow> (string \<Rightarrow> ('s, bytes) act) \<Rightarrow> (32 word \<times> 's, bytes) act" where
  "forward_from addrs c ask = forward_loop addrs c ask [0..<length addrs] []"

lemma forward_from_load: "forward addrs ask st = forward_from addrs (dns_load st) ask st"
  by (simp add: forward_def forward_from_def dns_load_def)

definition serveDNS_job ::
    "('p, 'b) dnslib \<Rightarrow> dnsPolicy \<Rightarrow> netenv \<Rightarrow> nat \<Rightarrow> string list \<Rightarrow> ((string \<times> bytes) list \<Rightarrow> string \<times> bytes \<Rightarrow> err option) \<Rightarrow>
      int \<Rightarrow> string \<times> bytes \<Rightarrow> dns_state \<Rightarrow> (unit res \<times> dns_state) option" where
  "serveDNS_job lib pol env now addrs wr c = (\<lambda>(addr, query).
     handleDNSQuery lib pol (\<lambda>q. forward_from addrs c (\<lambda>up. host_act (forwardDNS lib env now q up))) (WriteTo wr addr) query)"

section \<open>The TCP listener\<close>

text \<open>
  A job is a connection; whatever ends its stream, it is closed, and an exception is logged. \<open>resolve k\<close> is \<^verbatim>\<open>resolveDNS\<close> as the goroutine of connection \<open>k\<close> sees it, over the
  indexes it loads. The state is the host's connections and the clients' connections that were closed.
\<close>

definition serveDNSTCP_job ::
    "(nat \<Rightarrow> bytes \<Rightarrow> world \<Rightarrow> (bytes res \<times> world) option) \<Rightarrow> (nat \<Rightarrow> nat) \<Rightarrow> unit \<Rightarrow> nat \<Rightarrow> world \<times> nat list \<Rightarrow>
      (unit res \<times> (world \<times> nat list)) option" where
  "serveDNSTCP_job resolve now _ k = (\<lambda>(w, ended).
     map_option (\<lambda>(x, w'). (case x of Pan q \<Rightarrow> Pan q | _ \<Rightarrow> Ret (), (w_close k w', ended @ [k]))) (handleDNSStream (resolve k) now 0 k w))"

section \<open>Queries under any interleaving\<close>

definition parser_ends :: "('p, 'b) dnslib \<Rightarrow> bool" where
  "parser_ends lib \<longleftrightarrow> (\<forall>m hd a a'. p_Start lib m = Inr (hd, a) \<longrightarrow> p_SkipAllQuestions lib a = Inr a' \<longrightarrow> (\<exists>rrs. yields lib a' rrs))"

lemma allowsAAAA_total:
  assumes "parser_ends lib"
  shows "\<exists>b. allowsAAAA lib pol resp = Some b"
proof -
  have "\<exists>b. answers_allowed lib pol a' = Some b" if "p_Start lib resp = Inr (h, a)" "p_SkipAllQuestions lib a = Inr a'" for h a a'
    using assms that answers_allowed_total unfolding parser_ends_def by fast
  then show ?thesis by (auto simp: allowsAAAA_def split: sum.split)
qed

lemma forward_loop_range:
  assumes "0 \<le> c" "length addrs \<le> 2 ^ 31" "addrs \<noteq> []" "\<And>a. act_keeps P (ask a)"
  shows "unat p < length addrs \<Longrightarrow> P s \<Longrightarrow> forward_loop addrs c ask ks errs (p, s) = (x, (p', s')) \<Longrightarrow>
    unat p' < length addrs \<and> P s' \<and> (\<forall>q. x \<noteq> Pan q)"
proof (induction ks arbitrary: errs s)
  case Nil
  then show ?case by (auto split: if_splits)
next
  case (Cons i ks)
  let ?n = "length addrs" and ?i = "(nat c + i) mod length addrs"
  have "go_rem (c + int i) (int ?n) = int ?i" using assms(1,3) go_rem_nat [of ?n "nat c + i"] by (simp add: nat_add_distrib)
  moreover have i: "?i < ?n" using assms(3) by (intro mod_less_divisor) auto
  then have at: "index_int (int ?i) addrs = Ret (addrs ! ?i)" by (simp add: index_int_def index_def)
  ultimately have run: "forward_loop addrs c ask (i # ks) errs (p, s) = (case ask (addrs ! ?i) s of
      (Ret resp, s') \<Rightarrow> (Ret resp, (if int ?i \<noteq> c then word_of_int (int ?i) else p, s'))
    | (Exc e, s') \<Rightarrow> forward_loop addrs c ask ks (errs @ [Wrapped ''%s: %w'' [addrs ! ?i] e]) (p, s')
    | (Pan q, s') \<Rightarrow> (Pan q, (p, s')))"
    by (simp only: forward_loop.simps Let_def res.case)
  obtain y s1 where a: "ask (addrs ! ?i) s = (y, s1)" by (cases "ask (addrs ! ?i) s")
  from act_keepsD [OF assms(4) Cons.prems(2) a] have y: "P s1" "\<forall>q. y \<noteq> Pan q" by auto
  have "unat (word_of_int (int ?i) :: 32 word) = ?i" using i assms(2) by (simp add: unat_of_nat)
  with i Cons.prems y a run Cons.IH [of s1] show ?case by (cases y) (auto split: if_splits)
qed

lemma keeps_forward_from:
  assumes "0 \<le> c" "length addrs \<le> 2 ^ 31" "addrs \<noteq> []" "\<And>a. act_keeps P (ask a)"
  shows "act_keeps (\<lambda>(p, s). unat p < length addrs \<and> P s) (forward_from addrs c ask)"
proof (rule act_keepsI)
  fix st x st' assume "case st of (p, s) \<Rightarrow> unat p < length addrs \<and> P s" "forward_from addrs c ask st = (x, st')"
  then obtain p s p' s' where st: "st = (p, s)" "st' = (p', s')" "unat p < length addrs" "P s"
      "forward_loop addrs c ask [0..<length addrs] [] (p, s) = (x, (p', s'))"
    by (cases st; cases st') (simp add: forward_from_def)
  from forward_loop_range [where P = P, OF assms st(3-5)] st
  show "(case st' of (p, s) \<Rightarrow> unat p < length addrs \<and> P s) \<and> (\<forall>q. x \<noteq> Pan q)" by simp
qed

lemma keeps_forwardDNS: "act_keeps (held v {}) (forwardDNS lib env now q up)"
  unfolding forwardDNS_def
proof (rule act_keeps_bind)
  show "act_keeps (held v {}) (forwardDNSUDP env now q up)"
    by (rule act_keepsI) (metis forwardDNSUDP_held held_def held_trans)
  have "act_keeps (held v {}) (forwardDNSTCP env now q up)"
    by (rule act_keepsI) (metis forwardDNSTCP_held held_def held_trans)
  then show "act_keeps (held v {}) (if \<not> isTruncated lib resp then act_ret resp else forwardDNSTCP env now q up)" for resp
    by (intro keeps)
qed

lemma keeps_host_act: "act_keeps P m \<Longrightarrow> act_keeps (\<lambda>(w, t). P w \<and> t = l) (host_act m)"
  by (rule act_keepsI) (auto simp: host_act_def split: prod.splits dest: act_keepsD)

lemma emptyResponse_no_panic [simp]: "emptyResponse lib hdr qn \<noteq> Pan q"
  by (auto simp: emptyResponse_def Let_def res_simps)

lemma resolveDNS_ends:
  assumes "parser_ends lib" "act_keeps Q (fwd query)" "Q st"
  shows "\<exists>r st'. resolveDNS lib pol fwd query st = Some (r, st') \<and> Q st' \<and> (\<forall>q. r \<noteq> Pan q)"
proof -
  obtain x s1 where f: "fwd query st = (x, s1)" by (cases "fwd query st")
  from act_keepsD [OF assms(2,3) f] have x: "Q s1" "\<forall>q. x \<noteq> Pan q" by auto
  show ?thesis
  proof (cases x)
    case (Ret resp)
    obtain b where "allowsAAAA lib pol resp = Some b" using allowsAAAA_total [OF assms(1)] by blast
    with assms(3) f x Ret show ?thesis by (auto simp: resolveDNS_def split: sum.split)
  qed (use assms(3) f x in \<open>auto simp: resolveDNS_def split: sum.split\<close>)
qed

definition dns_ok :: "string list \<Rightarrow> world \<Rightarrow> dns_state \<Rightarrow> bool" where
  "dns_ok addrs v st \<longleftrightarrow> unat (fst st) < length addrs \<and> length addrs \<le> 2 ^ 31 \<and> held v {} (fst (snd st))"

lemma serveDNS_job_ends:
  assumes "parser_ends lib" "dns_ok addrs v (p, (w, out))" "0 \<le> c"
  shows "\<exists>r p' w' resp. serveDNS_job lib pol env now addrs wr c (addr, query) (p, (w, out)) =
      Some (r, (p', (w', out @ (if r = Ret () then [(addr, resp)] else [])))) \<and> (\<forall>q. r \<noteq> Pan q) \<and>
      (\<forall>out. dns_ok addrs v (p', (w', out)))"
proof -
  let ?fwd = "\<lambda>q. forward_from addrs c (\<lambda>up. host_act (forwardDNS lib env now q up))"
  let ?Q = "\<lambda>(p, s). unat p < length addrs \<and> (case s of (w, t) \<Rightarrow> held v {} w \<and> t = out)"
  have n: "length addrs \<le> 2 ^ 31" "addrs \<noteq> []" using assms(2) by (auto simp: dns_ok_def)
  have "act_keeps ?Q (?fwd query)"
    by (rule keeps_forward_from [OF assms(3) n]) (rule keeps_host_act [OF keeps_forwardDNS])
  note E = resolveDNS_ends [where Q = ?Q and fwd = ?fwd and pol = pol, OF assms(1) this]
  have "?Q (p, (w, out))" using assms(2) by (simp add: dns_ok_def)
  from E [OF this] obtain r st where r: "resolveDNS lib pol ?fwd query (p, (w, out)) = Some (r, st)" "?Q st" "\<forall>q. r \<noteq> Pan q" by (elim exE conjE)
  then obtain p' w' where st: "st = (p', (w', out))" "unat p' < length addrs" "held v {} w'" by (cases st) auto
  show ?thesis
  proof (cases r)
    case (Ret resp)
    with r st n show ?thesis
      by (cases "wr out (addr, resp)") (auto simp: serveDNS_job_def handleDNSQuery_def WriteTo_def dns_ok_def)
  qed (use r st n in \<open>auto simp: serveDNS_job_def handleDNSQuery_def dns_ok_def\<close>)
qed

lemma dns_load_ok: "dns_ok addrs v st \<Longrightarrow> 0 \<le> dns_load st"
  using sint_small [of "fst st"] by (auto simp: dns_ok_def dns_load_def)

interpretation udp_dns: accept_loop dns_recv dns_load "serveDNS_job lib pol env now addrs wr"
  "\<lambda>st. parser_ends lib \<and> dns_ok addrs v st" "\<lambda>c. 0 \<le> c" "\<lambda>st. map fst (snd (snd st))" fst "\<lambda>_. True"
  for lib :: "('p, 'b) dnslib" and pol env now addrs wr v
proof unfold_locales
  fix st :: dns_state and c :: int and j :: "string \<times> bytes"
  assume i: "parser_ends lib \<and> dns_ok addrs v st" and c: "0 \<le> c"
  obtain p w out where st: "st = (p, (w, out))" by (cases st) auto
  obtain addr query where j: "j = (addr, query)" by (cases j)
  have "dns_ok addrs v (p, (w, out))" using i st by simp
  from serveDNS_job_ends [OF _ this c, of lib pol env now wr addr query] i obtain r p' w' resp where
    r: "serveDNS_job lib pol env now addrs wr c j st = Some (r, (p', (w', out @ (if r = Ret () then [(addr, resp)] else []))))"
      "\<forall>q. r \<noteq> Pan q" "\<forall>out. dns_ok addrs v (p', (w', out))" unfolding st j by blast
  then show "\<exists>r s'. serveDNS_job lib pol env now addrs wr c j st = Some (r, s') \<and> (\<forall>q. r \<noteq> Pan q) \<and> parser_ends lib \<and> dns_ok addrs v s'"
    using i by blast
  show "map fst (snd (snd s')) = map fst (snd (snd st)) @ (if r' = Ret () then [fst j] else [])"
    if "serveDNS_job lib pol env now addrs wr c j st = Some (r', s')" for r' s'
    using that r st j by auto
qed (auto simp: dns_load_ok)


section \<open>Streams under any resolver\<close>

context io_reader
begin

lemma readDNSMessage_shrinks:
  assumes "inv r" "readDNSMessage rd r = (Ret q, r')"
  shows "length (stream r') < length (stream r)"
proof (cases "2 \<le> length (stream r)")
  case True
  from readDNSMessage_len [OF assms(1) True] assms(2) obtain n r1 where
    r1: "readFull rd n r1 = (Ret q, r')" "stream r1 = drop 2 (stream r)" "same r r1" by auto
  then have "inv r1" by (simp add: same_def)
  with r1 readFull_short [OF this, of n] have "n \<le> length (stream r1)" by (cases "n \<le> length (stream r1)") auto
  from readFull_ok [OF \<open>inv r1\<close> this] r1 True show ?thesis by auto
next
  case False
  then have "\<exists>e r1. readFull rd 2 r = (Exc e, r1)" using readFull_short [OF assms(1), of 2] by auto
  with assms(2) show ?thesis by (auto simp: readDNSMessage_def act_bind_def)
qed

end

text \<open>A resolver that always ends and leaves no connection open.\<close>

definition tidy :: "(bytes \<Rightarrow> world \<Rightarrow> (bytes res \<times> world) option) \<Rightarrow> bool" where
  "tidy resolve \<longleftrightarrow> (\<forall>q w. world_ok w \<longrightarrow> (\<exists>r w'. resolve q w = Some (r, w') \<and> held w {} w' \<and> (\<forall>p. r \<noteq> Pan p)))"

text \<open>Since \<open>v\<close>, of the connections from before only \<open>k\<close> was used, none was closed, and no other one is open.\<close>

definition beside :: "nat \<Rightarrow> world \<Rightarrow> world \<Rightarrow> bool" where
  "beside k v w \<longleftrightarrow> world_ok w \<and> length (dials v) \<le> length (dials w) \<and> new_open v w = {} \<and>
     (\<forall>j < length (dials v). (j \<noteq> k \<longrightarrow> heap w j = heap v j) \<and> (j \<in> set (closed w) \<longleftrightarrow> j \<in> set (closed v)))"

lemma beside_refl: "world_ok w \<Longrightarrow> beside k w w"
  by (auto simp: beside_def new_open_def world_ok_def conn_open_def)

lemma beside_touched:
  assumes "world_ok v" "conn_open k v" "touched k v w"
  shows "beside k v w"
proof -
  have "world_ok w" using assms unfolding world_ok_def touched_def conn_open_def by metis
  with assms show ?thesis by (auto simp: beside_def new_open_def world_ok_def touched_def conn_open_def)
qed

lemma beside_held: "held v {} w \<Longrightarrow> beside k v w"
  by (simp add: beside_def held_def old_kept_def)

lemma beside_trans:
  assumes "beside k u v" "beside k v w" "k < length (dials u)"
  shows "beside k u w"
  unfolding beside_def
proof (intro conjI allI impI)
  show "world_ok w" using assms(2) by (simp add: beside_def)
  show "length (dials u) \<le> length (dials w)" using assms by (auto simp: beside_def)
  show "new_open u w = {}"
  proof -
    have "\<not> conn_open j w" if "length (dials u) \<le> j" for j
    proof (cases "length (dials v) \<le> j")
      case True
      with assms(2) show ?thesis by (auto simp: beside_def new_open_def)
    next
      case False
      with that assms have "heap w j = heap v j" "j \<in> set (closed w) \<longleftrightarrow> j \<in> set (closed v)" by (auto simp: beside_def)
      with that assms(1) show ?thesis by (auto simp: beside_def new_open_def conn_open_def)
    qed
    then show ?thesis by (auto simp: new_open_def)
  qed
qed (use assms in \<open>auto simp: beside_def\<close>)

lemma stream_ends:
  assumes "tidy resolve"
  shows "world_ok w \<Longrightarrow> k < length (dials w) \<Longrightarrow>
    \<exists>x w'. handleDNSStream resolve now i k w = Some (x, w') \<and> (\<forall>q. x \<noteq> Pan q) \<and> beside k w w'"
proof (induction "length (conn_stream (w_conn k w))" arbitrary: w i rule: less_induct)
  case less
  let ?d = "Some (now i + dnsStreamIdleTimeout)"
  obtain e w1 where d: "w_set_deadline k ?d w = (e, w1)" by (cases "w_set_deadline k ?d w")
  show ?case
  proof (cases "e = None")
    case False
    with d have "handleDNSStream resolve now i k w = Some (Throw e, w1)" "w1 = w"
      by (subst handleDNSStream.simps, auto simp: act_throw_def w_set_deadline_def split: if_splits option.splits)
    with beside_refl [OF less.prems(1)] show ?thesis by (auto simp: res_simps)
  next
    case True
    with d have o: "conn_open k w" by (auto simp: w_set_deadline_def split: if_splits)
    from w_set_deadline_open [OF o d] have o1: "conn_open k w1" "conn_stream (w_conn k w1) = conn_stream (w_conn k w)"
      and t1: "touched k w w1" by (auto simp: touched_def)
    have s: "act_throw (w_set_deadline k ?d) w = (Ret (), w1)" using d True by (simp add: act_throw_def)
    obtain x w2 where m: "readDNSMessage (w_read k) w1 = (x, w2)" by (cases "readDNSMessage (w_read k) w1")
    from conn_rd.readDNSMessage_same [OF o1(1) m] same_touched(1) [OF o1(1)] have t2: "touched k w1 w2" "\<forall>q. x \<noteq> Pan q" by auto
    then have b2: "beside k w w2" using beside_touched [OF less.prems(1) o touched_trans [OF t1]] by simp
    show ?thesis
    proof (cases x)
      case (Exc er)
      with handleDNSStream_end [where now = now and i = i, OF s] m b2 show ?thesis by auto
    next
      case (Ret q)
      have "world_ok w2" using b2 by (simp add: beside_def)
      with assms obtain r w3 where r: "resolve q w2 = Some (r, w3)" "held w2 {} w3" "\<forall>p. r \<noteq> Pan p" unfolding tidy_def by blast
      have b3: "beside k w w3" using beside_trans [OF b2 beside_held [OF r(2)] less.prems(2)] .
      show ?thesis
      proof (cases r)
        case (Exc er)
        with s m Ret r b3 show ?thesis by (subst handleDNSStream.simps) (simp add: act_try_def)
      next
        case (Pan p)
        with r show ?thesis by simp
      next
        case (Ret a)
        have kd: "k < length (dials w2)" using less.prems(2) b2 by (simp add: beside_def)
        have "conn_open k w2" using t2(1) by (simp add: touched_def)
        with r(2) kd have o3: "conn_open k w3" "w_conn k w3 = w_conn k w2" by (auto simp: held_def old_kept_def conn_open_def w_conn_def)
        obtain e4 w4 where wr: "w_write k (dns_frame a) w3 = (e4, w4)" by (cases "w_write k (dns_frame a) w3")
        from w_write_open [OF o3(1) wr] have st4: "conn_stream (w_conn k w4) = conn_stream (w_conn k w3)" and t4: "touched k w3 w4"
          by (auto simp: touched_def)
        have "world_ok w3" using r(2) by (simp add: held_def)
        from beside_trans [OF b3 beside_touched [OF this o3(1) t4] less.prems(2)] have b4: "beside k w w4" .
        have w: "writeDNSMessage k a w3 = (Throw e4, w4)" using wr by (simp add: writeDNSMessage_def act_throw_def)
        show ?thesis
        proof (cases e4)
          case (Some er)
          with s m \<open>x = Ret q\<close> r(1) Ret w b4 show ?thesis by (subst handleDNSStream.simps) (simp add: act_try_def)
        next
          case None
          have next_round: "handleDNSStream resolve now i k w = handleDNSStream resolve now (Suc i) k w4"
            using handleDNSStream_step [where now = now and i = i, OF s, of q w2 resolve a w3 w4] m \<open>x = Ret q\<close> r(1) Ret w None by simp
          have "length (conn_stream (w_conn k w4)) < length (conn_stream (w_conn k w))"
            using conn_rd.readDNSMessage_shrinks [OF o1(1)] m \<open>x = Ret q\<close> o1(2) o3(2) st4 by simp
          from less.hyps [OF this, of "Suc i"] b4 less.prems(2) obtain y w5 where
            y: "handleDNSStream resolve now (Suc i) k w4 = Some (y, w5)" "\<forall>q. y \<noteq> Pan q" "beside k w4 w5" by (auto simp: beside_def)
          with next_round beside_trans [OF b4 y(3) less.prems(2)] show ?thesis by simp
        qed
      qed
    qed (use t2 in simp)
  qed
qed

text \<open>The resolver of the program is tidy, whatever index a query loads and finds.\<close>

lemma resolveDNS_tidy:
  assumes "parser_ends lib" "addrs \<noteq> []" "length addrs \<le> 2 ^ 31" "0 \<le> c" "unat p < length addrs"
  shows "tidy (\<lambda>q w. map_option (\<lambda>(x, (p, w)). (x, w)) (resolveDNS lib pol (\<lambda>q. forward_from addrs c (forwardDNS lib env now q)) q (p, w)))"
  unfolding tidy_def
proof (intro allI impI)
  fix q w assume "world_ok w"
  let ?Q = "\<lambda>(p, u). unat p < length addrs \<and> held w {} u" and ?fwd = "\<lambda>q. forward_from addrs c (forwardDNS lib env now q)"
  have "act_keeps ?Q (?fwd q)" by (rule keeps_forward_from [OF assms(4,3,2)]) (rule keeps_forwardDNS)
  note E = resolveDNS_ends [where Q = ?Q and fwd = ?fwd and pol = pol, OF assms(1) this]
  have "?Q (p, w)" using assms(5) held_start [OF \<open>world_ok w\<close>] by simp
  from E [OF this] obtain r st where "resolveDNS lib pol ?fwd q (p, w) = Some (r, st)" "?Q st" "\<forall>q. r \<noteq> Pan q" by (elim exE conjE)
  then show "\<exists>r w'. map_option (\<lambda>(x, (p, w)). (x, w)) (resolveDNS lib pol ?fwd q (p, w)) = Some (r, w') \<and> held w {} w' \<and> (\<forall>p. r \<noteq> Pan p)"
    by (cases st) auto
qed

text \<open>
  \<^verbatim>\<open>resolveDNS\<close> as the goroutine of one TCP client runs it. Other goroutines move the shared index between its queries, so for every query the index it loads, the
  index it finds when it stores its own, and the clock are whatever they are by then.
\<close>

definition stream_resolver ::
    "('p, 'b) dnslib \<Rightarrow> dnsPolicy \<Rightarrow> netenv \<Rightarrow> string list \<Rightarrow> (bytes \<Rightarrow> world \<Rightarrow> int) \<Rightarrow> (bytes \<Rightarrow> world \<Rightarrow> 32 word) \<Rightarrow> (bytes \<Rightarrow> world \<Rightarrow> nat) \<Rightarrow>
      bytes \<Rightarrow> world \<Rightarrow> (bytes res \<times> world) option" where
  "stream_resolver lib pol env addrs loaded found clock q w =
     map_option (\<lambda>(x, (p, w')). (x, w'))
       (resolveDNS lib pol (\<lambda>q'. forward_from addrs (loaded q w) (forwardDNS lib env (clock q w) q')) q (found q w, w))"

text \<open>It ends, leaves no connection open and writes nothing to the clients.\<close>

definition discreet :: "(bytes \<Rightarrow> world \<Rightarrow> (bytes res \<times> world) option) \<Rightarrow> bool" where
  "discreet resolve \<longleftrightarrow> (\<forall>q w. world_ok w \<longrightarrow> (\<exists>r w'. resolve q w = Some (r, w') \<and> held w {} w' \<and>
     (\<forall>j < length (dials w). sent_to j w' = sent_to j w) \<and> (\<forall>p. r \<noteq> Pan p)))"

lemma keeps_forwardDNS_log:
  "act_keeps (\<lambda>u. held v {} u \<and> (\<forall>j < length (dials v). sent_to j u = sent_to j v)) (forwardDNS lib env now q up)"
proof (rule act_keepsI)
  fix u x u' assume u: "held v {} u \<and> (\<forall>j < length (dials v). sent_to j u = sent_to j v)" "forwardDNS lib env now q up u = (x, u')"
  then have "world_ok u" "length (dials v) \<le> length (dials u)" by (auto simp: held_def)
  with u act_keepsD [OF keeps_forwardDNS _ u(2), of v] forwardDNS_log [OF _ u(2)]
  show "(held v {} u' \<and> (\<forall>j < length (dials v). sent_to j u' = sent_to j v)) \<and> (\<forall>p. x \<noteq> Pan p)" by fastforce
qed

lemma stream_resolver_discreet:
  assumes "parser_ends lib" "addrs \<noteq> []" "length addrs \<le> 2 ^ 31" "\<And>q w. 0 \<le> loaded q w" "\<And>q w. unat (found q w) < length addrs"
  shows "discreet (stream_resolver lib pol env addrs loaded found clock)"
  unfolding discreet_def
proof (intro allI impI)
  fix q w assume "world_ok w"
  let ?P = "\<lambda>u. held w {} u \<and> (\<forall>j < length (dials w). sent_to j u = sent_to j w)"
  let ?Q = "\<lambda>(p, u). unat p < length addrs \<and> ?P u" and ?fwd = "\<lambda>q'. forward_from addrs (loaded q w) (forwardDNS lib env (clock q w) q')"
  have "act_keeps ?Q (?fwd q)" by (rule keeps_forward_from [OF assms(4,3,2)]) (rule keeps_forwardDNS_log)
  note E = resolveDNS_ends [where Q = ?Q and fwd = ?fwd and pol = pol, OF assms(1) this]
  have "?Q (found q w, w)" using assms(5) held_start [OF \<open>world_ok w\<close>] by simp
  from E [OF this] obtain r st where "resolveDNS lib pol ?fwd q (found q w, w) = Some (r, st)" "?Q st" "\<forall>q. r \<noteq> Pan q" by (elim exE conjE)
  then show "\<exists>r w'. stream_resolver lib pol env addrs loaded found clock q w = Some (r, w') \<and> held w {} w' \<and>
      (\<forall>j < length (dials w). sent_to j w' = sent_to j w) \<and> (\<forall>p. r \<noteq> Pan p)"
    by (cases st) (auto simp: stream_resolver_def)
qed

text \<open>One round of the stream: the next query is read whole, resolved, and answered unless its resolution throws.\<close>

definition answers_next ::
    "(bytes \<Rightarrow> world \<Rightarrow> (bytes res \<times> world) option) \<Rightarrow> (nat \<Rightarrow> nat) \<Rightarrow> nat \<Rightarrow> nat \<Rightarrow> bytes \<Rightarrow> bytes \<Rightarrow> world \<Rightarrow> bool" where
  "answers_next resolve now i k q tail w \<longleftrightarrow>
     (\<exists>v a u w'. beside k w v \<and> resolve q v = Some (Ret a, u) \<and> handleDNSStream resolve now i k w = handleDNSStream resolve now (Suc i) k w' \<and>
        ready k w' \<and> beside k w w' \<and> conn_stream (w_conn k w') = tail \<and> sent_to k w' = sent_to k w @ [dns_frame a]) \<or>
     (\<exists>v e w'. beside k w v \<and> resolve q v = Some (Exc e, w') \<and> handleDNSStream resolve now i k w = Some (Exc e, w') \<and>
        beside k w w' \<and> sent_to k w' = sent_to k w)"

lemma stream_round:
  assumes "discreet resolve" "ready k w" "world_ok w" "k < length (dials w)" "conn_stream (w_conn k w) = dns_frame q @ tail" "length q < 65536"
  shows "answers_next resolve now i k q tail w"
proof -
  obtain w1 where w1: "act_throw (w_set_deadline k (Some (now i + dnsStreamIdleTimeout))) w = (Ret (), w1)" "ready k w1" "touched k w w1"
    "conn_stream (w_conn k w1) = conn_stream (w_conn k w)" "wlog w1 = wlog w"
    using assms(2) by (auto simp: ready_def act_throw_def w_set_deadline_def conn_open_def w_conn_def touched_def conn_fin_def)
  have "conn_stream (w_conn k w1) = dns_frame q @ tail" using w1(4) assms(5) by simp
  from conn_rd.readDNSMessage_frame [OF ready_open [OF w1(2)] this] assms(6) obtain w2 where
    w2: "readDNSMessage (w_read k) w1 = (Ret q, w2)" "conn_stream (w_conn k w2) = tail" "conn_rd.same k w1 w2" by auto
  note t2 = same_touched [OF ready_open [OF w1(2)] w2(3)]
  have r2: "ready k w2" "wlog w2 = wlog w1" using t2 w1(2) by (auto simp: ready_def conn_ctl_def touched_def)
  have b2: "beside k w w2" using beside_touched [OF assms(3) ready_open [OF assms(2)] touched_trans [OF w1(3) t2(1)]] .
  have ok2: "world_ok w2" "k < length (dials w2)" using b2 assms(4) by (auto simp: beside_def)
  with assms(1) obtain r w3 where r: "resolve q w2 = Some (r, w3)" "held w2 {} w3" "\<forall>j < length (dials w2). sent_to j w3 = sent_to j w2" "\<forall>p. r \<noteq> Pan p"
    unfolding discreet_def by blast
  have b3: "beside k w w3" using beside_trans [OF b2 beside_held [OF r(2)] assms(4)] .
  have sent: "sent_to k w3 = sent_to k w" using r(3) ok2(2) r2(2) w1(5) by (simp add: sent_to_def)
  show ?thesis
  proof (cases r)
    case (Exc e)
    with w1(1) w2(1) r(1) have "handleDNSStream resolve now i k w = Some (Exc e, w3)" by (subst handleDNSStream.simps) (simp add: act_try_def)
    with b2 b3 r(1) Exc sent show ?thesis unfolding answers_next_def by blast
  next
    case (Ret a)
    have same: "heap w3 k = heap w2 k" "conn_open k w3"
      using r(2) ok2(2) ready_open [OF r2(1)] by (auto simp: held_def old_kept_def conn_open_def)
    note c3 = ready_cong [OF same r2(1)]
    define w4 where "w4 = w3\<lparr>wlog := wlog w3 @ [(k, dns_frame a)]\<rparr>"
    have "werrs (conn_raw (w_conn k w3)) = []" using c3 unfolding ready_def by blast
    from w_write_reliable [OF same(2) this] have wr: "writeDNSMessage k a w3 = (Ret (), w4)"
      by (simp add: writeDNSMessage_def act_throw_def w4_def)
    have eq: "conn_open k w4 = conn_open k w3" "w_conn k w4 = w_conn k w3" by (simp_all add: w4_def conn_open_def w_conn_def)
    have "ready k w4" using c3 unfolding ready_def eq by blast
    moreover have "beside k w w4" using b3 by (simp add: beside_def w4_def world_ok_def new_open_def conn_open_def)
    moreover have "conn_stream (w_conn k w4) = tail" using eq c3 w2(2) by simp
    moreover have "sent_to k w4 = sent_to k w @ [dns_frame a]" using sent by (simp add: w4_def sent_to_def)
    moreover have "handleDNSStream resolve now i k w = handleDNSStream resolve now (Suc i) k w4"
      using handleDNSStream_step [where now = now and i = i and resolve = resolve, OF w1(1) w2(1)] r(1) Ret wr by simp
    ultimately show ?thesis using b2 r(1) Ret unfolding answers_next_def by blast
  qed (use r(4) in simp)
qed

text \<open>The whole stream: answers in order, up to the first query whose resolution throws.\<close>

definition answered_in_order ::
    "(bytes \<Rightarrow> world \<Rightarrow> (bytes res \<times> world) option) \<Rightarrow> nat \<Rightarrow> world \<Rightarrow> bytes list \<Rightarrow> bytes list \<Rightarrow> unit res \<Rightarrow> bool" where
  "answered_in_order resolve k w qs as x \<longleftrightarrow>
     list_all2 (\<lambda>q a. \<exists>v u. beside k w v \<and> resolve q v = Some (Ret a, u)) (take (length as) qs) as \<and>
     (case x of
        Ret _ \<Rightarrow> length as = length qs
      | Exc e \<Rightarrow> length as < length qs \<and> (\<exists>v u. beside k w v \<and> resolve (qs ! length as) v = Some (Exc e, u))
      | Pan _ \<Rightarrow> False)"

lemma answered_in_order_Cons:
  assumes "answered_in_order resolve k w' qs as x" "beside k w w'" "k < length (dials w)" "beside k w v" "resolve q v = Some (Ret a, u)"
  shows "answered_in_order resolve k w (q # qs) (a # as) x"
proof -
  have up: "beside k w' v' \<Longrightarrow> beside k w v'" for v' using beside_trans [OF assms(2) _ assms(3)] .
  have "list_all2 (\<lambda>q a. \<exists>v u. beside k w v \<and> resolve q v = Some (Ret a, u)) (take (length as) qs) as"
    using assms(1) unfolding answered_in_order_def by (blast intro: list_all2_mono up)
  then show ?thesis using assms(1,4,5) up unfolding answered_in_order_def by (cases x) fastforce+
qed

lemma stream_answers:
  assumes "discreet resolve"
  shows "ready k w \<Longrightarrow> world_ok w \<Longrightarrow> k < length (dials w) \<Longrightarrow> \<forall>q \<in> set qs. length q < 65536 \<Longrightarrow>
    conn_stream (w_conn k w) = concat (map dns_frame qs) \<Longrightarrow>
    \<exists>x as w'. handleDNSStream resolve now i k w = Some (x, w') \<and> sent_to k w' = sent_to k w @ map dns_frame as \<and> beside k w w' \<and>
      answered_in_order resolve k w qs as x"
proof (induction qs arbitrary: i w)
  case Nil
  obtain w1 where w1: "act_throw (w_set_deadline k (Some (now i + dnsStreamIdleTimeout))) w = (Ret (), w1)" "touched k w w1"
    "conn_open k w1" "conn_stream (w_conn k w1) = []" "wlog w1 = wlog w"
    using Nil by (auto simp: ready_def act_throw_def w_set_deadline_def conn_open_def w_conn_def touched_def conn_fin_def)
  from conn_rd.readDNSMessage_end [OF w1(3,4)] obtain e w2 where
    w2: "readDNSMessage (w_read k) w1 = (Exc e, w2)" "conn_rd.same k w1 w2" by blast
  note t2 = same_touched [OF w1(3) w2(2)]
  have "beside k w w2" using beside_touched [OF Nil(2) ready_open [OF Nil(1)] touched_trans [OF w1(2) t2(1)]] .
  moreover have "sent_to k w2 = sent_to k w" using t2(2) w1(5) by (simp add: sent_to_def)
  ultimately show ?case using handleDNSStream_end [where now = now and i = i, OF w1(1) w2(1)]
    by (intro exI [of _ "Ret ()"] exI [of _ "[]"] exI [of _ w2]) (simp add: answered_in_order_def)
next
  case (Cons q qs)
  then have "conn_stream (w_conn k w) = dns_frame q @ concat (map dns_frame qs)" "length q < 65536" by simp_all
  from stream_round [OF assms Cons.prems(1-3) this, of now i] show ?case
    unfolding answers_next_def
  proof (elim disjE exE conjE)
    fix v a u w4 assume v: "beside k w v" "resolve q v = Some (Ret a, u)" and h: "handleDNSStream resolve now i k w = handleDNSStream resolve now (Suc i) k w4"
      and w4: "ready k w4" "beside k w w4" "conn_stream (w_conn k w4) = concat (map dns_frame qs)" "sent_to k w4 = sent_to k w @ [dns_frame a]"
    have "world_ok w4" "k < length (dials w4)" using w4(2) Cons.prems(3) by (auto simp: beside_def)
    from Cons.IH [OF w4(1) this _ w4(3), of "Suc i"] Cons.prems(4) obtain x as w' where
      w': "handleDNSStream resolve now (Suc i) k w4 = Some (x, w')" "sent_to k w' = sent_to k w4 @ map dns_frame as" "beside k w4 w'"
        "answered_in_order resolve k w4 qs as x" by auto
    from answered_in_order_Cons [OF w'(4) w4(2) Cons.prems(3) v] w' h w4(4) beside_trans [OF w4(2) w'(3) Cons.prems(3)]
    show ?thesis by (intro exI [of _ x] exI [of _ "a # as"] exI [of _ w']) simp
  next
    fix v e w' assume "beside k w v" "resolve q v = Some (Exc e, w')" "handleDNSStream resolve now i k w = Some (Exc e, w')" "beside k w w'"
      "sent_to k w' = sent_to k w"
    then show ?thesis by (intro exI [of _ "Exc e"] exI [of _ "[]"] exI [of _ w']) (auto simp: answered_in_order_def)
  qed
qed

definition clients_ok :: "world \<Rightarrow> world \<times> nat list \<Rightarrow> bool" where
  "clients_ok v = (\<lambda>(w, ended). world_ok w \<and> length (dials v) \<le> length (dials w) \<and> (\<forall>j. length (dials v) \<le> j \<longrightarrow> \<not> conn_open j w) \<and>
     (\<forall>j \<in> set ended. j < length (dials v) \<and> j \<in> set (closed w)))"

lemma serveDNSTCP_job_ends:
  assumes "tidy (resolve k)" "clients_ok v (w, ended)" "k < length (dials v)"
  shows "\<exists>w'. serveDNSTCP_job resolve now c k (w, ended) = Some (Ret (), (w', ended @ [k])) \<and> clients_ok v (w', ended @ [k])"
proof -
  have w: "world_ok w" "k < length (dials w)" using assms(2,3) by (auto simp: clients_ok_def)
  from stream_ends [OF assms(1) w] obtain x w' where x: "handleDNSStream (resolve k) now 0 k w = Some (x, w')" "\<forall>q. x \<noteq> Pan q" "beside k w w'" by blast
  have "\<not> conn_open j w'" if "length (dials v) \<le> j" for j
  proof (cases "j < length (dials w)")
    case True
    with x(3) that assms(2,3) show ?thesis by (auto simp: beside_def clients_ok_def conn_open_def)
  next
    case False
    with x(3) show ?thesis by (auto simp: beside_def new_open_def)
  qed
  then have "clients_ok v (w_close k w', ended @ [k])"
    using x(3) w assms(2,3) by (auto simp: clients_ok_def beside_def world_ok_def conn_open_def)
  with x show ?thesis by (cases x) (auto simp: serveDNSTCP_job_def)
qed

interpretation tcp_dns: accept_loop "\<lambda>k. k" "\<lambda>_. ()" "serveDNSTCP_job resolve now"
  "\<lambda>st. (\<forall>k. tidy (resolve k)) \<and> clients_ok v st" "\<lambda>_. True" snd "\<lambda>k. k" "\<lambda>k. k < length (dials v)"
  for resolve now v
proof unfold_locales
  fix st :: "world \<times> nat list" and c :: unit and k
  assume i: "(\<forall>k. tidy (resolve k)) \<and> clients_ok v st" and k: "k < length (dials v)"
  obtain w ended where st: "st = (w, ended)" by (cases st)
  have t: "tidy (resolve k)" "clients_ok v (w, ended)" using i st by auto
  from serveDNSTCP_job_ends [where resolve = resolve, OF t k, of now c] obtain w' where
    r: "serveDNSTCP_job resolve now c k st = Some (Ret (), (w', ended @ [k]))" "clients_ok v (w', ended @ [k])" unfolding st by blast
  with i show "\<exists>r s'. serveDNSTCP_job resolve now c k st = Some (r, s') \<and> (\<forall>q. r \<noteq> Pan q) \<and> (\<forall>k. tidy (resolve k)) \<and> clients_ok v s'" by blast
  show "snd s' = snd st @ (if r' = Ret () then [k] else [])" if "serveDNSTCP_job resolve now c k st = Some (r', s')" for r' s'
    using that r st by auto
qed simp_all

section \<open>Properties\<close>

text \<open>
  C22: The UDP listener serves every query. Whatever the datagrams, the interleaving of the goroutines, the upstreams and the kernel do, and as long as the codec's
  answer sections end: the program does not panic and the shared index stays in the list; every datagram read is cut to the buffer and handled at most once; the
  clients answered are exactly the senders of the handlers that returned, one answer each, so a query that fails costs nobody else anything; no socket of an upstream
  stays open; and the listener and its goroutines can go on until every datagram was handled, in at most three steps each.
\<close>

theorem dns_udp_serves_every_query:
  assumes "parser_ends lib" and "unat p < length addrs" and "length addrs \<le> 2 ^ 31" and "world_ok w"
    and "(sstep dns_recv dns_load (serveDNS_job lib pol env now addrs wr) ^^ n) (server_start queries (p, (w, []))) s"
  shows "sv_crash s = None \<and> unat (fst (sv_st s)) < length addrs \<and> new_open w (fst (snd (sv_st s))) = {} \<and> old_kept w (fst (snd (sv_st s))) \<and>
    map fst (snd (snd (sv_st s))) = [addr. ((addr, q), r) \<leftarrow> sv_done s, r = Ret ()] \<and>
    mset (map fst (sv_done s)) \<subseteq># mset (map (\<lambda>(addr, d). (addr, take dnsBufferSize d)) queries) \<and>
    n \<le> 3 * length queries + 1 \<and>
    ((\<exists>s'. sstep dns_recv dns_load (serveDNS_job lib pol env now addrs wr) s s') \<or>
      mset (map fst (sv_done s)) = mset (map (\<lambda>(addr, d). (addr, take dnsBufferSize d)) queries))"
proof -
  have st: "parser_ends lib \<and> dns_ok addrs w (p, (w, []))" using assms(1-3) held_start [OF assms(4)] by (simp add: dns_ok_def)
  have all: "\<forall>j \<in> set queries. True" by simp
  note S = udp_dns.serves_everything [OF st all assms(5)]
  have "map (fst \<circ> fst) (filter (\<lambda>(j, r). r = Ret ()) xs) = [addr. ((addr, q), r) \<leftarrow> xs, r = Ret ()]" for xs :: "((string \<times> bytes) \<times> unit res) list"
    by (induction xs) auto
  then have a: "answered fst s = [addr. ((addr, q), r) \<leftarrow> sv_done s, r = Ret ()]" by (simp add: answered_def)
  from S(3) have "unat (fst (sv_st s)) < length addrs" "new_open w (fst (snd (sv_st s))) = {}" "old_kept w (fst (snd (sv_st s)))"
    by (simp_all add: dns_ok_def held_def)
  with S a show ?thesis by (simp add: dns_recv_def)
qed

text \<open>
  C21: A TCP client gets its answers in order, and knows where they stop. For any number of queries in any segmentation, on a client connection that takes what is
  written to it, with the program's own resolver over any upstreams, whatever they do and wherever the other goroutines move the shared index: the handler ends
  without a panic; what it writes to the client is one framed answer per query, in order, each the resolver's answer to that query; if it returns, every query
  was answered; if it throws, it throws what the resolver threw for the first query that is not answered, and the later ones are not read. It leaves no
  connection to an upstream open and touches no other client's.
\<close>

theorem dns_stream_answers_every_query:
  assumes "parser_ends lib" and "addrs \<noteq> []" and "length addrs \<le> 2 ^ 31" and "\<And>q w. 0 \<le> loaded q w" and "\<And>q w. unat (found q w) < length addrs"
    and "world_ok w" and "k < length (dials w)" and "ready k w" and "\<forall>q \<in> set qs. length q < 65536"
    and "conn_stream (w_conn k w) = concat (map dns_frame qs)"
  shows "\<exists>x as w'. handleDNSStream (stream_resolver lib pol env addrs loaded found clock) now 0 k w = Some (x, w') \<and>
    sent_to k w' = sent_to k w @ map dns_frame as \<and> beside k w w' \<and>
    list_all2 (\<lambda>q a. \<exists>v u. beside k w v \<and> stream_resolver lib pol env addrs loaded found clock q v = Some (Ret a, u)) (take (length as) qs) as \<and>
    (case x of
       Ret _ \<Rightarrow> length as = length qs
     | Exc e \<Rightarrow> length as < length qs \<and>
         (\<exists>v u. beside k w v \<and> stream_resolver lib pol env addrs loaded found clock (qs ! length as) v = Some (Exc e, u))
     | Pan _ \<Rightarrow> False)"
proof -
  have "discreet (stream_resolver lib pol env addrs loaded found clock)" by (rule stream_resolver_discreet) (rule assms)+
  from stream_answers [OF this assms(8,6,7,9,10), of now 0] show ?thesis unfolding answered_in_order_def .
qed

text \<open>
  C23: The TCP listener closes every connection it accepts. For clients that send anything in any segmentation and resolvers that end and leave nothing open, as
  the program's own does: no goroutine hangs or panics, each accepted connection is handled once, and is closed when its goroutine ends, also after a
  malformed message, a failed query or a failed write; no socket of an upstream stays open; and the listener can go on until it has
  served every connection.
\<close>

theorem dns_tcp_closes_every_connection:
  assumes "\<And>k. tidy (resolve k)" and "world_ok w" and "new_open w w = {}" and "\<forall>k \<in> set clients. k < length (dials w)"
    and "(sstep (\<lambda>k. k) (\<lambda>_. ()) (serveDNSTCP_job resolve now) ^^ n) (server_start clients (w, [])) s"
  shows "sv_crash s = None \<and> new_open w (fst (sv_st s)) = {} \<and> snd (sv_st s) = [k. (k, r) \<leftarrow> sv_done s, r = Ret ()] \<and>
    (\<forall>k \<in> set (snd (sv_st s)). \<not> conn_open k (fst (sv_st s))) \<and> mset (map fst (sv_done s)) \<subseteq># mset clients \<and> n \<le> 3 * length clients + 1 \<and>
    ((\<exists>s'. sstep (\<lambda>k. k) (\<lambda>_. ()) (serveDNSTCP_job resolve now) s s') \<or> mset (map fst (sv_done s)) = mset clients)"
proof -
  have st: "(\<forall>k. tidy (resolve k)) \<and> clients_ok w (w, [])" using assms(1-3) by (auto simp: clients_ok_def new_open_def)
  note S = tcp_dns.serves_everything [OF st assms(4,5)]
  have "map ((\<lambda>k. k) \<circ> fst) (filter (\<lambda>(j, r). r = Ret ()) xs) = [k. (k, r) \<leftarrow> xs, r = Ret ()]" for xs :: "(nat \<times> unit res) list"
    by (induction xs) auto
  then have a: "answered (\<lambda>k. k) s = [k. (k, r) \<leftarrow> sv_done s, r = Ret ()]" by (simp add: answered_def)
  from S(3) have "new_open w (fst (sv_st s)) = {}" "\<forall>k \<in> set (snd (sv_st s)). \<not> conn_open k (fst (sv_st s))"
    by (auto simp: clients_ok_def new_open_def conn_open_def split: prod.splits)
  with S a show ?thesis by simp
qed

text \<open>Witnesses: one AAAA query without IPv6, and one client with two queries.\<close>

lemma demo_parser_ends: "parser_ends demo_lib"
proof -
  have "\<exists>rrs. yields demo_lib r rrs" for r
  proof (induction "length r" arbitrary: r rule: less_induct)
    case less
    show ?case
    proof (cases r)
      case Nil
      then have "p_Answer demo_lib r = Inl (Fmt ''section done'' [])" by (simp add: demo_lib_def)
      from yields_end [OF this] show ?thesis by blast
    next
      case (Cons x xs)
      then have "length (drop 3 xs) < length r" by simp
      from less [OF this] obtain rrs where "yields demo_lib (drop 3 xs) rrs" by blast
      moreover have "p_Answer demo_lib r = Inr (AAAAResource (v4InV6Prefix @ take 4 r), drop 3 xs)" using Cons by (simp add: demo_lib_def)
      ultimately show ?thesis using yields_more [of demo_lib r] by blast
    qed
  qed
  then show ?thesis by (simp add: parser_ends_def)
qed

lemma three_steps:
  assumes "handle (load st) (recv j) st = Some (Ret (), st')"
  shows "(sstep recv load handle ^^ 3) (server_start [j] st)
    \<lparr>sv_in = [], sv_new = [], sv_run = [], sv_done = [(recv j, Ret ())], sv_st = st', sv_end = None, sv_crash = None\<rparr>"
proof -
  let ?s0 = "server_start [j] st"
  let ?s1 = "?s0\<lparr>sv_in := [], sv_new := [recv j]\<rparr>"
  let ?s2 = "?s1\<lparr>sv_new := [], sv_run := [(recv j, load st)]\<rparr>"
  have "sstep recv load handle ?s0 ?s1" using s_read [of ?s0 j "[]"] by (simp add: server_start_def)
  moreover have "sstep recv load handle ?s1 ?s2" using s_load [of ?s1 "[]" "recv j" "[]"] by (simp add: server_start_def)
  moreover have "sstep recv load handle ?s2 (?s2\<lparr>sv_run := [], sv_done := [(recv j, Ret ())], sv_st := st'\<rparr>)"
    using s_finish [of ?s2 "[]" "recv j" "load st" "[]" handle "Ret ()" st'] assms by (simp add: server_start_def)
  ultimately show ?thesis unfolding numeral_3_eq_3 relpowp.simps by (auto simp: server_start_def)
qed

theorem dns_udp_serves_every_query_witness:
  "\<exists>s. (sstep dns_recv dns_load (serveDNS_job demo_lib (demo_policy False) (\<lambda>_ _ _. Inl EOF) 0 [''192.0.2.53:53''] (\<lambda>_ _. None)) ^^ 3)
      (server_start [(''127.0.0.1:4000'', [7, 28])] (0, (demo_client, []))) s \<and> map fst (snd (snd (sv_st s))) = [''127.0.0.1:4000'']"
proof -
  let ?job = "serveDNS_job demo_lib (demo_policy False) (\<lambda>_ _ _. Inl EOF) 0 [''192.0.2.53:53''] (\<lambda>_ _. None)"
  let ?st = "(0, (demo_client, [])) :: dns_state"
  have "dns_recv (''127.0.0.1:4000'', [7, 28]) = (''127.0.0.1:4000'', [7, 28])" by (simp add: dns_recv_def dnsBufferSize_def)
  moreover have "\<exists>st'. ?job (dns_load ?st) (''127.0.0.1:4000'', [7, 28]) ?st = Some (Ret (), st')"
    by (simp add: serveDNS_job_def handleDNSQuery_def resolveDNS_def demo_query demo_policy_def emptyResponse_def)
      (simp add: demo_lib_def Let_def WriteTo_def)
  ultimately obtain st' where "?job (dns_load ?st) (dns_recv (''127.0.0.1:4000'', [7, 28])) ?st = Some (Ret (), st')"
    by auto
  note run = three_steps [where handle = ?job and recv = dns_recv and load = dns_load and st = ?st, OF this]
  have "world_ok demo_client" by (simp add: world_ok_def demo_client_def)
  from dns_udp_serves_every_query [OF demo_parser_ends _ _ this run] run show ?thesis by (auto simp: dns_recv_def)
qed

text \<open>
  The same client, without IPv6 and with an upstream that cannot be reached: its AAAA query is answered by the program itself, its next one has to be forwarded
  and fails.
\<close>

definition demo_stream :: "bytes \<Rightarrow> world \<Rightarrow> (bytes res \<times> world) option" where
  "demo_stream = stream_resolver demo_lib (demo_policy False) (\<lambda>_ _ _. Inl DeadlineExceeded) [''192.0.2.53:53''] (\<lambda>_ _. 0) (\<lambda>_ _. 0) (\<lambda>_ _. 0)"

lemma demo_stream_simps:
  "demo_stream [7, 28] w = Some (Ret [7, 28], w)" "\<exists>e u. demo_stream [9] w = Some (Exc e, u)"
proof -
  show "demo_stream [7, 28] w = Some (Ret [7, 28], w)"
    by (simp add: demo_stream_def stream_resolver_def resolveDNS_def demo_query demo_policy_def emptyResponse_def) (simp add: demo_lib_def Let_def TypeAAAA_def)
  have "p_Start demo_lib [9] = Inr (\<lparr>h_ID = 9, h_Response = False, h_OpCode = 0, h_Truncated = False, h_RecursionDesired = True,
      h_RecursionAvailable = False, h_RCode = 0\<rparr>, [])" "\<exists>e. p_Question demo_lib [] = Inl e" by (simp_all add: demo_lib_def)
  moreover have "\<exists>e w'. forwardDNS demo_lib (\<lambda>_ _ _. Inl DeadlineExceeded) 0 [9] ''192.0.2.53:53'' w = (Exc e, w')"
    by (simp add: forwardDNS_def forwardDNSUDP_def DialTimeout_def NewDirectConnector_def act_bind_def Let_def)
  ultimately show "\<exists>e u. demo_stream [9] w = Some (Exc e, u)"
    by (auto simp: demo_stream_def stream_resolver_def resolveDNS_def forward_from_def index_int_def index_def go_rem_def Let_def)
qed

theorem dns_stream_answers_every_query_witness:
  "\<exists>e w'. handleDNSStream demo_stream (\<lambda>_. 0) 0 0 demo_client = Some (Exc e, w') \<and> sent_to 0 w' = [dns_frame [7, 28]]"
proof -
  have ok: "world_ok demo_client" "0 < length (dials demo_client)" by (simp_all add: world_ok_def demo_client_def)
  have q: "\<forall>q \<in> set [[7, 28], [9]]. length (q :: bytes) < 65536" by simp
  have a: "unat (0 :: 32 word) < length [''192.0.2.53:53'']" by simp
  from dns_stream_answers_every_query [where loaded = "\<lambda>_ _. 0" and found = "\<lambda>_ _. 0" and clock = "\<lambda>_ _. 0" and now = "\<lambda>_. 0"
      and addrs = "[''192.0.2.53:53'']" and env = "\<lambda>_ _ _. Inl DeadlineExceeded" and pol = "demo_policy False",
      OF demo_parser_ends _ _ _ a ok demo_client_simps(1) q demo_client_simps(3), folded demo_stream_def]
  obtain x as w' where r: "handleDNSStream demo_stream (\<lambda>_. 0) 0 0 demo_client = Some (x, w')" "sent_to 0 w' = map dns_frame as"
    "list_all2 (\<lambda>q a. \<exists>v u. beside 0 demo_client v \<and> demo_stream q v = Some (Ret a, u)) (take (length as) [[7, 28], [9]]) as"
    "case x of Ret _ \<Rightarrow> length as = length [[7, 28], [9 :: byte]]
     | Exc e \<Rightarrow> length as < length [[7, 28], [9 :: byte]] \<and> (\<exists>v u. beside 0 demo_client v \<and> demo_stream ([[7, 28], [9]] ! length as) v = Some (Exc e, u))
     | Pan _ \<Rightarrow> False"
    using demo_client_simps(4) by auto
  have no: "demo_stream [9] v \<noteq> Some (Ret a, u)" "demo_stream [7, 28] v \<noteq> Some (Exc e, u)" for v a u e
    using demo_stream_simps by (metis option.inject prod.inject res.distinct(1))+
  show ?thesis
  proof (cases as)
    case Nil
    with r(4) no show ?thesis by (cases x) auto
  next
    case (Cons a as')
    with r(3) have "a = [7, 28]" using demo_stream_simps(1) by auto
    moreover have "as' = []"
    proof (cases as')
      case (Cons b bs)
      with r(3) \<open>as = a # as'\<close> no(1) show ?thesis by auto
    qed simp
    ultimately show ?thesis using r Cons by (cases x) auto
  qed
qed

theorem dns_tcp_closes_every_connection_witness:
  "\<exists>s. (sstep (\<lambda>k. k) (\<lambda>_. ()) (serveDNSTCP_job (\<lambda>_. demo_resolve) (\<lambda>_. 0)) ^^ 3) (server_start [0] (demo_client, [])) s \<and>
    snd (sv_st s) = [0] \<and> \<not> conn_open 0 (fst (sv_st s))"
proof -
  have ok: "world_ok demo_client" "0 < length (dials demo_client)" by (simp_all add: world_ok_def demo_client_def)
  have no: "new_open demo_client demo_client = {}" by (simp add: new_open_def demo_client_def conn_open_def)
  have t: "tidy demo_resolve" by (auto simp: tidy_def demo_resolve_def held_start)
  have "clients_ok demo_client (demo_client, [])" using ok no by (auto simp: clients_ok_def new_open_def)
  from serveDNSTCP_job_ends [where resolve = "\<lambda>_. demo_resolve", OF t this ok(2), of "\<lambda>_. 0" "()"] obtain st' where
    "serveDNSTCP_job (\<lambda>_. demo_resolve) (\<lambda>_. 0) () 0 (demo_client, []) = Some (Ret (), st')" by blast
  note run = three_steps [where recv = "\<lambda>k. k" and load = "\<lambda>_. ()" and handle = "serveDNSTCP_job (\<lambda>_. demo_resolve) (\<lambda>_. 0)", OF this]
  from dns_tcp_closes_every_connection [where resolve = "\<lambda>_. demo_resolve", OF t ok(1) no _ run] ok(2) run show ?thesis by auto
qed


end
