(* ===== verification/Spec2Isabelle.thy ===== *)
theory Spec2Isabelle
  imports Parent DnsServer
begin

text \<open>
  \<^bold>\<open>wirez\<close> runs a command in a container whose only network is a TUN device, and carries what comes out of it through a chain of SOCKS5 and
  HTTP CONNECT proxies. This development models the program of \<^verbatim>\<open>src/*.go\<close> function by function and proves what makes it correct.

  \<^bold>\<open>The parts and how they interact.\<close> \<^verbatim>\<open>main\<close> (\<^verbatim>\<open>root.go\<close>) is two programs in one. The parent (\<^verbatim>\<open>runRun\<close>, \<^verbatim>\<open>run.go\<close>) parses the flags
  (\<^verbatim>\<open>config.go\<close>), starts the child in new namespaces and waits for its descriptors; the child (\<^verbatim>\<open>runContainer\<close>, \<^verbatim>\<open>run_container.go\<close>) opens
  the TUN, sends it over the control socket, waits for the acknowledgement, configures the network and the shadowed files, and runs the
  command. In between the parent drives the TUN with a userspace TCP/IP stack (\<^verbatim>\<open>network_stack.go\<close>): a forwarded connection is dialled by the
  router of \<^verbatim>\<open>connect.go\<close>, which sends it to a \<^verbatim>\<open>-L\<close> target, refuses it, bypasses the proxies or hands it to the chain built by
  \<^verbatim>\<open>buildProxyChain\<close> from \<^verbatim>\<open>socks5.go\<close>, \<^verbatim>\<open>httpproxy.go\<close> and \<^verbatim>\<open>udp_assoc.go\<close>; \<^verbatim>\<open>transport.go\<close> then relays the bytes. \<^verbatim>\<open>resolver.go\<close> answers
  the container's DNS from the host. Errors travel as panics that carry an exception (\<^verbatim>\<open>throw.go\<close>).

  \<^bold>\<open>Which theory models what.\<close>
  \<^item> \<open>Prelude\<close>: \<^verbatim>\<open>throw.go\<close>. A call returns, throws or panics (\<open>res\<close>); an effect is a function on a state with such a result (\<open>act\<close>), and
    \<open>act_keeps\<close> is the calculus by which the components show that an exchange leaves the rest of the world alone.
  \<^item> \<open>GoLib\<close>, \<open>NetAddr\<close>, \<open>TextProto\<close>: what the program uses of Go's \<^verbatim>\<open>strings\<close>, \<^verbatim>\<open>strconv\<close>, \<^verbatim>\<open>encoding/binary\<close>, \<^verbatim>\<open>net\<close>, \<^verbatim>\<open>netip\<close>, \<^verbatim>\<open>bufio\<close>,
    \<^verbatim>\<open>net/textproto\<close> and \<^verbatim>\<open>base64\<close>, with the round trips (printing and parsing of addresses, numbers, header blocks).
  \<^item> \<open>Connect\<close>: \<^verbatim>\<open>connect.go\<close>. The address mapper is an interface locale (\<open>address_mapper\<close>) interpreted on the code's maps; the router refines the
    policy of the README, \<open>route_of\<close>, on endpoints.
  \<^item> \<open>Config\<close>: \<^verbatim>\<open>config.go\<close>. Parsers of the flag values.
  \<^item> \<open>ConnIO\<close>: connections as a store, with every dial, write and close recorded; the locale \<open>io_reader\<close> is what \<^verbatim>\<open>io.ReadFull\<close> relies on, the
    locale \<open>connector_contract\<close> what every connector promises: it answers, dials only its entry, and leaves exactly the returned
    connection open. The direct connector, the SOCKS5 and HTTP hops and the whole chain are interpretations.
  \<^item> \<open>Socks5\<close>, \<open>HttpProxy\<close>, \<open>Chain\<close>: \<^verbatim>\<open>socks5.go\<close>, \<^verbatim>\<open>httpproxy.go\<close> and \<^verbatim>\<open>buildProxyChain\<close>. A dial succeeds exactly on a well-formed acceptance, loses
    no byte of the tunnel, and shows the host's network only the first proxy.
  \<^item> \<open>UdpAssoc\<close>: \<^verbatim>\<open>udp_assoc.go\<close> and the UDP connector of \<^verbatim>\<open>socks5.go\<close>, as a step relation over all interleavings of flows, readers and failures.
    A region under a mutex is one step, and so is every close outside it.
  \<^item> \<open>Transport\<close>: \<^verbatim>\<open>transport.go\<close>, both copying goroutines and the report channel as a step relation.
  \<^item> \<open>Resolver\<close>: \<^verbatim>\<open>resolver.go\<close>: failover, AAAA policy, UDP and TCP exchanges, the loop of a TCP client over any resolver.
  \<^item> \<open>DnsServer\<close>: the answers of that loop with the program's resolver, up to the first query that cannot be resolved, and the two listeners of \<^verbatim>\<open>resolver.go\<close>, \<^verbatim>\<open>serveDNS\<close> and \<^verbatim>\<open>serveDNSTCP\<close>. The locale \<open>accept_loop\<close> states what a loop that leaves each job to a
    goroutine asks of its jobs, and proves that every job is then done once in every interleaving; both listeners are interpretations.
  \<^item> \<open>NetStack\<close>, \<open>Forwarders\<close>: \<^verbatim>\<open>network_stack.go\<close>: the handlers of forwarded connections, routes and the packet filter; the callbacks gVisor calls and the
    answers to ping. A UDP flow behind a chain without UDP is followed to the host's sockets; a flow over SOCKS5 hops is the matter of \<open>UdpAssoc\<close>.
  \<^item> \<open>FlagPkg\<close>, \<open>RunFlags\<close>: what the program uses of Go's \<^verbatim>\<open>flag\<close> package, with the values it parses, and the flag set of \<^verbatim>\<open>run.go\<close>.
  \<^item> \<open>Calls\<close>: programs as histories of calls, any of which may fail. \<open>follows\<close> is the calculus for what has to come before what, over the locale
    \<open>call_guard\<close>; \<open>emits\<close> is the one for what is given back on every path.
  \<^item> \<open>Container\<close>, \<open>Setup\<close>: \<^verbatim>\<open>run_container.go\<close>: the child's flags, credentials and files; the whole process as such a history (interpretation \<open>child\<close>).
  \<^item> \<open>Run\<close>: \<^verbatim>\<open>run.go\<close> and \<^verbatim>\<open>root.go\<close>: from the flags to the plan of a run, the control socket conversation of the two processes as a step relation,
    and theorems that span components: accepted flags contain the container's traffic, the DNS policy keeps no address the router would hand to a proxy,
    the processes never deadlock, and the exit status is the command's.
  \<^item> \<open>Parent\<close>: \<^verbatim>\<open>runRun\<close> itself with \<^verbatim>\<open>NewNetworkStack\<close> and \<^verbatim>\<open>startDNSResolver\<close>, as a history of calls (interpretation \<open>parent\<close>).
  \<^item> This theory: the two processes together, from the command line to the running command.

  \<^bold>\<open>Loops.\<close> A loop over a Go slice is structural recursion. \<^verbatim>\<open>io.ReadFull\<close> and the \<^verbatim>\<open>bufio\<close> loops run on fuel taken from the bytes that are
  missing or left, and their lemmas show that it is enough. The loop over the answers of a DNS message and the loop of a DNS client are
  \<^theory_text>\<open>partial_function (option)\<close>, since they end only with their input; the properties show that they do. The relay and the control socket are
  step relations with a measure that every step decreases, and so are the listeners of the resolver.

  \<^bold>\<open>Not modelled.\<close> The operating system behind a call (kernel, netlink, mounts) and gVisor are parameters: a call is recorded with its arguments and may
  fail. The URL grammar of \<^verbatim>\<open>net/url\<close>, the packing of \<^verbatim>\<open>dnsmessage\<close>, the control messages of \<^verbatim>\<open>golang.org/x/sys/unix\<close> and the floating-point product in a
  fractional duration are parameters too, and what is assumed of them is a named hypothesis. The JSON text of the two messages on the control socket is not
  modelled, only their fields. A goroutine of the UDP listener is interleaved at its two accesses to the shared index; what its sockets do in between is
  not visible to the others. Logging, the usage text, the addresses a flow reports and the String methods of flags have no effect on the rest and are left out.
\<close>

section \<open>The whole program\<close>

text \<open>
  C3: wirez does what it is for. On a host and in a container where no call fails, any accepted command line that names a command ends with status 0 in both
  processes: the parent starts the child with arguments the child understands, gets as many descriptors as it waits for, routes every TUN subnet into the
  stack and acknowledges; and the child, started with exactly those arguments, sends that many descriptors and runs the user's command with its arguments
  under the user and group the flags ask for.
\<close>

theorem wirez_runs_the_command:
  assumes "run_parse (h_frac ho) (h_euid ho) (h_egid ho) args = Ret (f, name # rest)"
    and "runRun_plan (h_url ho) f (name # rest) (h_euid ho) (h_egid ho) (h_uid_map ho) = Ret p"
    and "willing_host ho (if dnsServers f \<noteq> [] then 3 else 1)" and "willing k"
    and "uid f < 2 ^ 63" and "gid f < 2 ^ 63" and "args \<noteq> []" and "hd args \<noteq> ''runc''"
  shows "\<exists>h hc argv attr fds c.
    runRun ho args [] = (Ret (), h) \<and> StartChild argv attr \<in> set h \<and> EncodeACK \<in> set h \<and> list_all2 (route_for ho) (rp_tun p) (last_table h) \<and>
    runContainer k argv [] = (Ret (), hc) \<and> SendFds fds \<in> set hc \<and> length fds = rp_wantFds p \<and>
    Exec name rest (runc_sys_attr c (k_euid k) (k_egid k)) \<in> set hc \<and> rc_uid c = uid f \<and> rc_gid c = gid f \<and>
    main_status (''wirez'' # args) (\<lambda>a. fst (runContainer k a [])) (\<lambda>a. fst (runRun ho a [])) = 0 \<and>
    main_status (''/proc/self/exe'' # ''runc'' # argv) (\<lambda>a. fst (runContainer k a [])) (\<lambda>a. fst (runRun ho a [])) = 0"
proof -
  note plan = runRun_plan_ok [OF assms(2)]
  obtain h where h: "runRun ho args [] = (Ret (), h)" "StartChild (rp_args p) (rp_attr p) \<in> set h" "EncodeACK \<in> set h"
      "list_all2 (route_for ho) (rp_tun p) (last_table h)"
    using willing_runRun [OF assms(2,1,3)] by blast
  from container_outcome [OF assms(4) plan(5) assms(5) plan(6) assms(6), of "isInitialUserNamespaceRoot (h_euid ho) (h_uid_map ho)" "rp_useDNS p"
      "ipv6 f" "hostname f" "name # rest"]
  obtain c s where c': "runContainer k (rp_args p) [] =
        (Ret (), s @ [Exec name rest (runc_sys_attr c (k_euid k) (k_egid k))] @ map CloseFd (rev (descriptors (rp_useDNS p)) @ [ControlFd]))"
      "SendFds (descriptors (rp_useDNS p)) \<in> set s" "rc_uid c = uid f" "rc_gid c = gid f"
    unfolding plan(9) set_up_def by (simp only: list.case) blast
  obtain hc fds where c: "runContainer k (rp_args p) [] = (Ret (), hc)" "SendFds fds \<in> set hc" "length fds = (if rp_useDNS p then 3 else 1)"
      "rc_uid c = uid f" "rc_gid c = gid f" "Exec name rest (runc_sys_attr c (k_euid k) (k_egid k)) \<in> set hc"
    by (rule that [OF c'(1), of "descriptors (rp_useDNS p)"]) (use c'(2-4) in \<open>simp_all add: descriptors_def\<close>)
  have "main_status (''wirez'' # args) (\<lambda>a. fst (runContainer k a [])) (\<lambda>a. fst (runRun ho a [])) = 0"
    using h(1) assms(7,8) by (cases args) (simp_all add: main_status_def)
  moreover have "main_status (''/proc/self/exe'' # ''runc'' # rp_args p) (\<lambda>a. fst (runContainer k a [])) (\<lambda>a. fst (runRun ho a [])) = 0"
    using c(1) by (simp add: main_status_def)
  ultimately show ?thesis
    using h c plan(8)
    by (intro exI [of _ h] exI [of _ hc] exI [of _ "rp_args p"] exI [of _ "rp_attr p"] exI [of _ fds] exI [of _ c]) simp
qed

theorem wirez_runs_the_command_witness:
  "\<exists>h hc argv attr c. runRun demo_host demo_args [] = (Ret (), h) \<and> StartChild argv attr \<in> set h \<and>
    runContainer demo_kernel argv [] = (Ret (), hc) \<and> Exec ''ls'' [''-l''] (runc_sys_attr c 0 0) \<in> set hc \<and> rc_uid c = 1000"
proof -
  have f: "h_frac demo_host = (\<lambda>_ _ _. 0)" "h_euid demo_host = 1000" "h_egid demo_host = 100" "h_url demo_host = demo_url" "h_uid_map demo_host = None"
    by (simp_all add: demo_host_def)
  obtain p where p: "runRun_plan (h_url demo_host) demo_parsed [''ls'', ''-l''] (h_euid demo_host) (h_egid demo_host) (h_uid_map demo_host) = Ret p"
    using demo_run unfolding f by blast
  have w: "willing_host demo_host (if dnsServers demo_parsed \<noteq> [] then 3 else 1)"
    by (simp add: willing_host_def demo_host_def demo_parsed_def)
  have k: "willing demo_kernel" by (simp add: willing_def demo_kernel_def)
  have b: "uid demo_parsed = 1000" "gid demo_parsed = 100" by (simp_all add: demo_parsed_def newRunFlagSet_def)
  have e: "k_euid demo_kernel = 0" "k_egid demo_kernel = 0" by (simp_all add: demo_kernel_def)
  from wirez_runs_the_command [OF demo_parse [folded f(1-3)] p w k] b e show ?thesis by (fastforce simp: demo_args_def)
qed

end
